(* ===== verification/Go_Runtime.thy ===== *)
theory Go_Runtime
  imports Complex_Main "HOL-Library.Word" "HOL-Library.Multiset" "HOL-Library.AList"
begin

section \<open>What the program uses of the Go runtime\<close>

text \<open>
  The prelude of the development: the parts of the Go language and its runtime that every
  component of the repository rests on, and the generic lemmas about them.

  \<^item> A call either returns or panics: \<open>outcome\<close>, with the reason of the panic.
  \<^item> \<open>uint64\<close> is a \<open>64 word\<close>. \<open>int\<close> is a HOL \<open>int\<close>; where a sum may leave the 64-bit range the
    wrap-around is written out with \<open>int64\<close> (and \<open>int32\<close> for the one conversion to \<open>int32\<close>).
  \<^item> \<open>time.Time\<close> is an instant: an \<open>int\<close> counting nanoseconds, with \<open>After\<close> as \<open><\<close>.
  \<^item> A Go map is an association list with distinct keys. The order in which \<open>range\<close> visits it is
    not specified by the language, so every function that ranges over a map takes a \<open>choice\<close>,
    a list of naturals that selects one permutation. Every permutation has a choice
    (\<open>permute_complete\<close>), so a theorem for all choices is a theorem for all iteration orders.
  \<^item> \<open>sort.Slice\<close> sorts but is not stable: \<open>sort_slice\<close> takes a \<open>choice\<close> as well, and reaches
    exactly the sorted permutations of its input (\<open>sort_slice_complete\<close>).
\<close>

named_theorems go_simps \<open>facts about outcomes, maps and slices that rewrite\<close>
named_theorems inv_intros \<open>preservation lemmas of the components' invariants\<close>

subsection \<open>Outcomes\<close>

datatype panic =
    IndexOutOfRange
  | SliceBoundsOutOfRange
  | MakeSliceOutOfRange
  | TypeAssertion
  | NilFunctionCall
  | SendOnClosedChannel
  | DivideByZero

datatype 'a outcome = Ret 'a | Panic panic

fun bind_outcome :: "'a outcome \<Rightarrow> ('a \<Rightarrow> 'b outcome) \<Rightarrow> 'b outcome" where
  "bind_outcome (Ret x) f = f x"
| "bind_outcome (Panic p) f = Panic p"

definition returns :: "'a outcome \<Rightarrow> bool" where
  "returns r \<longleftrightarrow> (case r of Ret _ \<Rightarrow> True | Panic _ \<Rightarrow> False)"

lemma returns_simps [simp]: "returns (Ret x)" "\<not> returns (Panic p)"
  by (simp_all add: returns_def)

lemma returnsE [elim]:
  assumes "returns r"
  obtains x where "r = Ret x"
  using assms by (cases r) auto

lemma bind_outcome_eq_Ret [go_simps]:
  "bind_outcome r f = Ret y \<longleftrightarrow> (\<exists>x. r = Ret x \<and> f x = Ret y)"
  by (cases r) auto

subsection \<open>Integers and instants\<close>

type_synonym u64 = "64 word"
type_synonym time = int

lemma unat_of_nat_u64: "n < 2 ^ 64 \<Longrightarrow> unat (of_nat n :: u64) = n"
  by (simp add: unsigned_of_nat take_bit_nat_eq_self)

lemma unat_less_u64: "unat (n :: u64) < 2 ^ 64"
  using unsigned_less [of n] by simp

definition int64 :: "int \<Rightarrow> int" where
  "int64 n = signed_take_bit 63 n"

definition int32 :: "int \<Rightarrow> int" where
  "int32 n = signed_take_bit 31 n"

lemma int64_id [go_simps]: "- (2 ^ 63) \<le> n \<Longrightarrow> n < 2 ^ 63 \<Longrightarrow> int64 n = n"
  unfolding int64_def by (rule signed_take_bit_int_eq_self) simp_all

lemma int32_id [go_simps]: "- (2 ^ 31) \<le> n \<Longrightarrow> n < 2 ^ 31 \<Longrightarrow> int32 n = n"
  unfolding int32_def by (rule signed_take_bit_int_eq_self) simp_all

text \<open>Go's \<open>t.After(u)\<close>.\<close>

definition After :: "time \<Rightarrow> time \<Rightarrow> bool" where
  "After t u \<longleftrightarrow> u < t"

text \<open>Go's \<open>/\<close> on \<open>int\<close> truncates towards zero.\<close>

definition go_quot :: "int \<Rightarrow> int \<Rightarrow> int" where
  "go_quot a b = sgn a * sgn b * (\<bar>a\<bar> div \<bar>b\<bar>)"

lemma go_quot_nonneg: "0 \<le> a \<Longrightarrow> 0 < b \<Longrightarrow> go_quot a b = a div b"
  by (cases "a = 0") (auto simp: go_quot_def)

subsection \<open>Permutations chosen by the runtime\<close>

type_synonym choice = "nat list"

fun permute :: "choice \<Rightarrow> 'a list \<Rightarrow> 'a list" where
  "permute [] xs = xs"
| "permute (i # is) [] = []"
| "permute (i # is) (x # xs) =
     (let ys = x # xs; j = i mod length ys
      in ys ! j # permute is (take j ys @ drop (Suc j) ys))"

lemma permute_Nil2 [simp]: "permute c [] = []"
  by (cases c) auto

lemma mset_pick:
  assumes "j < length xs"
  shows "add_mset (xs ! j) (mset (take j xs @ drop (Suc j) xs)) = mset xs"
proof -
  have "mset xs = mset (take j xs @ xs ! j # drop (Suc j) xs)"
    using assms by (simp add: id_take_nth_drop [symmetric])
  then show ?thesis by simp
qed

lemma mset_permute [simp]: "mset (permute c xs) = mset xs"
proof (induction c xs rule: permute.induct)
  case (3 i "is" x xs)
  let ?ys = "x # xs"
  let ?j = "i mod length ?ys"
  have "?j < length ?ys" by simp
  from mset_pick [OF this] "3.IH" [of ?ys ?j] show ?case
    by (simp add: Let_def del: mset_append)
qed simp_all

lemma set_permute [simp]: "set (permute c xs) = set xs"
  by (rule mset_eq_setD) simp

lemma length_permute [simp]: "length (permute c xs) = length xs"
  by (rule mset_eq_length) simp

lemma distinct_permute [simp]: "distinct (permute c xs) = distinct xs"
  by (rule mset_eq_imp_distinct_iff) simp

lemma permute_eq_Nil [simp]: "permute c xs = [] \<longleftrightarrow> xs = []"
  by (metis length_0_conv length_permute)

lemma permute_complete:
  assumes "mset ys = mset xs"
  shows "\<exists>c. permute c xs = ys"
  using assms
proof (induction ys arbitrary: xs)
  case Nil
  then show ?case by (intro exI [of _ "[]"]) simp
next
  case (Cons y ys)
  then have "y \<in> set xs" by (metis list.set_intros(1) set_mset_mset)
  then obtain j where j: "j < length xs" "xs ! j = y" by (auto simp: in_set_conv_nth)
  let ?rest = "take j xs @ drop (Suc j) xs"
  have "add_mset y (mset ?rest) = add_mset y (mset ys)"
    using mset_pick [OF j(1)] j(2) Cons.prems by (simp del: mset_append)
  then have "mset ys = mset ?rest" by simp
  then obtain c where "permute c ?rest = ys" using Cons.IH by blast
  with j have "permute (j # c) xs = y # ys" by (cases xs) (auto simp: Let_def)
  then show ?case by blast
qed

subsection \<open>sort.Slice\<close>

definition sort_slice :: "choice \<Rightarrow> ('a \<Rightarrow> 'k::linorder) \<Rightarrow> 'a list \<Rightarrow> 'a list" where
  "sort_slice c key xs = sort_key key (permute c xs)"

lemma mset_sort_slice [simp]: "mset (sort_slice c key xs) = mset xs"
  by (simp add: sort_slice_def)

lemma set_sort_slice [simp]: "set (sort_slice c key xs) = set xs"
  by (simp add: sort_slice_def)

lemma length_sort_slice [simp]: "length (sort_slice c key xs) = length xs"
  by (simp add: sort_slice_def)

lemma sorted_sort_slice [simp]: "sorted (map key (sort_slice c key xs))"
  by (simp add: sort_slice_def)

lemma sort_slice_eq_Nil [simp]: "sort_slice c key xs = [] \<longleftrightarrow> xs = []"
  by (metis length_0_conv length_sort_slice)

lemma sort_slice_complete:
  assumes "mset ys = mset xs" and "sorted (map key ys)"
  shows "\<exists>c. sort_slice c key xs = ys"
proof -
  obtain c where "permute c xs = ys" using permute_complete [OF assms(1)] by blast
  then have "sort_slice c key xs = ys"
    by (simp add: sort_slice_def sort_key_id_if_sorted assms(2))
  then show ?thesis by blast
qed

text \<open>With distinct keys the result does not depend on the choice.\<close>

lemma sort_slice_unique:
  assumes "distinct (map key xs)" and "mset ys = mset xs" and "sorted (map key ys)"
  shows "sort_slice c key xs = ys"
proof -
  have "inj_on key (set (permute c xs))" using assms(1) by (simp add: distinct_map)
  then have "sort_key key (permute c xs) = ys"
    by (intro sort_key_inj_key_eq) (use assms in auto)
  then show ?thesis by (simp add: sort_slice_def)
qed

lemma sort_slice_single [simp]: "sort_slice c key [x] = [x]"
  by (rule sort_slice_unique) simp_all

subsection \<open>Maps\<close>

lemma set_alist_update: "set (AList.update k v m) \<subseteq> insert (k, v) (set m)"
  by (induction m) auto

lemma length_alist_update:
  "length (AList.update k v m) = (if k \<in> set (map fst m) then length m else Suc (length m))"
  using arg_cong [OF update_keys, of length k v m] by (simp split: if_splits)

lemma map_of_permute:
  "distinct (map fst m) \<Longrightarrow> map_of (permute c m) = map_of m"
  by (rule map_of_inject_set [THEN iffD2]) (simp_all add: distinct_map)

lemma distinct_map_permute [simp]: "distinct (map f (permute c xs)) = distinct (map f xs)"
  by (rule mset_eq_imp_distinct_iff) simp

text \<open>Building a map in a loop over another map: the order of the loop does not matter.\<close>

lemma map_of_fold_update:
  assumes "distinct (map fst m)"
  shows "map_of (fold (\<lambda>(k, v) acc. if \<not> P k then acc else AList.update k (f v) acc) m acc) key =
    (case map_of m key of
       Some v \<Rightarrow> if P key then Some (f v) else map_of acc key
     | None \<Rightarrow> map_of acc key)"
  using assms
proof (induction m arbitrary: acc key)
  case (Cons p m)
  obtain k v where p: "p = (k, v)" by force
  with Cons.prems have none: "map_of m k = None" and "distinct (map fst m)"
    by (auto simp: map_of_eq_None_iff)
  note IH = Cons.IH [OF this(2)]
  show ?case by (cases "key = k") (auto simp: IH p none update_conv' split: option.splits)
qed simp

lemma distinct_fold_update:
  "distinct (map fst acc) \<Longrightarrow>
   distinct (map fst (fold (\<lambda>(k, v) acc. if \<not> P k then acc else AList.update k (f v) acc) m acc))"
  by (induction m arbitrary: acc) (auto simp: distinct_update split: prod.splits)

end
