(* ===== verification/DSN_Types.thy ===== *)
theory DSN_Types
  imports Go_Runtime
begin

section \<open>The shared types\<close>

text \<open>
  \<open>types/types.go\<close> and \<open>err/err.go\<close>: the values that travel between the components. A
  \<open>NodeState\<close> is a string in the source and stays one here, since gossip received from another
  process may carry any string (the deprecated coordinator sends the empty one). An \<open>interface{}\<close>
  holds whatever JSON was decoded into it; \<open>nil\<close> is \<open>JNull\<close>. Errors are values: an error that is
  \<open>nil\<close> in Go is \<open>None\<close>.
\<close>

subsection \<open>JSON values and errors\<close>

datatype json =
    JNull
  | JBool bool
  | JNum rat
  | JStr string
  | JArr "json list"
  | JObj "(string \<times> json) list"

type_synonym any = json

datatype error =
    ErrNoNodeWithRequiredEndOfKeyRange
  | ErrRedirectPostKeyValue
  | ErrReplicatePostKeyValue
  | ErrRequestingReplica
  | ErrRedirectGetKeyValue
  | ErrNotEnoughNodes
  | ErrInvalidReadQuorumValue
  | ErrNodeAlrExistWithEndOfKeyRange
  | ErrNodeNotFound
  | ErrFirstNodeNotMax
  | ErrAddNode
  | NumError string
  | BindError
  | TransportError string
  | BodyError string
  | Joined error error
  | RemoteError "error option"

subsection \<open>Fields of a decoded JSON object\<close>

text \<open>
  Reading a key of a \<open>map[string]interface{}\<close> (\<open>None\<close> is a body that was not decoded, whose map is
  empty), and the type assertions \<open>.(string)\<close> and \<open>.(float64)\<close>, which panic on anything else.
  \<open>uint64(x)\<close> of a \<open>float64\<close> below 2^64 truncates; the result outside the range is the platform's,
  the parameter \<open>conv\<close>.
\<close>

definition uint64_of_float :: "(rat \<Rightarrow> u64) \<Rightarrow> rat \<Rightarrow> u64" where
  "uint64_of_float conv x =
     (if - 1 < x \<and> x < 2 ^ 64 then (if x < 0 then 0 else of_int \<lfloor>x\<rfloor>) else conv x)"

definition body_field :: "(string \<times> json) list option \<Rightarrow> string \<Rightarrow> json" where
  "body_field body key =
     (case body of None \<Rightarrow> JNull | Some m \<Rightarrow> (case map_of m key of None \<Rightarrow> JNull | Some v \<Rightarrow> v))"

definition assert_string :: "json \<Rightarrow> string outcome" where
  "assert_string j = (case j of JStr s \<Rightarrow> Ret s | _ \<Rightarrow> Panic TypeAssertion)"

definition assert_float :: "json \<Rightarrow> rat outcome" where
  "assert_float j = (case j of JNum x \<Rightarrow> Ret x | _ \<Rightarrow> Panic TypeAssertion)"

subsection \<open>Node states\<close>

type_synonym NodeState = string

definition JOINING :: NodeState where "JOINING = ''JOINING''"
definition BOOTSTRAPPING :: NodeState where "BOOTSTRAPPING = ''BOOTSTRAPPING''"
definition AVAILABLE :: NodeState where "AVAILABLE = ''AVAILABLE''"

lemma node_states_distinct [simp]:
  "JOINING \<noteq> BOOTSTRAPPING" "BOOTSTRAPPING \<noteq> JOINING"
  "JOINING \<noteq> AVAILABLE" "AVAILABLE \<noteq> JOINING"
  "BOOTSTRAPPING \<noteq> AVAILABLE" "AVAILABLE \<noteq> BOOTSTRAPPING"
  "JOINING \<noteq> []" "BOOTSTRAPPING \<noteq> []" "AVAILABLE \<noteq> []"
  "[] \<noteq> JOINING" "[] \<noteq> BOOTSTRAPPING" "[] \<noteq> AVAILABLE"
  by (simp_all add: JOINING_def BOOTSTRAPPING_def AVAILABLE_def)

subsection \<open>Gossip and storage nodes\<close>

record NodeGossip =
  gId :: string
  gHost :: string
  gEndOfKeyRange :: u64
  gLastUpdate :: time
  gState :: NodeState
  gReplicaCount :: int

definition NodeGossip_XEndOfKeyRange :: "NodeGossip \<Rightarrow> u64" where
  "NodeGossip_XEndOfKeyRange g = gEndOfKeyRange g"

definition NodeGossip_XState :: "NodeGossip \<Rightarrow> NodeState" where
  "NodeGossip_XState g = gState g"

definition NodeGossip_Clone :: "NodeGossip \<Rightarrow> NodeGossip" where
  "NodeGossip_Clone g =
     \<lparr>gId = gId g, gHost = gHost g, gEndOfKeyRange = gEndOfKeyRange g,
      gLastUpdate = gLastUpdate g, gState = gState g, gReplicaCount = gReplicaCount g\<rparr>"

record StorageNode =
  sId :: string
  sEndOfKeyRange :: u64
  sHost :: string
  sState :: NodeState

definition StorageNode_XEndOfKeyRange :: "StorageNode \<Rightarrow> u64" where
  "StorageNode_XEndOfKeyRange s = sEndOfKeyRange s"

definition StorageNode_XState :: "StorageNode \<Rightarrow> NodeState" where
  "StorageNode_XState s = sState s"

lemma NodeGossip_Clone_id [simp]: "NodeGossip_Clone g = g"
  by (simp add: NodeGossip_Clone_def)

lemma NodeGossip_accessors [simp]:
  "NodeGossip_XEndOfKeyRange = gEndOfKeyRange" "NodeGossip_XState = gState"
  by (simp_all add: fun_eq_iff NodeGossip_XEndOfKeyRange_def NodeGossip_XState_def)

lemma StorageNode_accessors [simp]:
  "StorageNode_XEndOfKeyRange = sEndOfKeyRange" "StorageNode_XState = sState"
  by (simp_all add: fun_eq_iff StorageNode_XEndOfKeyRange_def StorageNode_XState_def)

subsection \<open>Store entries and replication events\<close>

record StoreEntry =
  eValue :: any
  eVersion :: u64
  eIsReplica :: bool

definition StoreEntry_Clone :: "StoreEntry \<Rightarrow> StoreEntry" where
  "StoreEntry_Clone e = \<lparr>eValue = eValue e, eVersion = eVersion e, eIsReplica = eIsReplica e\<rparr>"

lemma StoreEntry_Clone_id [simp]: "StoreEntry_Clone e = e"
  by (simp add: StoreEntry_Clone_def)

type_synonym ReplicationEventType = string

definition LiveMutationReplicationEType :: ReplicationEventType where
  "LiveMutationReplicationEType = ''LiveMutationEType''"
definition LiveMutationReplicationCompleteEType :: ReplicationEventType where
  "LiveMutationReplicationCompleteEType = ''LiveMutationCompleteEType''"
definition SnapshotReplicationEType :: ReplicationEventType where
  "SnapshotReplicationEType = ''SnapshotReplicationEType''"
definition SnapshotReplicationCompleteEType :: ReplicationEventType where
  "SnapshotReplicationCompleteEType = ''SnapshotReplicationCompleteEType''"

lemmas etype_defs =
  LiveMutationReplicationEType_def LiveMutationReplicationCompleteEType_def
  SnapshotReplicationEType_def SnapshotReplicationCompleteEType_def

lemma etypes_distinct [simp]:
  "LiveMutationReplicationEType \<noteq> LiveMutationReplicationCompleteEType"
  "LiveMutationReplicationEType \<noteq> SnapshotReplicationEType"
  "LiveMutationReplicationEType \<noteq> SnapshotReplicationCompleteEType"
  "LiveMutationReplicationCompleteEType \<noteq> LiveMutationReplicationEType"
  "LiveMutationReplicationCompleteEType \<noteq> SnapshotReplicationEType"
  "LiveMutationReplicationCompleteEType \<noteq> SnapshotReplicationCompleteEType"
  "SnapshotReplicationEType \<noteq> LiveMutationReplicationEType"
  "SnapshotReplicationEType \<noteq> LiveMutationReplicationCompleteEType"
  "SnapshotReplicationEType \<noteq> SnapshotReplicationCompleteEType"
  "SnapshotReplicationCompleteEType \<noteq> LiveMutationReplicationEType"
  "SnapshotReplicationCompleteEType \<noteq> LiveMutationReplicationCompleteEType"
  "SnapshotReplicationCompleteEType \<noteq> SnapshotReplicationEType"
  by (simp_all add: etype_defs)

record LiveMutationReplicationEvent =
  lmEtype :: ReplicationEventType
  lmKey :: string
  lmValue :: any
  lmVersion :: u64

record SnapshotReplicationEvent =
  srEtype :: ReplicationEventType
  srKey :: string
  srValues :: "StoreEntry list"

text \<open>The zero values of the fields the source leaves out.\<close>

definition SnapshotReplicationCompleteEvent :: SnapshotReplicationEvent where
  "SnapshotReplicationCompleteEvent =
     \<lparr>srEtype = SnapshotReplicationCompleteEType, srKey = [], srValues = []\<rparr>"

definition LiveMutationReplicationCompleteEvent :: LiveMutationReplicationEvent where
  "LiveMutationReplicationCompleteEvent =
     \<lparr>lmEtype = LiveMutationReplicationCompleteEType, lmKey = [], lmValue = JNull, lmVersion = 0\<rparr>"

record ReplicationStream =
  rsEType :: ReplicationEventType
  rsSnapshot :: SnapshotReplicationEvent
  rsLive :: LiveMutationReplicationEvent

record HandlePostRawReq =
  rqKey :: string
  rqValue :: any
  rqVersion :: u64

subsection \<open>Responses\<close>

text \<open>
  The debugging map \<open>Mislaneous\<close> is represented by the names of its fields: a trace id and the raw
  results of a fan-out, whose values are the tracing library's and the answers themselves.
\<close>

record MetaData =
  mdRedirected :: bool
  mdServicedBy :: string
  mdOwnedBy :: string
  mdReplicaCount :: int
  mdMislaneous :: "string list"

record PostDataResponse =
  pdIsSuccess :: bool
  pdMessage :: string
  pdMetadata :: "MetaData option"
  pdErr :: "error option"

record GetDataResponse =
  gdIsSuccess :: bool
  gdValue :: any
  gdVersion :: u64
  gdMessage :: string
  gdMetadata :: "MetaData option"
  gdErr :: "error option"

text \<open>The metadata of an error response: every field but the debugging one has its zero value.\<close>

definition errorMetaData :: "string list \<Rightarrow> MetaData" where
  "errorMetaData mislaneous =
     \<lparr>mdRedirected = False, mdServicedBy = [], mdOwnedBy = [], mdReplicaCount = 0,
      mdMislaneous = mislaneous\<rparr>"

end
