(* ===== verification/Data_Store.thy ===== *)
theory Data_Store
  imports DSN_Types
begin

section \<open>The versioned store\<close>

text \<open>
  \<open>store/data_store.go\<close> and the interface of \<open>store/store.go\<close>. A \<open>DataStore\<close> keeps, for each key,
  the slice of all its versions in increasing order, and one post-write hook. The type variable
  of \<open>DataStore\<close> stands for the closures that are installed as hooks; calling a hook is recorded
  as a value (the hook and its arguments) that the caller interprets.

  The two critical sections of the source are two definitions each, so that other steps can
  happen between them: \<open>PutRaw_locked\<close> and \<open>PutRaw_hook\<close>, \<open>Snapshot_opts\<close> and \<open>Snapshot_copy\<close>;
  \<open>PutRaw\<close> and \<open>Snapshot\<close> run them one after the other.

  \<open>store_wf\<close> is the invariant, \<open>latest\<close> the abstract view (the value and version a read returns),
  \<open>history\<close> the list of all versions of a key. The locale \<open>versioned_register\<close> is the contract of
  the interface that the node's handlers rely on; it is interpreted on \<open>Put\<close> and
  \<open>GetValAndVersion\<close> at the end.
\<close>

subsection \<open>State and operations\<close>

record 'h DataStore =
  dsStore :: "(string \<times> StoreEntry list) list"
  dsHook :: "'h option"

type_synonym 'h hook_call = "'h \<times> string \<times> any \<times> u64"

definition NewDataStore :: "'h DataStore" where
  "NewDataStore = \<lparr>dsStore = [], dsHook = None\<rparr>"

definition AllKeys :: "string \<Rightarrow> bool" where
  "AllKeys key = True"

text \<open>\<open>val[len(val)-1]\<close>\<close>

definition last_entry :: "StoreEntry list \<Rightarrow> StoreEntry outcome" where
  "last_entry es = (if es = [] then Panic IndexOutOfRange else Ret (last es))"

definition Get :: "'h DataStore \<Rightarrow> string \<Rightarrow> (any \<times> error option) outcome" where
  "Get d key =
     (case map_of (dsStore d) key of
        Some val \<Rightarrow> bind_outcome (last_entry val) (\<lambda>latestVersion. Ret (eValue latestVersion, None))
      | None \<Rightarrow> Ret (JNull, None))"

definition GetValAndVersion ::
    "'h DataStore \<Rightarrow> string \<Rightarrow> (any \<times> u64 \<times> error option) outcome" where
  "GetValAndVersion d key =
     (case map_of (dsStore d) key of
        Some val \<Rightarrow>
          bind_outcome (last_entry val)
            (\<lambda>latestVersion. Ret (eValue latestVersion, eVersion latestVersion, None))
      | None \<Rightarrow> Ret (JNull, 0, None))"

text \<open>The part of \<open>PutRaw\<close> under the lock: the new store, the new version, the hook it read.\<close>

definition PutRaw_locked ::
    "choice \<Rightarrow> 'h DataStore \<Rightarrow> string \<Rightarrow> any \<Rightarrow> u64 option \<Rightarrow> bool
      \<Rightarrow> ('h DataStore \<times> u64 \<times> 'h option) outcome" where
  "PutRaw_locked c d key val version isReplica =
     bind_outcome
       (case map_of (dsStore d) key of
          None \<Rightarrow> Ret ([\<lparr>eValue = val, eVersion = 1, eIsReplica = isReplica\<rparr>], 1)
        | Some entries \<Rightarrow>
            bind_outcome (last_entry entries)
              (\<lambda>mostRecentEntry.
                 let newVersion = (case version of
                                     None \<Rightarrow> eVersion mostRecentEntry + 1
                                   | Some v \<Rightarrow> v)
                 in Ret (entries @ [\<lparr>eValue = val, eVersion = newVersion,
                                     eIsReplica = isReplica\<rparr>], newVersion)))
       (\<lambda>(entries, newVersion).
          Ret (d\<lparr>dsStore := AList.update key (sort_slice c eVersion entries) (dsStore d)\<rparr>,
               newVersion, dsHook d))"

text \<open>
  The part after the unlock, in the state of that moment: the local \<open>hook\<close> is tested, the field
  \<open>d.postWriteHook\<close> is called.
\<close>

definition PutRaw_hook ::
    "'h DataStore \<Rightarrow> 'h option \<Rightarrow> string \<Rightarrow> any \<Rightarrow> u64 \<Rightarrow> 'h hook_call list outcome" where
  "PutRaw_hook d hook key val newVersion =
     (if hook = None then Ret []
      else (case dsHook d of
              None \<Rightarrow> Panic NilFunctionCall
            | Some h \<Rightarrow> Ret [(h, key, val, newVersion)]))"

definition PutRaw ::
    "choice \<Rightarrow> 'h DataStore \<Rightarrow> string \<Rightarrow> any \<Rightarrow> u64 option \<Rightarrow> bool
      \<Rightarrow> ('h DataStore \<times> u64 \<times> error option \<times> 'h hook_call list) outcome" where
  "PutRaw c d key val version isReplica =
     bind_outcome (PutRaw_locked c d key val version isReplica)
       (\<lambda>(d', newVersion, hook).
          bind_outcome (PutRaw_hook d' hook key val newVersion)
            (\<lambda>calls. Ret (d', newVersion, None, calls)))"

definition Put ::
    "choice \<Rightarrow> 'h DataStore \<Rightarrow> string \<Rightarrow> any
      \<Rightarrow> ('h DataStore \<times> u64 \<times> error option \<times> 'h hook_call list) outcome" where
  "Put c d key val = PutRaw c d key val None False"

definition WithPostWriteHook :: "'h \<Rightarrow> 'h DataStore \<Rightarrow> 'h DataStore" where
  "WithPostWriteHook hook d = d\<lparr>dsHook := Some hook\<rparr>"

definition resetPostWriteHook :: "'h DataStore \<Rightarrow> 'h DataStore" where
  "resetPostWriteHook d = d\<lparr>dsHook := None\<rparr>"

definition Snapshot_opts :: "('h DataStore \<Rightarrow> 'h DataStore) list \<Rightarrow> 'h DataStore \<Rightarrow> 'h DataStore" where
  "Snapshot_opts opts d = fold (\<lambda>opt d. opt d) opts d"

definition Snapshot_copy ::
    "choice \<Rightarrow> (string \<Rightarrow> bool) \<Rightarrow> 'h DataStore \<Rightarrow> (string \<times> StoreEntry list) list" where
  "Snapshot_copy c filt d =
     fold (\<lambda>(k, v) deepCopy.
             if \<not> filt k then deepCopy
             else AList.update k (map StoreEntry_Clone v) deepCopy)
          (permute c (dsStore d)) []"

definition Snapshot ::
    "choice \<Rightarrow> (string \<Rightarrow> bool) \<Rightarrow> ('h DataStore \<Rightarrow> 'h DataStore) list \<Rightarrow> 'h DataStore
      \<Rightarrow> 'h DataStore \<times> (string \<times> StoreEntry list) list" where
  "Snapshot c filt opts d =
     (let d' = Snapshot_opts opts d in (d', Snapshot_copy c filt d'))"

definition Size :: "'h DataStore \<Rightarrow> int" where
  "Size d = int (length (dsStore d))"

subsection \<open>Invariant and abstract view\<close>

definition entries_wf :: "StoreEntry list \<Rightarrow> bool" where
  "entries_wf es \<longleftrightarrow> es \<noteq> [] \<and> sorted (map eVersion es)"

definition store_wf :: "'h DataStore \<Rightarrow> bool" where
  "store_wf d \<longleftrightarrow>
     distinct (map fst (dsStore d)) \<and> list_all (\<lambda>(k, es). entries_wf es) (dsStore d)"

definition history :: "'h DataStore \<Rightarrow> string \<Rightarrow> StoreEntry list" where
  "history d key = (case map_of (dsStore d) key of None \<Rightarrow> [] | Some es \<Rightarrow> es)"

definition latest :: "'h DataStore \<Rightarrow> string \<Rightarrow> (any \<times> u64) option" where
  "latest d key =
     (case history d key of [] \<Rightarrow> None | es \<Rightarrow> Some (eValue (last es), eVersion (last es)))"

lemma latest_simps:
  "history d key = [] \<Longrightarrow> latest d key = None"
  "history d key \<noteq> [] \<Longrightarrow>
     latest d key = Some (eValue (last (history d key)), eVersion (last (history d key)))"
  by (auto simp: latest_def split: list.splits)

lemma store_wf_entries:
  "store_wf d \<Longrightarrow> map_of (dsStore d) key = Some es \<Longrightarrow> entries_wf es"
  by (auto simp: store_wf_def list_all_iff dest: map_of_SomeD)

lemma store_wf_lookup:
  "store_wf d \<Longrightarrow> map_of (dsStore d) key = (if history d key = [] then None else Some (history d key))"
  by (auto simp: history_def entries_wf_def split: option.splits dest: store_wf_entries)

lemma history_sorted: "store_wf d \<Longrightarrow> sorted (map eVersion (history d key))"
  by (auto simp: history_def entries_wf_def split: option.splits dest: store_wf_entries)

lemma entries_wf_sort_slice [intro]: "es \<noteq> [] \<Longrightarrow> entries_wf (sort_slice c eVersion es)"
  by (simp add: entries_wf_def)

lemma store_wf_update [inv_intros]:
  assumes "store_wf d" and "entries_wf es"
  shows "store_wf (d\<lparr>dsStore := AList.update key es (dsStore d)\<rparr>)"
  using assms set_alist_update [of key es "dsStore d"]
  by (auto simp: store_wf_def distinct_update list_all_iff)

lemma history_update [simp]:
  "history (d\<lparr>dsStore := AList.update key es (dsStore d)\<rparr>) k = (if k = key then es else history d k)"
  by (simp add: history_def update_conv')

lemma history_hook [simp]: "history (d\<lparr>dsHook := h\<rparr>) = history d"
  by (simp add: history_def fun_eq_iff)

lemma store_wf_hook [simp]: "store_wf (d\<lparr>dsHook := h\<rparr>) = store_wf d"
  by (simp add: store_wf_def)

lemma history_New [simp]: "history NewDataStore k = []"
  by (simp add: history_def NewDataStore_def)

lemma store_wf_New [simp]: "store_wf NewDataStore"
  by (simp add: store_wf_def NewDataStore_def)

subsection \<open>What a write does\<close>

text \<open>The version a write gets: 1 for a new key, whatever version was passed.\<close>

definition next_version :: "'h DataStore \<Rightarrow> string \<Rightarrow> u64 option \<Rightarrow> u64" where
  "next_version d key version =
     (case latest d key of
        None \<Rightarrow> 1
      | Some (v, n) \<Rightarrow> (case version of None \<Rightarrow> n + 1 | Some w \<Rightarrow> w))"

definition new_entry :: "'h DataStore \<Rightarrow> string \<Rightarrow> any \<Rightarrow> u64 option \<Rightarrow> bool \<Rightarrow> StoreEntry" where
  "new_entry d key val version isReplica =
     \<lparr>eValue = val, eVersion = next_version d key version, eIsReplica = isReplica\<rparr>"

definition written ::
    "choice \<Rightarrow> 'h DataStore \<Rightarrow> string \<Rightarrow> any \<Rightarrow> u64 option \<Rightarrow> bool \<Rightarrow> 'h DataStore" where
  "written c d key val version isReplica =
     d\<lparr>dsStore := AList.update key
         (sort_slice c eVersion (history d key @ [new_entry d key val version isReplica]))
         (dsStore d)\<rparr>"

lemma PutRaw_locked_eq:
  assumes "store_wf d"
  shows "PutRaw_locked c d key val version isReplica =
    Ret (written c d key val version isReplica, next_version d key version, dsHook d)"
  using store_wf_lookup [OF assms, of key]
  by (cases "history d key = []")
    (auto simp: PutRaw_locked_def written_def new_entry_def next_version_def latest_simps
      last_entry_def Let_def sort_slice_single split: list.splits)

lemma PutRaw_hook_same: "dsHook d = hook \<Longrightarrow>
  PutRaw_hook d hook key val n = Ret (case hook of None \<Rightarrow> [] | Some h \<Rightarrow> [(h, key, val, n)])"
  by (auto simp: PutRaw_hook_def split: option.splits)

lemma dsHook_written [simp]: "dsHook (written c d key val version r) = dsHook d"
  by (simp add: written_def)

lemma PutRaw_eq:
  assumes "store_wf d"
  shows "PutRaw c d key val version isReplica =
    Ret (written c d key val version isReplica, next_version d key version, None,
         case dsHook d of None \<Rightarrow> [] | Some h \<Rightarrow> [(h, key, val, next_version d key version)])"
  by (simp add: PutRaw_def PutRaw_locked_eq [OF assms] PutRaw_hook_same)

lemma Put_eq:
  assumes "store_wf d"
  shows "Put c d key val =
    Ret (written c d key val None False, next_version d key None, None,
         case dsHook d of None \<Rightarrow> [] | Some h \<Rightarrow> [(h, key, val, next_version d key None)])"
  unfolding Put_def by (rule PutRaw_eq [OF assms])

lemma store_wf_written [inv_intros]:
  "store_wf d \<Longrightarrow> store_wf (written c d key val version isReplica)"
  unfolding written_def by (intro store_wf_update entries_wf_sort_slice) simp_all

lemma history_written:
  "history (written c d key val version isReplica) k =
     (if k = key then sort_slice c eVersion (history d key @ [new_entry d key val version isReplica])
      else history d k)"
  by (simp add: written_def)

lemma latest_written_other:
  "k \<noteq> key \<Longrightarrow> latest (written c d key val version isReplica) k = latest d k"
  by (simp add: latest_def history_written)

text \<open>The greatest version of a sorted slice is that of its last element.\<close>

lemma last_sorted_max:
  "sorted (map key xs) \<Longrightarrow> x \<in> set xs \<Longrightarrow> key x \<le> key (last xs)"
  by (induction xs rule: rev_induct) (auto simp: sorted_append)

lemma last_sort_slice_max:
  assumes "xs \<noteq> []"
  shows "last (sort_slice c key xs) \<in> set xs
    \<and> (\<forall>x \<in> set xs. key x \<le> key (last (sort_slice c key xs)))"
  using last_in_set [of "sort_slice c key xs"] last_sorted_max [OF sorted_sort_slice, of _ c key xs]
    assms by simp

text \<open>Appending an element whose key is above all others leaves the slice as it is.\<close>

lemma last_sort_slice_snoc:
  assumes "sorted (map key xs)" and "xs \<noteq> [] \<Longrightarrow> key (last xs) < key x"
  shows "last (sort_slice c key (xs @ [x])) = x"
proof -
  have "\<forall>y \<in> set xs. key y < key x"
    using assms last_sorted_max [OF assms(1)] by (metis empty_iff list.set(1) order_le_less_trans)
  then show ?thesis using last_sort_slice_max [of "xs @ [x]" c key] by force
qed

lemma last_sort_slice_below:
  assumes "sorted (map key xs)" and "xs \<noteq> []" and "key x < key (last xs)"
  shows "last (sort_slice c key (xs @ [x])) \<in> {y \<in> set xs. key y = key (last xs)}"
proof -
  let ?l = "last (sort_slice c key (xs @ [x]))"
  have "?l \<in> set (xs @ [x])" and "key (last xs) \<le> key ?l"
    using last_sort_slice_max [of "xs @ [x]" c key] assms(2) by auto
  moreover from this assms(3) have "?l \<noteq> x" by auto
  ultimately show ?thesis using last_sorted_max [OF assms(1), of ?l] by auto
qed

lemma latest_eq_None: "latest d key = None \<longleftrightarrow> history d key = []"
  by (auto simp: latest_def split: list.splits)

lemma latest_eq_Some:
  "latest d key = Some (v, n) \<longleftrightarrow>
     history d key \<noteq> [] \<and> v = eValue (last (history d key)) \<and> n = eVersion (last (history d key))"
  by (auto simp: latest_def split: list.splits)

lemma latest_written_above:
  assumes "store_wf d" and "case latest d key of None \<Rightarrow> True | Some (v, n) \<Rightarrow> n < next_version d key version"
  shows "latest (written c d key val version isReplica) key = Some (val, next_version d key version)"
proof -
  let ?e = "new_entry d key val version isReplica"
  have "history d key \<noteq> [] \<Longrightarrow> eVersion (last (history d key)) < eVersion ?e"
    using assms(2) by (auto simp: new_entry_def latest_def split: list.splits)
  then have "last (sort_slice c eVersion (history d key @ [?e])) = ?e"
    by (rule last_sort_slice_snoc [OF history_sorted [OF assms(1)]])
  then show ?thesis by (simp add: latest_eq_Some history_written new_entry_def)
qed

subsection \<open>Reads\<close>

lemma GetValAndVersion_eq:
  assumes "store_wf d"
  shows "GetValAndVersion d key =
    Ret (case latest d key of None \<Rightarrow> (JNull, 0, None) | Some (v, n) \<Rightarrow> (v, n, None))"
  using store_wf_lookup [OF assms, of key]
  by (auto simp: GetValAndVersion_def latest_def last_entry_def split: option.splits list.splits)

lemma Get_eq:
  assumes "store_wf d"
  shows "Get d key = Ret (case latest d key of None \<Rightarrow> (JNull, None) | Some (v, n) \<Rightarrow> (v, None))"
  using store_wf_lookup [OF assms, of key]
  by (auto simp: Get_def latest_def last_entry_def split: option.splits list.splits)

subsection \<open>Snapshots\<close>

lemma map_of_Snapshot_copy:
  assumes "store_wf d"
  shows "map_of (Snapshot_copy c filt d) key = (if filt key then map_of (dsStore d) key else None)"
proof -
  have "distinct (map fst (dsStore d))" using assms by (simp add: store_wf_def)
  then show ?thesis
    by (simp add: Snapshot_copy_def map_of_fold_update map_of_permute StoreEntry_Clone_id [abs_def]
        split: option.splits)
qed

lemma distinct_Snapshot_copy: "distinct (map fst (Snapshot_copy c filt d))"
  unfolding Snapshot_copy_def by (rule distinct_fold_update) simp

lemma set_Snapshot_copy:
  assumes "store_wf d"
  shows "(key, es) \<in> set (Snapshot_copy c filt d) \<longleftrightarrow> filt key \<and> es \<noteq> [] \<and> history d key = es"
proof -
  have "(key, es) \<in> set (Snapshot_copy c filt d) \<longleftrightarrow> map_of (Snapshot_copy c filt d) key = Some es"
    by (simp add: map_of_eq_Some_iff [OF distinct_Snapshot_copy])
  then show ?thesis
    using store_wf_lookup [OF assms, of key] by (auto simp: map_of_Snapshot_copy [OF assms])
qed

lemma Snapshot_opts_hook [simp]: "Snapshot_opts [WithPostWriteHook h] d = d\<lparr>dsHook := Some h\<rparr>"
  by (simp add: Snapshot_opts_def WithPostWriteHook_def)

lemma Snapshot_opts_Nil [simp]: "Snapshot_opts [] d = d"
  by (simp add: Snapshot_opts_def)

subsection \<open>The contract of the store and its clients\<close>

type_synonym client_write = "choice \<times> string \<times> any"

fun run_writes ::
    "(choice \<Rightarrow> 's \<Rightarrow> string \<Rightarrow> any \<Rightarrow> ('s \<times> 'r) outcome) \<Rightarrow> 's \<Rightarrow> client_write list \<Rightarrow> 's outcome" where
  "run_writes put s [] = Ret s"
| "run_writes put s ((c, k, v) # ws) =
     bind_outcome (put c s k v) (\<lambda>(s', r). run_writes put s' ws)"

definition writes_to :: "string \<Rightarrow> client_write list \<Rightarrow> any list" where
  "writes_to k ws = map (snd \<circ> snd) (filter (\<lambda>(c, k', v). k' = k) ws)"

lemma writes_to_simps [simp]:
  "writes_to k [] = []"
  "writes_to k ((c, k', v) # ws) = (if k' = k then v # writes_to k ws else writes_to k ws)"
  "writes_to k (ws @ us) = writes_to k ws @ writes_to k us"
  by (simp_all add: writes_to_def)

lemma length_writes_to: "length (writes_to k ws) \<le> length ws"
  by (simp add: writes_to_def)

lemma run_writes_append:
  "run_writes put s (ws @ us) = bind_outcome (run_writes put s ws) (\<lambda>s'. run_writes put s' us)"
proof (induction ws arbitrary: s)
  case (Cons w ws)
  obtain c k v where "w = (c, k, v)" by (cases w)
  then show ?case by (cases "put c s k v") (auto simp: Cons.IH)
qed simp

lemma of_nat_less_Suc_u64: "Suc n < 2 ^ 64 \<Longrightarrow> (of_nat n :: u64) < of_nat n + 1"
  using unat_of_nat_u64 [of n] unat_of_nat_u64 [of "Suc n"]
  by (simp add: word_less_nat_alt add.commute)

locale versioned_register =
  fixes wf :: "'s \<Rightarrow> bool"
    and put :: "choice \<Rightarrow> 's \<Rightarrow> string \<Rightarrow> any \<Rightarrow> ('s \<times> u64 \<times> error option \<times> 'c) outcome"
    and getv :: "'s \<Rightarrow> string \<Rightarrow> (any \<times> u64 \<times> error option) outcome"
    and latest :: "'s \<Rightarrow> string \<Rightarrow> (any \<times> u64) option"
  assumes getv: "wf s \<Longrightarrow>
      getv s k = Ret (case latest s k of None \<Rightarrow> (JNull, 0, None) | Some (v, n) \<Rightarrow> (v, n, None))"
    and put: "wf s \<Longrightarrow> \<exists>s' cs. put c s k v =
      Ret (s', case latest s k of None \<Rightarrow> 1 | Some (w, n) \<Rightarrow> n + 1, None, cs)"
    and put_wf: "wf s \<Longrightarrow> put c s k v = Ret (s', r) \<Longrightarrow> wf s'"
    and put_same: "wf s \<Longrightarrow> put c s k v = Ret (s', n, rest) \<Longrightarrow>
      (\<And>w m. latest s k = Some (w, m) \<Longrightarrow> m < m + 1) \<Longrightarrow> latest s' k = Some (v, n)"
    and put_other: "wf s \<Longrightarrow> put c s k v = Ret (s', r) \<Longrightarrow> k' \<noteq> k \<Longrightarrow> latest s' k' = latest s k'"
begin

text \<open>A run of writes never panics, and what it leaves is the last write and the count of writes.\<close>

lemma run_writes_latest:
  assumes "wf s" and "\<And>k. latest s k = None" and "length ws < 2 ^ 64 - 1"
  shows "\<exists>s'. run_writes put s ws = Ret s' \<and> wf s' \<and>
    (\<forall>k. latest s' k = (if writes_to k ws = [] then None
                       else Some (last (writes_to k ws), of_nat (length (writes_to k ws)))))"
  using assms(3)
proof (induction ws rule: rev_induct)
  case Nil
  show ?case using assms(1,2) by simp
next
  case (snoc w ws)
  obtain c k v where w: "w = (c, k, v)" by (cases w)
  from snoc obtain s1 where s1: "run_writes put s ws = Ret s1" "wf s1"
    and l: "\<And>k. latest s1 k = (if writes_to k ws = [] then None
              else Some (last (writes_to k ws), of_nat (length (writes_to k ws))))"
    by auto
  have small: "Suc (length (writes_to k ws)) < 2 ^ 64"
    using length_writes_to [of k ws] snoc.prems by simp
  obtain s2 n cs where s2: "put c s1 k v = Ret (s2, n, None, cs)"
    and n: "n = (case latest s1 k of None \<Rightarrow> 1 | Some (w, n) \<Rightarrow> n + 1)"
    using put [OF s1(2), of c k v] by blast
  have "latest s2 k = Some (v, n)"
    by (rule put_same [OF s1(2) s2])
      (auto simp: l of_nat_less_Suc_u64 [OF small] split: if_splits)
  moreover have "n = of_nat (length (writes_to k (ws @ [w])))"
    by (simp add: n l w add.commute)
  moreover have "latest s2 k' = latest s1 k'" if "k' \<noteq> k" for k'
    by (rule put_other [OF s1(2) s2 that])
  ultimately show ?case
    using s1 s2 put_wf [OF s1(2) s2] by (auto simp: run_writes_append w l)
qed

lemma put_then_get:
  assumes "wf s" and "put c s k v = Ret (s', n, r)"
    and "\<And>w m. latest s k = Some (w, m) \<Longrightarrow> m < m + 1"
  shows "getv s' k = Ret (v, n, None)"
  using getv [OF put_wf [OF assms(1,2)], of k] put_same [OF assms] by simp

end

lemma less_plus_one_u64: "n \<noteq> - 1 \<Longrightarrow> (n :: u64) < n + 1"
  using inc_less_eq_triv_imp [of n] by (auto simp: not_le [symmetric])

interpretation reg: versioned_register store_wf Put GetValAndVersion latest
proof (unfold_locales, goal_cases)
  case (1 s k)
  then show ?case by (rule GetValAndVersion_eq)
next
  case (2 s c k v)
  then show ?case by (auto simp: Put_eq next_version_def split: option.splits)
next
  case (3 s c k v s' r)
  then show ?case by (auto simp: Put_eq intro: store_wf_written)
next
  case (4 s c k v s' n r)
  then have "s' = written c s k v None False" and "n = next_version s k None"
    by (auto simp: Put_eq)
  moreover have "latest (written c s k v None False) k = Some (v, next_version s k None)"
    using 4(1,3) by (intro latest_written_above) (auto simp: next_version_def split: option.splits)
  ultimately show ?case by simp
next
  case (5 s c k v s' r k')
  then show ?case by (auto simp: Put_eq latest_written_other)
qed

subsection \<open>The history an owner builds\<close>

definition owner_history :: "any list \<Rightarrow> StoreEntry list" where
  "owner_history vs =
     map (\<lambda>(n, v). \<lparr>eValue = v, eVersion = of_nat (Suc n), eIsReplica = False\<rparr>) (enumerate 0 vs)"

lemma owner_history_Nil [simp]: "owner_history [] = []"
  by (simp add: owner_history_def)

lemma owner_history_snoc [simp]:
  "owner_history (vs @ [v]) = owner_history vs
     @ [\<lparr>eValue = v, eVersion = of_nat (Suc (length vs)), eIsReplica = False\<rparr>]"
  by (simp add: owner_history_def enumerate_append_eq)

lemma length_owner_history [simp]: "length (owner_history vs) = length vs"
  by (simp add: owner_history_def)

lemma owner_history_eq_Nil [simp]: "owner_history vs = [] \<longleftrightarrow> vs = []"
  by (metis length_0_conv length_owner_history)

lemma versions_owner_history: "map eVersion (owner_history vs) = map (\<lambda>n. of_nat (Suc n)) [0..<length vs]"
  by (induction vs rule: rev_induct) simp_all

lemma last_version_owner_history:
  "vs \<noteq> [] \<Longrightarrow> eVersion (last (owner_history vs)) = of_nat (length vs)"
  by (cases vs rule: rev_cases) simp_all

lemma of_nat_inj_u64: "a < 2 ^ 64 \<Longrightarrow> b < 2 ^ 64 \<Longrightarrow> (of_nat a :: u64) = of_nat b \<longleftrightarrow> a = b"
  by (metis unat_of_nat_u64)

lemma of_nat_le_u64: "a < 2 ^ 64 \<Longrightarrow> b < 2 ^ 64 \<Longrightarrow> (of_nat a :: u64) \<le> of_nat b \<longleftrightarrow> a \<le> b"
  by (metis unat_of_nat_u64 word_le_nat_alt)

lemma owner_history_strict:
  assumes "length vs < 2 ^ 64"
  shows "sorted (map eVersion (owner_history vs)) \<and> distinct (map eVersion (owner_history vs))"
proof -
  have "inj_on (\<lambda>n. of_nat (Suc n) :: u64) {0..<length vs}"
    by (rule inj_onI) (use assms in \<open>auto simp: of_nat_inj_u64 simp del: of_nat_Suc\<close>)
  moreover have "sorted_wrt (\<lambda>x y. (of_nat (Suc x) :: u64) \<le> of_nat (Suc y)) [0..<length vs]"
    by (rule sorted_wrt_mono_rel [of _ "(<)"])
      (use assms in \<open>auto simp: of_nat_le_u64 simp del: of_nat_Suc\<close>)
  ultimately show ?thesis
    unfolding versions_owner_history by (simp add: distinct_map sorted_map del: of_nat_Suc)
qed

lemma owner_history_sort [simp]:
  assumes "length vs < 2 ^ 64"
  shows "sort_slice c eVersion (owner_history vs) = owner_history vs"
  using owner_history_strict [OF assms] by (intro sort_slice_unique) simp_all

lemma run_Puts_history:
  assumes "length ws < 2 ^ 64"
  shows "\<exists>d. run_writes Put (NewDataStore :: 'h DataStore) ws = Ret d \<and> store_wf d \<and> dsHook d = None
    \<and> (\<forall>k. history d k = owner_history (writes_to k ws))"
  using assms
proof (induction ws rule: rev_induct)
  case Nil
  show ?case by (simp add: NewDataStore_def [symmetric]) (simp add: NewDataStore_def)
next
  case (snoc w ws)
  obtain c k v where w: "w = (c, k, v)" by (cases w)
  from snoc obtain d where d: "run_writes Put NewDataStore ws = Ret d" "store_wf d"
      "dsHook (d :: 'h DataStore) = None"
    and h: "\<And>k. history d k = owner_history (writes_to k ws)" by auto
  have "length (writes_to k ws @ [v]) < 2 ^ 64"
    using length_writes_to [of k ws] snoc.prems by simp
  note sort = owner_history_sort [OF this, of c]
  have "next_version d k None = of_nat (Suc (length (writes_to k ws)))"
    by (cases "writes_to k ws = []")
      (simp_all add: next_version_def latest_simps h last_version_owner_history add.commute)
  then have "new_entry d k v None False
      = \<lparr>eValue = v, eVersion = of_nat (Suc (length (writes_to k ws))), eIsReplica = False\<rparr>"
    by (simp add: new_entry_def)
  with sort have "history (written c d k v None False) k = owner_history (writes_to k ws @ [v])"
    by (simp add: history_written h)
  with d h show ?case
    by (auto simp: run_writes_append w Put_eq history_written store_wf_written)
qed

end
