(* ===== verification/Store_Props.thy ===== *)
theory Store_Props
  imports Data_Store
begin

section \<open>Properties of the versioned store\<close>

text \<open>
  What \<open>store/data_store.go\<close> promises, over the definitions of \<open>Data_Store\<close>: the effect of every
  write, the register a client sees, the history an owner builds, the behaviour of replicated
  writes (with explicit versions), wrap-around of versions, and snapshots.
\<close>

lemma append_mset_sorted:
  "mset (sort_slice c eVersion (es @ [e])) = add_mset e (mset es)"
  by simp

text \<open>
  C14. \<open>PutRaw\<close> on a well-formed store always returns, without an error: it keeps the invariant
  (every key has a non-empty slice of versions in increasing order), adds exactly one entry to the
  history of the key, leaves every other key and the hook alone, and calls the hook once with the
  new version if one is installed.
\<close>

theorem PutRaw_functional:
  assumes "store_wf d"
  shows "\<exists>d' n calls. PutRaw c d key val version isReplica = Ret (d', n, None, calls)
    \<and> store_wf d'
    \<and> mset (history d' key)
        = add_mset \<lparr>eValue = val, eVersion = n, eIsReplica = isReplica\<rparr> (mset (history d key))
    \<and> (\<forall>k. k \<noteq> key \<longrightarrow> history d' k = history d k)
    \<and> dsHook d' = dsHook d
    \<and> calls = (case dsHook d of None \<Rightarrow> [] | Some h \<Rightarrow> [(h, key, val, n)])"
  by (simp add: PutRaw_eq [OF assms] store_wf_written assms history_written append_mset_sorted
      new_entry_def)

lemma PutRaw_functional_witness:
  "\<exists>d' n calls. PutRaw [0] (NewDataStore :: nat DataStore) ''k'' (JStr ''v'') None False
      = Ret (d', n, None, calls)
    \<and> store_wf d'
    \<and> mset (history d' ''k'')
        = add_mset \<lparr>eValue = JStr ''v'', eVersion = n, eIsReplica = False\<rparr>
            (mset (history (NewDataStore :: nat DataStore) ''k''))
    \<and> (\<forall>k. k \<noteq> ''k'' \<longrightarrow> history d' k = history (NewDataStore :: nat DataStore) k)
    \<and> dsHook d' = dsHook (NewDataStore :: nat DataStore)
    \<and> calls = (case dsHook (NewDataStore :: nat DataStore) of
                  None \<Rightarrow> [] | Some h \<Rightarrow> [(h, ''k'', JStr ''v'', n)])"
  by (rule PutRaw_functional) simp

text \<open>
  C13. The register seen by clients: after any sequence of client writes to a new store (fewer than
  2^64 - 1), whatever order the sorts leave ties in, no write has panicked and a read of a key
  returns the last value written to it, with the number of writes to it as the version, or
  \<open>nil\<close> and 0 when it was never written.
\<close>

theorem register_after_writes:
  assumes "length ws < 2 ^ 64 - 1"
  shows "\<exists>d. run_writes Put (NewDataStore :: 'h DataStore) ws = Ret d
    \<and> (\<forall>k. GetValAndVersion d k =
        Ret (if writes_to k ws = [] then (JNull, 0, None)
             else (last (writes_to k ws), of_nat (length (writes_to k ws)), None)))"
proof -
  have "latest (NewDataStore :: 'h DataStore) k = None" for k
    by (simp add: latest_eq_None)
  from reg.run_writes_latest [OF store_wf_New this assms] obtain d :: "'h DataStore" where
      d: "run_writes Put NewDataStore ws = Ret d" "store_wf d"
    and l: "\<And>k. latest d k = (if writes_to k ws = [] then None
              else Some (last (writes_to k ws), of_nat (length (writes_to k ws))))"
    by blast
  then show ?thesis by (simp add: GetValAndVersion_eq)
qed

lemma register_after_writes_witness:
  "\<exists>d. run_writes Put (NewDataStore :: nat DataStore)
        [([], ''a'', JBool True), ([1], ''b'', JNull), ([3, 1], ''a'', JStr ''x'')] = Ret d
    \<and> GetValAndVersion d ''a'' = Ret (JStr ''x'', 2, None)"
proof -
  let ?ws = "[([], ''a'', JBool True), ([1], ''b'', JNull), ([3, 1], ''a'', JStr ''x'')] :: client_write list"
  have "length ?ws < 2 ^ 64 - 1" by simp
  from register_after_writes [OF this, where ?'h = nat] obtain d where
      d: "run_writes Put (NewDataStore :: nat DataStore) ?ws = Ret d"
    and g: "\<forall>k. GetValAndVersion d k =
        Ret (if writes_to k ?ws = [] then (JNull, 0, None)
             else (last (writes_to k ?ws), of_nat (length (writes_to k ?ws)), None))"
    by blast
  from g have "GetValAndVersion d ''a'' = Ret (JStr ''x'', 2, None)" by simp
  with d show ?thesis by blast
qed

text \<open>
  The history of an owner: after client writes, the versions kept for a key are exactly
  1, 2, ..., n in order, each with the value of the write that created it; nothing is lost and
  nothing is reordered, whatever the unstable sort does.
\<close>

theorem owner_history_after_writes:
  assumes "length ws < 2 ^ 64"
  shows "\<exists>d. run_writes Put (NewDataStore :: 'h DataStore) ws = Ret d
    \<and> (\<forall>k. history d k = owner_history (writes_to k ws))"
  using run_Puts_history [OF assms] by blast

lemma owner_history_after_writes_witness:
  "\<exists>d. run_writes Put (NewDataStore :: nat DataStore) [([1], ''a'', JNull), ([1], ''a'', JBool True)]
        = Ret d
    \<and> history d ''a'' = [\<lparr>eValue = JNull, eVersion = 1, eIsReplica = False\<rparr>,
                        \<lparr>eValue = JBool True, eVersion = 2, eIsReplica = False\<rparr>]"
proof -
  let ?ws = "[([1], ''a'', JNull), ([1], ''a'', JBool True)] :: client_write list"
  have "length ?ws < 2 ^ 64" by simp
  from owner_history_after_writes [OF this, where ?'h = nat] obtain d where
      d: "run_writes Put (NewDataStore :: nat DataStore) ?ws = Ret d"
    and h: "\<forall>k. history d k = owner_history (writes_to k ?ws)" by blast
  from h have "history d ''a'' = owner_history (writes_to ''a'' ?ws)" by blast
  then have "history d ''a'' = [\<lparr>eValue = JNull, eVersion = 1, eIsReplica = False\<rparr>,
      \<lparr>eValue = JBool True, eVersion = 2, eIsReplica = False\<rparr>]"
    by (simp add: owner_history_def)
  with d show ?thesis by blast
qed

text \<open>
  C31. A replicated write with an explicit version, on a key the store already holds: the version a
  read returns afterwards is the greater of the two. A newer version replaces the value; an older
  one that arrives late is kept in the history but leaves the value that is read, when the
  versions in the history are distinct.
\<close>

theorem replicated_write_latest:
  assumes wf: "store_wf d" and old: "latest d key = Some (v, n)"
    and put: "PutRaw c d key val (Some m) isReplica = Ret (d', n', e, calls)"
  shows "n' = m \<and> (\<exists>v'. latest d' key = Some (v', max n m)
    \<and> (n < m \<longrightarrow> v' = val)
    \<and> (m < n \<and> distinct (map eVersion (history d key)) \<longrightarrow> v' = v))"
proof -
  let ?es = "history d key"
  let ?e = "new_entry d key val (Some m) isReplica"
  have es: "?es \<noteq> []" "v = eValue (last ?es)" "n = eVersion (last ?es)"
    using old by (simp_all add: latest_eq_Some)
  have e: "eVersion ?e = m" "eValue ?e = val"
    by (simp_all add: new_entry_def next_version_def old)
  have d': "n' = m" "d' = written c d key val (Some m) isReplica"
    using put by (auto simp: PutRaw_eq [OF wf] next_version_def old)
  let ?l = "last (sort_slice c eVersion (?es @ [?e]))"
  have lat: "latest d' key = Some (eValue ?l, eVersion ?l)"
    by (simp add: latest_eq_Some d' history_written)
  consider "n < m" | "m = n" | "m < n" by fastforce
  then show ?thesis
  proof cases
    case 1
    then have "?l = ?e" using es e by (intro last_sort_slice_snoc history_sorted [OF wf]) simp
    then show ?thesis using lat d' 1 e by (auto simp: max_def)
  next
    case 2
    have "?l \<in> set (?es @ [?e])" "eVersion ?e \<le> eVersion ?l"
      using last_sort_slice_max [of "?es @ [?e]" c eVersion] by auto
    then have "eVersion ?l \<le> n" and "n \<le> eVersion ?l"
      using last_sorted_max [OF history_sorted [OF wf, of key], of ?l] e es 2 by auto
    then have "eVersion ?l = n" by (rule antisym)
    then show ?thesis using lat d' 2 by simp
  next
    case 3
    have "?l \<in> {y \<in> set ?es. eVersion y = eVersion (last ?es)}"
      using 3 es e by (intro last_sort_slice_below history_sorted [OF wf]) simp_all
    moreover from this have "distinct (map eVersion ?es) \<Longrightarrow> ?l = last ?es"
      using es(1) by (auto simp: distinct_map inj_on_def)
    ultimately show ?thesis using lat d' 3 es by auto
  qed
qed

lemma replicated_write_latest_witness:
  "\<exists>d d' :: nat DataStore. latest d ''k'' = Some (JStr ''x'', 1)
    \<and> PutRaw [] d ''k'' (JStr ''y'') (Some 7) True = Ret (d', 7, None, [])
    \<and> latest d' ''k'' = Some (JStr ''y'', 7)"
proof -
  let ?d = "\<lparr>dsStore = [(''k'', [\<lparr>eValue = JStr ''x'', eVersion = 1, eIsReplica = True\<rparr>])],
             dsHook = None\<rparr> :: nat DataStore"
  have wf: "store_wf ?d" by (simp add: store_wf_def entries_wf_def)
  have l: "latest ?d ''k'' = Some (JStr ''x'', 1)" by (simp add: latest_def history_def)
  have p: "PutRaw [] ?d ''k'' (JStr ''y'') (Some 7) True
      = Ret (written [] ?d ''k'' (JStr ''y'') (Some 7) True, 7, None, [])"
    by (simp add: PutRaw_eq [OF wf] next_version_def l)
  from replicated_write_latest [OF wf l p] show ?thesis using l p by auto
qed

text \<open>
  The first write of a key ignores the version it carries. So a replica that first sees
  version \<open>m\<close> of a key stores it as version 1, and a late delivery of any older version
  \<open>j\<close> with \<open>1 < j\<close> then replaces the newer value: the replica serves the stale one.
\<close>

theorem first_replicated_write_loses_version:
  assumes "store_wf d" and "history d key = []" and "1 < j"
    and "PutRaw c1 d key newval (Some m) True = Ret (d1, n1, e1, calls1)"
    and "PutRaw c2 d1 key oldval (Some j) True = Ret (d2, n2, e2, calls2)"
  shows "n1 = 1 \<and> latest d1 key = Some (newval, 1) \<and> latest d2 key = Some (oldval, j)"
proof -
  have none: "latest d key = None" using assms(2) by (simp add: latest_eq_None)
  have d1: "n1 = 1" "d1 = written c1 d key newval (Some m) True"
    using assms(4) by (simp_all add: PutRaw_eq [OF assms(1)] next_version_def none)
  have wf1: "store_wf d1" using d1 assms(1) store_wf_written by blast
  have l1: "latest d1 key = Some (newval, 1)"
    using latest_written_above [OF assms(1), of key "Some m" c1 newval True]
    by (simp add: none d1 next_version_def)
  have "d2 = written c2 d1 key oldval (Some j) True"
    using assms(5) by (simp add: PutRaw_eq [OF wf1])
  then have "latest d2 key = Some (oldval, j)"
    using latest_written_above [OF wf1, of key "Some j" c2 oldval True] assms(3)
    by (simp add: l1 next_version_def)
  with d1 l1 show ?thesis by simp
qed

lemma first_replicated_write_loses_version_witness:
  "\<exists>d1 d2 :: nat DataStore.
     PutRaw [] NewDataStore ''k'' (JStr ''new'') (Some 9) True = Ret (d1, 1, None, [])
   \<and> PutRaw [] d1 ''k'' (JStr ''old'') (Some 8) True = Ret (d2, 8, None, [])
   \<and> latest d2 ''k'' = Some (JStr ''old'', 8)"
proof -
  let ?d0 = "NewDataStore :: nat DataStore"
  let ?d1 = "written [] ?d0 ''k'' (JStr ''new'') (Some 9) True"
  let ?d2 = "written [] ?d1 ''k'' (JStr ''old'') (Some 8) True"
  have l0: "latest ?d0 ''k'' = None" by (simp add: latest_eq_None)
  have h0: "dsHook ?d0 = None" by (simp add: NewDataStore_def)
  have p1: "PutRaw [] ?d0 ''k'' (JStr ''new'') (Some 9) True = Ret (?d1, 1, None, [])"
    by (simp add: PutRaw_eq next_version_def l0 h0)
  have wf1: "store_wf ?d1" by (rule store_wf_written) simp
  have l1: "latest ?d1 ''k'' = Some (JStr ''new'', 1)"
    using latest_written_above [of ?d0 "''k''" "Some 9" "[]" "JStr ''new''" True]
    by (simp add: l0 next_version_def)
  have p2: "PutRaw [] ?d1 ''k'' (JStr ''old'') (Some 8) True = Ret (?d2, 8, None, [])"
    by (simp add: PutRaw_eq [OF wf1] next_version_def l1 h0)
  have "latest ?d2 ''k'' = Some (JStr ''old'', 8)"
    using first_replicated_write_loses_version [OF store_wf_New _ _ p1 p2] by simp
  with p1 p2 show ?thesis by blast
qed

text \<open>
  Wrap-around: a client write to a key whose latest version is 2^64 - 1 gets version 0, sorts
  to the front and is not visible: a read still returns the previous value.
\<close>

theorem write_after_last_version_is_lost:
  assumes "store_wf d" and "latest d key = Some (v, - 1)" and "distinct (map eVersion (history d key))"
    and "Put c d key val = Ret (d', n, e, calls)"
  shows "n = 0 \<and> latest d' key = Some (v, - 1)"
proof -
  let ?es = "history d key"
  let ?e = "new_entry d key val None False"
  have es: "?es \<noteq> []" "v = eValue (last ?es)" "- 1 = eVersion (last ?es)"
    using assms(2) by (simp_all add: latest_eq_Some)
  have n: "n = 0" "d' = written c d key val None False"
    using assms(2,4) by (simp_all add: Put_eq [OF assms(1)] next_version_def)
  have e: "eVersion ?e = 0" by (simp add: new_entry_def next_version_def assms(2))
  have "last (sort_slice c eVersion (?es @ [?e])) \<in> {y \<in> set ?es. eVersion y = eVersion (last ?es)}"
    using es e by (intro last_sort_slice_below history_sorted [OF assms(1)])
      (simp_all add: es(3) [symmetric] word_gt_0)
  then have "last (sort_slice c eVersion (?es @ [?e])) = last ?es"
    using es(1) assms(3) by (auto simp: distinct_map inj_on_def)
  then show ?thesis using n es by (simp add: latest_eq_Some history_written)
qed

lemma write_after_last_version_is_lost_witness:
  "\<exists>d d' :: nat DataStore. latest d ''k'' = Some (JStr ''x'', - 1)
    \<and> Put [] d ''k'' (JStr ''y'') = Ret (d', 0, None, []) \<and> latest d' ''k'' = Some (JStr ''x'', - 1)"
proof -
  let ?d = "\<lparr>dsStore = [(''k'', [\<lparr>eValue = JStr ''x'', eVersion = - 1, eIsReplica = False\<rparr>])],
             dsHook = None\<rparr> :: nat DataStore"
  have wf: "store_wf ?d" by (simp add: store_wf_def entries_wf_def)
  have l: "latest ?d ''k'' = Some (JStr ''x'', - 1)" by (simp add: latest_def history_def)
  have p: "Put [] ?d ''k'' (JStr ''y'') = Ret (written [] ?d ''k'' (JStr ''y'') None False, 0, None, [])"
    by (simp add: Put_eq [OF wf] next_version_def l)
  from write_after_last_version_is_lost [OF wf l _ p] show ?thesis
    using l p by (auto simp: history_def)
qed

text \<open>
  A snapshot is the point-in-time view: whatever the order in which the map is visited, it
  maps a key to its whole history exactly when the filter accepts the key and the store holds it,
  with each key once; the store itself is unchanged but for the hook the options install.
\<close>

theorem Snapshot_point_in_time:
  assumes "store_wf d" and "Snapshot c filt opts d = (d', snap)"
    and "opts = [] \<or> opts = [WithPostWriteHook h]"
  shows "distinct (map fst snap)
    \<and> (\<forall>key. map_of snap key = (if filt key \<and> history d key \<noteq> [] then Some (history d key) else None))
    \<and> dsStore d' = dsStore d
    \<and> dsHook d' = (if opts = [] then dsHook d else Some h)"
proof -
  have d': "d' = (if opts = [] then d else d\<lparr>dsHook := Some h\<rparr>)" and snap: "snap = Snapshot_copy c filt d'"
    using assms(2,3) by (auto simp: Snapshot_def Let_def)
  have wf: "store_wf d'" and hist: "history d' = history d" using assms(1) d' by auto
  have "map_of snap key = (if filt key \<and> history d key \<noteq> [] then Some (history d key) else None)" for key
    using store_wf_lookup [OF wf, of key] by (simp add: snap map_of_Snapshot_copy [OF wf] hist)
  moreover have "distinct (map fst snap)" unfolding snap by (rule distinct_Snapshot_copy)
  ultimately show ?thesis by (simp add: d')
qed

lemma Snapshot_point_in_time_witness:
  "\<exists>d' snap. Snapshot [1] (\<lambda>k. k = ''a'') [WithPostWriteHook (5 :: nat)]
        \<lparr>dsStore = [(''a'', [\<lparr>eValue = JNull, eVersion = 1, eIsReplica = False\<rparr>]),
                    (''b'', [\<lparr>eValue = JNull, eVersion = 4, eIsReplica = False\<rparr>])],
         dsHook = None\<rparr> = (d', snap)
     \<and> map_of snap ''a'' \<noteq> None \<and> map_of snap ''b'' = None \<and> dsHook d' = Some 5"
proof -
  let ?d = "\<lparr>dsStore = [(''a'', [\<lparr>eValue = JNull, eVersion = 1, eIsReplica = False\<rparr>]),
                    (''b'', [\<lparr>eValue = JNull, eVersion = 4, eIsReplica = False\<rparr>])],
         dsHook = None\<rparr> :: nat DataStore"
  have wf: "store_wf ?d" by (simp add: store_wf_def entries_wf_def)
  obtain d' snap where s: "Snapshot [1] (\<lambda>k. k = ''a'') [WithPostWriteHook (5 :: nat)] ?d = (d', snap)"
    by fastforce
  from Snapshot_point_in_time [OF wf s, of 5]
  have m: "map_of snap key = (if key = ''a'' \<and> history ?d key \<noteq> [] then Some (history ?d key) else None)"
    and h: "dsHook d' = Some 5" for key by auto
  have "history ?d ''a'' \<noteq> []" by (simp add: history_def)
  then have "map_of snap ''a'' \<noteq> None \<and> map_of snap ''b'' = None" using m by simp
  with s h show ?thesis by blast
qed

end
