(* ===== verification/Sha256.thy ===== *)
theory Sha256
  imports Go_Runtime
begin

unbundle bit_operations_syntax

section \<open>SHA-256 and big-endian words\<close>

text \<open>
  The two functions of Go's standard library under \<open>HashKey\<close>: \<open>sha256.Sum256\<close> (FIPS 180-4, on
  32-bit words) and \<open>binary.BigEndian.Uint64\<close>. Both compute, so a token can be evaluated. What
  the routing relies on is proved in theory \<open>Ring\<close>; here only that the digest has 32 bytes, so
  that the slice \<open>sum[:8]\<close> is in range.
\<close>

type_synonym u8 = "8 word"
type_synonym u32 = "32 word"

text \<open>
  The first 32 bits of the fractional parts of the cube roots of the first 64 primes, and of the
  square roots of the first 8: theory \<open>Sha256_Vector\<close> proves it of both tables.
\<close>

definition sha_K :: "u32 list" where
  "sha_K =
   [1116352408, 1899447441, 3049323471, 3921009573, 961987163, 1508970993, 2453635748, 2870763221,
    3624381080, 310598401, 607225278, 1426881987, 1925078388, 2162078206, 2614888103, 3248222580,
    3835390401, 4022224774, 264347078, 604807628, 770255983, 1249150122, 1555081692, 1996064986,
    2554220882, 2821834349, 2952996808, 3210313671, 3336571891, 3584528711, 113926993, 338241895,
    666307205, 773529912, 1294757372, 1396182291, 1695183700, 1986661051, 2177026350, 2456956037,
    2730485921, 2820302411, 3259730800, 3345764771, 3516065817, 3600352804, 4094571909, 275423344,
    430227734, 506948616, 659060556, 883997877, 958139571, 1322822218, 1537002063, 1747873779,
    1955562222, 2024104815, 2227730452, 2361852424, 2428436474, 2756734187, 3204031479, 3329325298]"

definition sha_H0 :: "u32 list" where
  "sha_H0 = [1779033703, 3144134277, 1013904242, 2773480762,
             1359893119, 2600822924, 528734635, 1541459225]"

definition Ch :: "u32 \<Rightarrow> u32 \<Rightarrow> u32 \<Rightarrow> u32" where
  "Ch x y z = (x AND y) XOR (NOT x AND z)"

definition Maj :: "u32 \<Rightarrow> u32 \<Rightarrow> u32 \<Rightarrow> u32" where
  "Maj x y z = (x AND y) XOR (x AND z) XOR (y AND z)"

definition big_sigma0 :: "u32 \<Rightarrow> u32" where
  "big_sigma0 x = word_rotr 2 x XOR word_rotr 13 x XOR word_rotr 22 x"

definition big_sigma1 :: "u32 \<Rightarrow> u32" where
  "big_sigma1 x = word_rotr 6 x XOR word_rotr 11 x XOR word_rotr 25 x"

definition small_sigma0 :: "u32 \<Rightarrow> u32" where
  "small_sigma0 x = word_rotr 7 x XOR word_rotr 18 x XOR drop_bit 3 x"

definition small_sigma1 :: "u32 \<Rightarrow> u32" where
  "small_sigma1 x = word_rotr 17 x XOR word_rotr 19 x XOR drop_bit 10 x"

text \<open>Bytes and words, most significant byte first.\<close>

definition be_word :: "u8 list \<Rightarrow> 'a::len word" where
  "be_word bs = fold (\<lambda>b w. push_bit 8 w OR ucast b) bs 0"

definition be_bytes :: "nat \<Rightarrow> 'a::len word \<Rightarrow> u8 list" where
  "be_bytes n w = map (\<lambda>i. ucast (drop_bit (8 * (n - Suc i)) w)) [0..<n]"

definition sha_pad :: "u8 list \<Rightarrow> u8 list" where
  "sha_pad msg =
     (let l = length msg; k = (119 - l mod 64) mod 64
      in msg @ [0x80] @ replicate k 0 @ be_bytes 8 (of_nat (8 * l) :: u64))"

fun chunks :: "nat \<Rightarrow> nat \<Rightarrow> 'a list \<Rightarrow> 'a list list" where
  "chunks 0 n xs = []"
| "chunks (Suc m) n xs = take n xs # chunks m n (drop n xs)"

text \<open>The message schedule: each new word from the four words 2, 7, 15 and 16 places back.\<close>

definition sha_schedule :: "u32 list \<Rightarrow> u32 list" where
  "sha_schedule block =
     fold (\<lambda>t w. w @ [small_sigma1 (w ! (t - 2)) + w ! (t - 7)
                      + small_sigma0 (w ! (t - 15)) + w ! (t - 16)]) [16..<64] block"

fun sha_round :: "u32 \<times> u32 \<Rightarrow> u32 list \<Rightarrow> u32 list" where
  "sha_round (k, w) [a, b, c, d, e, f, g, h] =
     (let t1 = h + big_sigma1 e + Ch e f g + k + w;
          t2 = big_sigma0 a + Maj a b c
      in [t1 + t2, a, b, c, d + t1, e, f, g])"
| "sha_round _ s = s"

definition sha_block :: "u8 list \<Rightarrow> u32 list \<Rightarrow> u32 list" where
  "sha_block bytes H =
     map2 (+) H (fold sha_round (zip sha_K (sha_schedule (map be_word (chunks 16 4 bytes)))) H)"

definition Sum256 :: "u8 list \<Rightarrow> u8 list" where
  "Sum256 msg =
     (let p = sha_pad msg
      in concat (map (be_bytes 4) (fold sha_block (chunks (length p div 64) 64 p) sha_H0)))"

lemma length_be_bytes [simp]: "length (be_bytes n w) = n"
  by (simp add: be_bytes_def)

lemma length_sha_round [simp]: "length (sha_round kw s) = length s"
  by (induction kw s rule: sha_round.induct) (simp_all add: Let_def)

lemma length_fold_sha_round [simp]: "length (fold sha_round kws s) = length s"
  by (induction kws arbitrary: s) simp_all

lemma length_fold_sha_block [simp]: "length (fold sha_block bs H) = length H"
  by (induction bs arbitrary: H) (simp_all add: sha_block_def)

lemma length_Sum256: "length (Sum256 msg) = 32"
proof -
  have "length (concat (map (be_bytes 4) ws)) = 4 * length ws" for ws :: "u32 list"
    by (induction ws) simp_all
  then show ?thesis by (simp add: Sum256_def Let_def sha_H0_def)
qed

end
