(* ===== verification/Sha256_Vector.thy ===== *)
theory Sha256_Vector
  imports Sha256
begin

section \<open>The constants, and a test vector\<close>

subsection \<open>Constants\<close>

definition sha_primes :: "int list" where
  "sha_primes =
   [2, 3, 5, 7, 11, 13, 17, 19, 23, 29, 31, 37, 41, 43, 47, 53,
    59, 61, 67, 71, 73, 79, 83, 89, 97, 101, 103, 107, 109, 113, 127, 131,
    137, 139, 149, 151, 157, 163, 167, 173, 179, 181, 191, 193, 197, 199, 211, 223,
    227, 229, 233, 239, 241, 251, 257, 263, 269, 271, 277, 281, 283, 293, 307, 311]"

text \<open>\<open>k\<close> is the fraction, in units of 2^-32, of the \<open>e\<close>-th root of \<open>p\<close>, whose integral part is \<open>r\<close>.\<close>

definition root_fraction :: "nat \<Rightarrow> int \<Rightarrow> u32 \<Rightarrow> int \<Rightarrow> bool" where
  "root_fraction e p k r \<longleftrightarrow>
     (r * 2 ^ 32 + uint k) ^ e \<le> p * 2 ^ (32 * e) \<and> p * 2 ^ (32 * e) < (r * 2 ^ 32 + uint k + 1) ^ e"

lemma sha_K_cube_roots:
  "list_all2 (\<lambda>p k. list_ex (root_fraction 3 p k) [1, 2, 3, 4, 5, 6]) sha_primes sha_K"
  by code_simp

lemma sha_H0_square_roots:
  "list_all2 (\<lambda>p h. list_ex (root_fraction 2 p h) [1, 2, 3, 4]) (take 8 sha_primes) sha_H0"
  by code_simp

subsection \<open>Test vector\<close>

text \<open>The first eight bytes of the digest of \<open>abc\<close> (FIPS 180-4), evaluated by the kernel.\<close>

lemma Sum256_abc:
  "take 8 (Sum256 (map of_char ''abc'')) = [0xba, 0x78, 0x16, 0xbf, 0x8f, 0x01, 0xcf, 0xea]"
  by code_simp

end
