(* ===== verification/Strconv.thy ===== *)
theory Strconv
  imports Go_Runtime
begin

section \<open>Strings and numbers: strconv and strings\<close>

text \<open>
  The functions of Go's \<open>strconv\<close> and \<open>strings\<close> packages the program calls on its command-line
  flags and query parameters. A Go string is a sequence of bytes, as is a HOL \<open>string\<close>.

  \<^item> \<open>ParseUint\<close> is \<open>strconv.ParseUint(s, 10, 64)\<close>, on the 64-bit words the library computes with,
    overflow tests included; \<open>ParseUint_digits\<close> shows that the two tests detect exactly the
    values that do not fit.
  \<^item> \<open>Atoi\<close> is \<open>strconv.Atoi\<close> on a 64-bit platform, \<open>show_nat\<close> and \<open>show_int\<close> print with \<open>%d\<close>.
  \<^item> \<open>blank\<close> is the test \<open>strings.TrimSpace(s) == ""\<close>, \<open>Trim_spaces\<close> is \<open>strings.Trim(s, " ")\<close>,
    \<open>Split\<close> is \<open>strings.Split\<close> with a separator of one byte.
\<close>

datatype strconv_error = ErrSyntax | ErrRange

subsection \<open>ParseUint\<close>

definition digit_of :: "char \<Rightarrow> nat option" where
  "digit_of c = (let n = of_char c :: nat in if 48 \<le> n \<and> n \<le> 57 then Some (n - 48) else None)"

definition cutoff :: u64 where
  "cutoff = 1844674407370955162"

fun parse_digits :: "u64 \<Rightarrow> string \<Rightarrow> strconv_error + u64" where
  "parse_digits n [] = Inr n"
| "parse_digits n (c # cs) =
     (case digit_of c of
        None \<Rightarrow> Inl ErrSyntax
      | Some d \<Rightarrow>
          if cutoff \<le> n then Inl ErrRange
          else (let n10 = n * 10; n1 = n10 + of_nat d
                in if n1 < n10 then Inl ErrRange else parse_digits n1 cs))"

definition ParseUint :: "string \<Rightarrow> strconv_error + u64" where
  "ParseUint s = (if s = [] then Inl ErrSyntax else parse_digits 0 s)"

text \<open>The mathematical value of a digit string, most significant digit first.\<close>

fun digits_value :: "nat \<Rightarrow> string \<Rightarrow> nat" where
  "digits_value v [] = v"
| "digits_value v (c # cs) = digits_value (10 * v + the (digit_of c)) cs"

definition all_digits :: "string \<Rightarrow> bool" where
  "all_digits s \<longleftrightarrow> list_all (\<lambda>c. digit_of c \<noteq> None) s"

lemma all_digits_simps [simp]:
  "all_digits []"
  "all_digits (c # cs) \<longleftrightarrow> digit_of c \<noteq> None \<and> all_digits cs"
  "all_digits (xs @ ys) \<longleftrightarrow> all_digits xs \<and> all_digits ys"
  by (simp_all add: all_digits_def)

lemma digit_of_less: "digit_of c = Some d \<Longrightarrow> d < 10"
  by (auto simp: digit_of_def Let_def split: if_splits)

lemma digits_value_ge: "v \<le> digits_value v s"
  by (induction v s rule: digits_value.induct) (auto intro: order_trans [rotated])

lemma digits_value_append:
  "digits_value v (s @ [c]) = 10 * digits_value v s + the (digit_of c)"
  by (induction v s rule: digits_value.induct) auto

text \<open>One step of the loop: the two tests hold exactly when the new value does not fit.\<close>

lemma parse_step_overflow:
  fixes n :: u64
  assumes d: "d < 10"
  shows "cutoff \<le> n \<or> n * 10 + of_nat d < n * 10 \<longleftrightarrow> 2 ^ 64 \<le> 10 * unat n + d"
proof (cases "cutoff \<le> n")
  case True
  then have "1844674407370955162 \<le> unat n" by (simp add: cutoff_def word_le_nat_alt)
  then show ?thesis using True by simp
next
  case False
  then have le: "unat n \<le> 1844674407370955161" by (simp add: cutoff_def word_le_nat_alt)
  then have n10: "unat (n * 10) = 10 * unat n"
    by (subst unat_word_ariths) (simp add: mult.commute)
  have "unat (n * 10 + of_nat d) = (10 * unat n + d) mod 2 ^ 64"
    using d by (simp add: unat_word_ariths(1) n10 unat_of_nat)
  then show ?thesis
    using False d le by (auto simp: word_less_nat_alt n10 mod_if)
qed

lemma parse_step_value:
  fixes n :: u64
  assumes "d < 10" and "10 * unat n + d < 2 ^ 64"
  shows "unat (n * 10 + of_nat d) = 10 * unat n + d"
proof -
  have "n * 10 + of_nat d = (of_nat (10 * unat n + d) :: u64)" by (simp add: mult.commute)
  then show ?thesis using unat_of_nat_u64 [OF assms(2)] by (simp only:)
qed

lemma parse_digits_correct:
  assumes "all_digits s"
  shows "parse_digits n s =
    (if digits_value (unat n) s < 2 ^ 64 then Inr (of_nat (digits_value (unat n) s))
     else Inl ErrRange)"
  using assms
proof (induction s arbitrary: n)
  case Nil
  show ?case using unat_less_u64 [of n] by simp
next
  case (Cons c cs)
  then obtain d where d: "digit_of c = Some d" and cs: "all_digits cs" by auto
  note d10 = digit_of_less [OF d]
  show ?case
  proof (cases "2 ^ 64 \<le> 10 * unat n + d")
    case True
    then have "2 ^ 64 \<le> digits_value (10 * unat n + d) cs"
      using digits_value_ge order_trans by blast
    then show ?thesis using True parse_step_overflow [OF d10, of n] d by (auto simp: Let_def)
  next
    case False
    then have "unat (n * 10 + of_nat d) = 10 * unat n + d"
      using parse_step_value [OF d10] by simp
    then show ?thesis
      using False parse_step_overflow [OF d10, of n] d Cons.IH [OF cs] by (simp add: Let_def)
  qed
qed

lemma parse_digits_bad: "\<not> all_digits s \<Longrightarrow> \<exists>e. parse_digits n s = Inl e"
  by (induction n s rule: parse_digits.induct) (auto simp: Let_def split: option.splits)

lemma ParseUint_digits:
  assumes "s \<noteq> []" and "all_digits s"
  shows "ParseUint s = (if digits_value 0 s < 2 ^ 64 then Inr (of_nat (digits_value 0 s))
                        else Inl ErrRange)"
  using assms by (simp add: ParseUint_def parse_digits_correct)

lemma ParseUint_bad: "s = [] \<or> \<not> all_digits s \<Longrightarrow> \<exists>e. ParseUint s = Inl e"
  by (auto simp: ParseUint_def dest: parse_digits_bad)

lemma ParseUint_InrD:
  assumes "ParseUint s = Inr n"
  shows "s \<noteq> [] \<and> all_digits s \<and> unat n = digits_value 0 s"
proof -
  from assms have s: "s \<noteq> []" "all_digits s" using ParseUint_bad [of s] by auto
  with assms show ?thesis by (auto simp: ParseUint_digits unat_of_nat split: if_splits)
qed

subsection \<open>Printing\<close>

fun show_nat :: "nat \<Rightarrow> string" where
  "show_nat n = (if n < 10 then [char_of (48 + n)]
                 else show_nat (n div 10) @ [char_of (48 + n mod 10)])"

declare show_nat.simps [simp del]

definition show_int :: "int \<Rightarrow> string" where
  "show_int i = (if i < 0 then CHR ''-'' # show_nat (nat (- i)) else show_nat (nat i))"

lemma digit_of_char_of: "d < 10 \<Longrightarrow> digit_of (char_of (48 + d)) = Some d"
  by (simp add: digit_of_def)

lemma show_nat_props:
  "show_nat n \<noteq> [] \<and> all_digits (show_nat n) \<and> digits_value 0 (show_nat n) = n"
proof (induction n rule: show_nat.induct)
  case (1 n)
  show ?case
  proof (cases "n < 10")
    case True
    then show ?thesis by (simp add: show_nat.simps [of n] digit_of_char_of)
  next
    case False
    with 1 show ?thesis
      by (simp add: show_nat.simps [of n] digit_of_char_of digits_value_append)
  qed
qed

lemmas show_nat_nonempty [simp] = show_nat_props [THEN conjunct1]
lemmas all_digits_show_nat [simp] = show_nat_props [THEN conjunct2, THEN conjunct1]
lemmas value_show_nat [simp] = show_nat_props [THEN conjunct2, THEN conjunct2]

lemma ParseUint_show_nat: "n < 2 ^ 64 \<Longrightarrow> ParseUint (show_nat n) = Inr (of_nat n)"
  by (simp add: ParseUint_digits)

subsection \<open>Atoi\<close>

definition Atoi :: "string \<Rightarrow> strconv_error + int" where
  "Atoi s =
     (case s of
        [] \<Rightarrow> Inl ErrSyntax
      | c # cs \<Rightarrow>
          let neg = (c = CHR ''-''); body = (if c = CHR ''-'' \<or> c = CHR ''+'' then cs else s)
          in (case ParseUint body of
                Inl e \<Rightarrow> Inl e
              | Inr un \<Rightarrow>
                  if \<not> neg \<and> 2 ^ 63 \<le> uint un then Inl ErrRange
                  else if neg \<and> 2 ^ 63 < uint un then Inl ErrRange
                  else Inr (if neg then - uint un else uint un)))"

lemma Atoi_range: "Atoi s = Inr i \<Longrightarrow> - (2 ^ 63) \<le> i \<and> i < 2 ^ 63"
  by (auto simp: Atoi_def Let_def not_le not_less intro: order_trans [OF _ uint_ge_0]
      le_less_trans [of _ 0] split: list.splits sum.splits if_splits)

lemma Atoi_Nil [simp]: "Atoi [] = Inl ErrSyntax"
  by (simp add: Atoi_def)

lemma show_nat_hd_not_sign:
  assumes "show_nat n = c # cs"
  shows "c \<noteq> CHR ''-'' \<and> c \<noteq> CHR ''+''"
proof -
  have "digit_of c \<noteq> None" using all_digits_show_nat [of n] by (simp add: assms)
  then show ?thesis by (auto simp: digit_of_def)
qed

lemma uint_of_nat_u64: "n < 2 ^ 64 \<Longrightarrow> uint (of_nat n :: u64) = int n"
  by (metis uint_nat unat_of_nat_u64)

lemma Atoi_show_int:
  assumes "- (2 ^ 63) \<le> i" and "i < 2 ^ 63"
  shows "Atoi (show_int i) = Inr i"
proof (cases "i < 0")
  case True
  then have "nat (- i) < 2 ^ 64" and "nat (- i) \<le> 2 ^ 63" using assms(1) by auto
  moreover have "show_int i = CHR ''-'' # show_nat (nat (- i))" using True by (simp add: show_int_def)
  ultimately show ?thesis
    using True ParseUint_show_nat [of "nat (- i)"] uint_of_nat_u64 [of "nat (- i)"] assms
    by (simp add: Atoi_def Let_def)
next
  case False
  then have lt: "nat i < 2 ^ 64" using assms(2) by auto
  obtain c cs where c: "show_nat (nat i) = c # cs"
    using show_nat_nonempty [of "nat i"] by (cases "show_nat (nat i)") simp_all
  have "Atoi (c # cs) = Inr i"
    using False assms(2) show_nat_hd_not_sign [OF c] ParseUint_show_nat [OF lt]
      uint_of_nat_u64 [OF lt]
    by (simp add: Atoi_def Let_def c)
  then show ?thesis using False c by (simp add: show_int_def)
qed

subsection \<open>Trimming and splitting\<close>

text \<open>
  The white space of \<open>unicode.IsSpace\<close> in UTF-8: six ASCII bytes, two code points of two bytes
  and the three-byte ones.
\<close>

definition wide_space :: "nat \<Rightarrow> nat \<Rightarrow> nat \<Rightarrow> bool" where
  "wide_space a b c \<longleftrightarrow>
     (a = 225 \<and> b = 154 \<and> c = 128)
   \<or> (a = 226 \<and> b = 128 \<and> (128 \<le> c \<and> c \<le> 138 \<or> c = 168 \<or> c = 169 \<or> c = 175))
   \<or> (a = 226 \<and> b = 129 \<and> c = 159)
   \<or> (a = 227 \<and> b = 128 \<and> c = 128)"

fun blank_bytes :: "nat list \<Rightarrow> bool" where
  "blank_bytes [] = True"
| "blank_bytes (a # r) =
     (if a = 32 \<or> 9 \<le> a \<and> a \<le> 13 then blank_bytes r
      else (case r of
              [] \<Rightarrow> False
            | b # r' \<Rightarrow>
                if a = 194 \<and> (b = 133 \<or> b = 160) then blank_bytes r'
                else (case r' of
                        [] \<Rightarrow> False
                      | c # r'' \<Rightarrow> if wide_space a b c then blank_bytes r'' else False)))"

definition blank :: "string \<Rightarrow> bool" where
  "blank s \<longleftrightarrow> blank_bytes (map of_char s)"

lemma blank_Nil [simp]: "blank []"
  by (simp add: blank_def)

lemma digit_not_blank: "digit_of c \<noteq> None \<Longrightarrow> \<not> blank (c # cs)"
  by (auto simp: blank_def digit_of_def Let_def wide_space_def split: if_splits list.splits)

lemma ascii_not_blank:
  assumes "a < 128" "a \<noteq> 32" "\<not> (9 \<le> a \<and> a \<le> 13)"
  shows "\<not> blank_bytes (a # r)"
proof -
  have c: "(a = 32 \<or> 9 \<le> a \<and> a \<le> 13) = False" "(a = 194) = False" "wide_space a b c = False" for b c
    using assms by (auto simp: wide_space_def)
  show ?thesis by (simp only: blank_bytes.simps(2) c simp_thms if_False split: list.split)
qed

lemma sign_not_blank:
  assumes "c = CHR ''-'' \<or> c = CHR ''+''"
  shows "\<not> blank (c # cs)"
proof -
  have "(of_char c :: nat) < 128 \<and> of_char c \<noteq> (32 :: nat) \<and> (14 :: nat) \<le> of_char c" using assms by auto
  then show ?thesis unfolding blank_def list.map by (intro ascii_not_blank) simp_all
qed

lemma show_nat_not_blank [simp]: "\<not> blank (show_nat n)"
proof (cases "show_nat n")
  case (Cons c cs)
  then show ?thesis using all_digits_show_nat [of n] digit_not_blank by simp
qed (simp add: show_nat_nonempty [of n, THEN notE])

definition Trim_spaces :: "string \<Rightarrow> string" where
  "Trim_spaces s = rev (dropWhile (\<lambda>c. c = CHR '' '') (rev (dropWhile (\<lambda>c. c = CHR '' '') s)))"

lemma dropWhile_end_Nil:
  assumes "xs = [] \<or> \<not> P (hd xs)"
  shows "dropWhile P (rev xs) = [] \<longleftrightarrow> xs = []"
  using assms by (cases xs) auto

lemma Trim_spaces_eq_Nil: "Trim_spaces s = [] \<longleftrightarrow> (\<forall>c \<in> set s. c = CHR '' '')"
proof -
  let ?P = "\<lambda>c. c = CHR '' ''"
  have "dropWhile ?P s = [] \<or> \<not> ?P (hd (dropWhile ?P s))"
    using hd_dropWhile [of ?P s] by blast
  then have "dropWhile ?P (rev (dropWhile ?P s)) = [] \<longleftrightarrow> dropWhile ?P s = []"
    by (rule dropWhile_end_Nil)
  also have "\<dots> \<longleftrightarrow> (\<forall>c \<in> set s. c = CHR '' '')" by (rule dropWhile_eq_Nil_conv)
  finally show ?thesis unfolding Trim_spaces_def rev_is_Nil_conv .
qed

fun Split :: "char \<Rightarrow> string \<Rightarrow> string list" where
  "Split sep [] = [[]]"
| "Split sep (x # xs) =
     (if x = sep then [] # Split sep xs
      else (case Split sep xs of [] \<Rightarrow> [[x]] | w # ws \<Rightarrow> (x # w) # ws))"

lemma Split_nonempty [simp]: "Split sep s \<noteq> []"
  by (induction s) (auto split: list.splits)

lemma Split_no_sep: "sep \<notin> set s \<Longrightarrow> Split sep s = [s]"
  by (induction s) auto

lemma Split_append:
  "sep \<notin> set w \<Longrightarrow> Split sep (w @ sep # s) = w # Split sep s"
  by (induction w) auto

lemma Atoi_spaces: "\<forall>c \<in> set s. c = CHR '' '' \<Longrightarrow> \<exists>e. Atoi s = Inl e"
proof (cases s)
  case (Cons c cs)
  assume "\<forall>c \<in> set s. c = CHR '' ''"
  then have "ParseUint s = Inl ErrSyntax" "c = CHR '' ''"
    by (simp_all add: Cons ParseUint_def digit_of_def)
  then show ?thesis by (simp add: Atoi_def Cons)
qed simp

text \<open>Joining with a separator, the inverse of \<open>Split\<close>.\<close>

fun join :: "char \<Rightarrow> string list \<Rightarrow> string" where
  "join sep [] = []"
| "join sep [w] = w"
| "join sep (w # v # ws) = w @ sep # join sep (v # ws)"

lemma Split_join:
  "ws \<noteq> [] \<Longrightarrow> \<forall>w \<in> set ws. sep \<notin> set w \<Longrightarrow> Split sep (join sep ws) = ws"
  by (induction sep ws rule: join.induct) (auto simp: Split_no_sep Split_append)

end
