(* ===== verification/Ring.thy ===== *)
theory Ring
  imports DSN_Types Strconv Sha256
begin

section \<open>The hash ring: helper/helper.go\<close>

text \<open>
  The placement of keys on nodes. \<open>HashKey\<close> maps a key to its token. The lookup functions are
  generic in the source, over any type with the interfaces \<open>HasEndOfKeyRange\<close> and \<open>HasState\<close>;
  here they take the two accessors as their first arguments.

  The abstract specification is \<open>is_owner\<close>: among the nodes that are available and whose range
  end is above the token, one with the least range end. \<open>GetNode\<close> finds it in a sorted slice
  (\<open>GetNode_sorted\<close>), and \<open>GetNNode\<close> returns it with its successors on the ring
  (\<open>GetNNode_eq\<close>). \<open>MapToArr\<close> followed by the sort gives the same slice whatever the order of
  the map and the ties of the sort, when range ends are distinct (\<open>sorted_nodes_unique\<close>).
\<close>

subsection \<open>Tokens\<close>

definition HashKey :: "string \<Rightarrow> u64 \<Rightarrow> u64 outcome" where
  "HashKey key md =
     (let sum = Sum256 (map of_char key)
      in if md = 0 then Panic DivideByZero else Ret (be_word (take 8 sum) mod md))"

text \<open>\<open>TOTAL_SLOTS\<close> of the node and \<open>Total_Slots\<close> of the coordinator: \<open>uint64((1 << 64) - 1)\<close>.\<close>

definition TOTAL_SLOTS :: u64 where
  "TOTAL_SLOTS = 18446744073709551615"

definition token_of :: "string \<Rightarrow> u64" where
  "token_of key = be_word (take 8 (Sum256 (map of_char key))) mod TOTAL_SLOTS"

lemma TOTAL_SLOTS_max: "TOTAL_SLOTS = - 1"
  by (simp add: TOTAL_SLOTS_def)

lemma HashKey_TOTAL_SLOTS [simp]: "HashKey key TOTAL_SLOTS = Ret (token_of key)"
  by (simp add: HashKey_def token_of_def TOTAL_SLOTS_def Let_def)

lemma word_mod_less: "m \<noteq> 0 \<Longrightarrow> (x :: u64) mod m < m"
  by (simp add: word_less_nat_alt unat_mod unat_gt_0)

lemma token_of_less: "token_of key < TOTAL_SLOTS"
  unfolding token_of_def by (rule word_mod_less) (simp add: TOTAL_SLOTS_def)

subsection \<open>Lookups\<close>

fun GetNode ::
    "('a \<Rightarrow> u64) \<Rightarrow> ('a \<Rightarrow> NodeState) \<Rightarrow> 'a list \<Rightarrow> u64 \<Rightarrow> error + 'a" where
  "GetNode XEndOfKeyRange XState [] token = Inl ErrNoNodeWithRequiredEndOfKeyRange"
| "GetNode XEndOfKeyRange XState (node # nodes) token =
     (if XState node = AVAILABLE \<and> token < XEndOfKeyRange node then Inr node
      else GetNode XEndOfKeyRange XState nodes token)"

fun GetNodeByToken ::
    "('a \<Rightarrow> u64) \<Rightarrow> ('a \<Rightarrow> NodeState) \<Rightarrow> 'a list \<Rightarrow> u64 \<Rightarrow> error + 'a" where
  "GetNodeByToken XEndOfKeyRange XState [] token = Inl ErrNoNodeWithRequiredEndOfKeyRange"
| "GetNodeByToken XEndOfKeyRange XState (node # nodes) token =
     (if XState node = AVAILABLE \<and> token \<le> XEndOfKeyRange node then Inr node
      else GetNodeByToken XEndOfKeyRange XState nodes token)"

text \<open>The loop of \<open>GetNodeForReplication\<close> over \<open>slices.Backward(nodes)\<close>.\<close>

fun follower_loop ::
    "('a \<Rightarrow> u64) \<Rightarrow> ('a \<Rightarrow> NodeState) \<Rightarrow> u64 \<Rightarrow> 'a list \<Rightarrow> 'a option" where
  "follower_loop XEndOfKeyRange XState eokr [] = None"
| "follower_loop XEndOfKeyRange XState eokr (n # ns) =
     (if XEndOfKeyRange n < eokr \<and> XState n = BOOTSTRAPPING then Some n
      else follower_loop XEndOfKeyRange XState eokr ns)"

definition GetNodeForReplication ::
    "('a \<Rightarrow> u64) \<Rightarrow> ('a \<Rightarrow> NodeState) \<Rightarrow> 'a list \<Rightarrow> u64 \<Rightarrow> 'a option" where
  "GetNodeForReplication XEndOfKeyRange XState nodes eokr =
     follower_loop XEndOfKeyRange XState eokr (rev nodes)"

text \<open>The two loops of \<open>GetNNode\<close>: the search for \<open>startNodeIdx\<close> and the walk round the ring.\<close>

fun start_loop ::
    "('a \<Rightarrow> u64) \<Rightarrow> ('a \<Rightarrow> NodeState) \<Rightarrow> u64 \<Rightarrow> int \<Rightarrow> 'a list \<Rightarrow> int" where
  "start_loop XEndOfKeyRange XState token i [] = - 1"
| "start_loop XEndOfKeyRange XState token i (node # nodes) =
     (if XState node = AVAILABLE \<and> token < XEndOfKeyRange node then i
      else start_loop XEndOfKeyRange XState token (i + 1) nodes)"

function collect_loop :: "'a list \<Rightarrow> int \<Rightarrow> int \<Rightarrow> 'a list \<Rightarrow> 'a list" where
  "collect_loop node startNodeIdx N nodes =
     (if int (length nodes) < N
      then (let currIdx = (startNodeIdx + int (length nodes)) mod int (length node)
            in collect_loop node startNodeIdx N (nodes @ [node ! nat currIdx]))
      else nodes)"
  by pat_completeness auto
termination
  by (relation "measure (\<lambda>(node, s, N, nodes). nat (N - int (length nodes)))") auto

declare collect_loop.simps [simp del]

definition GetNNode ::
    "('a \<Rightarrow> u64) \<Rightarrow> ('a \<Rightarrow> NodeState) \<Rightarrow> 'a list \<Rightarrow> u64 \<Rightarrow> int \<Rightarrow> (error + 'a list) outcome" where
  "GetNNode XEndOfKeyRange XState node token N =
     (if int (length node) < N then Ret (Inl ErrNotEnoughNodes)
      else (let startNodeIdx = start_loop XEndOfKeyRange XState token 0 node
            in if startNodeIdx = - 1 then Ret (Inl ErrNoNodeWithRequiredEndOfKeyRange)
               else if N < 0 then Panic MakeSliceOutOfRange
               else Ret (Inr (collect_loop node startNodeIdx N []))))"

subsection \<open>Small helpers\<close>

definition StrToUInt64 :: "string \<Rightarrow> strconv_error + u64" where
  "StrToUInt64 s = ParseUint s"

definition MapToArr :: "choice \<Rightarrow> ('k \<times> 'v) list \<Rightarrow> 'v list" where
  "MapToArr c m = fold (\<lambda>(_, val) arr. arr @ [val]) (permute c m) []"

definition MaxTime :: "time \<Rightarrow> time \<Rightarrow> time" where
  "MaxTime t1 t2 = (if After t1 t2 then t1 else t2)"

definition SortNodeInPlace :: "choice \<Rightarrow> ('a \<Rightarrow> u64) \<Rightarrow> 'a list \<Rightarrow> 'a list" where
  "SortNodeInPlace c XEndOfKeyRange ar = sort_slice c XEndOfKeyRange ar"

text \<open>
  \<open>rand.Perm\<close> returns any permutation of the indices; \<open>make([]T, n)\<close> panics for a negative length
  and the reads \<open>randPerm[i]\<close> for \<open>n\<close> above the length.
\<close>

definition PickNRandom :: "choice \<Rightarrow> 'a list \<Rightarrow> int \<Rightarrow> 'a list outcome" where
  "PickNRandom c arr n =
     (let randPerm = permute c [0..<length arr]
      in if n < 0 then Panic MakeSliceOutOfRange
         else if int (length arr) < n then Panic IndexOutOfRange
         else Ret (map (\<lambda>i. arr ! (randPerm ! i)) [0..<nat n]))"

lemma fold_append_values:
  "fold (\<lambda>(_, val) arr. arr @ [val]) xs acc = acc @ map snd xs"
  by (induction xs arbitrary: acc) (auto split: prod.splits)

lemma MapToArr_eq: "MapToArr c m = map snd (permute c m)"
  by (simp add: MapToArr_def fold_append_values)

lemma mset_MapToArr [simp]: "mset (MapToArr c m) = mset (map snd m)"
  by (simp add: MapToArr_eq)

lemma set_MapToArr [simp]: "set (MapToArr c m) = snd ` set m"
  by (simp add: MapToArr_eq)

lemma length_MapToArr [simp]: "length (MapToArr c m) = length m"
  by (simp add: MapToArr_eq)

lemma MaxTime_max: "MaxTime t1 t2 = max t1 t2"
  by (auto simp: MaxTime_def After_def)

lemma PickNRandom_Ret:
  assumes "PickNRandom c arr n = Ret xs"
  shows "0 \<le> n \<and> n \<le> int (length arr) \<and> (\<exists>rest. mset (xs @ rest) = mset arr) \<and> length xs = nat n"
proof -
  let ?p = "permute c [0..<length arr]"
  have n: "0 \<le> n" "nat n \<le> length arr" and xs: "xs = map (\<lambda>i. arr ! (?p ! i)) [0..<nat n]"
    using assms by (auto simp: PickNRandom_def Let_def split: if_splits)
  have "map ((!) ?p) [0..<nat n] = take (nat n) ?p"
    by (rule nth_equalityI) (use n in auto)
  moreover have "xs = map ((!) arr) (map ((!) ?p) [0..<nat n])" by (simp add: xs)
  ultimately have xs': "xs = map ((!) arr) (take (nat n) ?p)" by simp
  have "xs @ map ((!) arr) (drop (nat n) ?p) = map ((!) arr) ?p"
    unfolding xs' map_append [symmetric] append_take_drop_id ..
  then have "mset (xs @ map ((!) arr) (drop (nat n) ?p)) = mset (map ((!) arr) ?p)" by simp
  also have "\<dots> = mset (map ((!) arr) [0..<length arr])" by (simp only: mset_map mset_permute)
  finally have "mset (xs @ map ((!) arr) (drop (nat n) ?p)) = mset arr" by (simp only: map_nth)
  then have "\<exists>rest. mset (xs @ rest) = mset arr" by blast
  moreover have "length xs = nat n" by (simp add: xs)
  moreover have "n \<le> int (length arr)" using n by linarith
  ultimately show ?thesis using n(1) by blast
qed

subsection \<open>The owner of a token\<close>

definition is_candidate :: "('a \<Rightarrow> u64) \<Rightarrow> ('a \<Rightarrow> NodeState) \<Rightarrow> u64 \<Rightarrow> 'a \<Rightarrow> bool" where
  "is_candidate eokr st token n \<longleftrightarrow> st n = AVAILABLE \<and> token < eokr n"

definition is_owner :: "('a \<Rightarrow> u64) \<Rightarrow> ('a \<Rightarrow> NodeState) \<Rightarrow> 'a set \<Rightarrow> u64 \<Rightarrow> 'a \<Rightarrow> bool" where
  "is_owner eokr st S token n \<longleftrightarrow>
     n \<in> S \<and> is_candidate eokr st token n
     \<and> (\<forall>m \<in> S. is_candidate eokr st token m \<longrightarrow> eokr n \<le> eokr m)"

lemma GetNode_find:
  "GetNode eokr st ns token =
     (case find (is_candidate eokr st token) ns of
        None \<Rightarrow> Inl ErrNoNodeWithRequiredEndOfKeyRange | Some n \<Rightarrow> Inr n)"
  by (induction ns) (auto simp: is_candidate_def)

lemma GetNode_Inr:
  "GetNode eokr st ns token = Inr n \<longleftrightarrow> find (is_candidate eokr st token) ns = Some n"
  by (auto simp: GetNode_find split: option.splits)

lemma find_sorted_least:
  assumes "sorted (map key ns)" and "find P ns = Some n"
  shows "n \<in> set ns \<and> P n \<and> (\<forall>m \<in> set ns. P m \<longrightarrow> key n \<le> key m)"
  using assms by (induction ns) (auto split: if_splits)

text \<open>On a sorted slice \<open>GetNode\<close> finds the owner, and fails only when there is none.\<close>

lemma GetNode_sorted:
  assumes "sorted (map eokr ns)"
  shows "GetNode eokr st ns token = Inr n \<Longrightarrow> is_owner eokr st (set ns) token n"
    and "GetNode eokr st ns token = Inl e \<longleftrightarrow>
      e = ErrNoNodeWithRequiredEndOfKeyRange \<and> (\<forall>n \<in> set ns. \<not> is_candidate eokr st token n)"
proof -
  show "is_owner eokr st (set ns) token n" if "GetNode eokr st ns token = Inr n"
    using find_sorted_least [OF assms] that by (auto simp: GetNode_Inr is_owner_def)
  show "GetNode eokr st ns token = Inl e \<longleftrightarrow>
      e = ErrNoNodeWithRequiredEndOfKeyRange \<and> (\<forall>n \<in> set ns. \<not> is_candidate eokr st token n)"
    by (auto simp: GetNode_find find_None_iff find_Some_iff split: option.splits)
qed

lemma is_owner_unique:
  assumes "is_owner eokr st S token n" and "is_owner eokr st S token m" and "inj_on eokr S"
  shows "n = m"
  using assms by (auto simp: is_owner_def dest: inj_onD order_antisym)

subsection \<open>The owner and its successors\<close>

lemma start_loop_GetNode:
  assumes "0 \<le> i"
  shows "(case GetNode eokr st ns token of
      Inl e \<Rightarrow> start_loop eokr st token i ns = - 1
    | Inr n \<Rightarrow> (\<exists>j < length ns. start_loop eokr st token i ns = i + int j \<and> ns ! j = n))"
  using assms
proof (induction ns arbitrary: i)
  case (Cons x ns)
  show ?case
  proof (cases "st x = AVAILABLE \<and> token < eokr x")
    case True
    then show ?thesis by auto
  next
    case False
    then have g: "GetNode eokr st (x # ns) token = GetNode eokr st ns token"
      and s: "start_loop eokr st token i (x # ns) = start_loop eokr st token (i + 1) ns"
      by auto
    show ?thesis
    proof (cases "GetNode eokr st ns token")
      case (Inl e)
      with Cons.IH [of "i + 1"] Cons.prems show ?thesis by (simp add: g s)
    next
      case (Inr n)
      with Cons.IH [of "i + 1"] Cons.prems obtain j where
        "j < length ns" "start_loop eokr st token (i + 1) ns = i + 1 + int j" "ns ! j = n" by auto
      with Inr show ?thesis by (auto simp: g s intro!: exI [of _ "Suc j"])
    qed
  qed
qed simp

lemma collect_loop_eq:
  assumes "0 \<le> s"
  shows "collect_loop node s N acc =
    acc @ map (\<lambda>i. node ! ((nat s + i) mod length node)) [length acc ..< nat N]"
proof (induction "nat N - length acc" arbitrary: acc)
  case 0
  then have "nat N \<le> length acc" by simp
  moreover from this have "\<not> int (length acc) < N" by linarith
  ultimately show ?case by (simp add: collect_loop.simps [of node s N acc])
next
  case (Suc k)
  then have lt: "length acc < nat N" by simp
  have "nat ((s + int (length acc)) mod int (length node)) = (nat s + length acc) mod length node"
    using assms by (simp add: nat_mod_distrib nat_add_distrib)
  with lt Suc.hyps(1) [of "acc @ [node ! ((nat s + length acc) mod length node)]"] Suc.hyps(2)
  show ?case
    by (simp add: collect_loop.simps [of node s N acc] Let_def upt_conv_Cons)
qed

lemma GetNNode_eq:
  assumes "0 \<le> N"
  shows "GetNNode eokr st ns token N =
    (if int (length ns) < N then Ret (Inl ErrNotEnoughNodes)
     else (case GetNode eokr st ns token of
             Inl e \<Rightarrow> Ret (Inl e)
           | Inr n \<Rightarrow> (let s = nat (start_loop eokr st token 0 ns)
                       in Ret (Inr (map (\<lambda>i. ns ! ((s + i) mod length ns)) [0..<nat N])))))"
proof (cases "GetNode eokr st ns token")
  case (Inl e)
  then have "e = ErrNoNodeWithRequiredEndOfKeyRange" by (auto simp: GetNode_find split: option.splits)
  with Inl start_loop_GetNode [of 0 eokr st token ns] show ?thesis by (simp add: GetNNode_def Let_def)
next
  case (Inr n)
  with start_loop_GetNode [of 0 eokr st token ns] obtain j where
    "start_loop eokr st token 0 ns = int j" by auto
  with Inr assms show ?thesis by (auto simp: GetNNode_def Let_def collect_loop_eq)
qed

text \<open>The walk of \<open>N\<close> steps from index \<open>s\<close> is a prefix of the rotated slice.\<close>

lemma walk_rotate:
  assumes "n \<le> length ns"
  shows "map (\<lambda>i. ns ! ((s + i) mod length ns)) [0..<n] = take n (rotate s ns)"
  by (rule nth_equalityI) (use assms in \<open>auto simp: nth_rotate add.commute\<close>)

lemma GetNNode_Inr:
  assumes "GetNNode eokr st ns token N = Ret (Inr xs)"
  shows "0 \<le> N \<and> N \<le> int (length ns) \<and> length xs = nat N
    \<and> (\<exists>n s. GetNode eokr st ns token = Inr n \<and> s < length ns \<and> ns ! s = n
           \<and> xs = take (nat N) (rotate s ns))"
proof -
  have N: "0 \<le> N" "N \<le> int (length ns)" using assms by (auto simp: GetNNode_def Let_def split: if_splits)
  then obtain n where n: "GetNode eokr st ns token = Inr n"
    using assms by (auto simp: GetNNode_eq split: sum.splits)
  with start_loop_GetNode [of 0 eokr st token ns] obtain j where
    j: "j < length ns" "start_loop eokr st token 0 ns = int j" "ns ! j = n" by auto
  have "xs = map (\<lambda>i. ns ! ((j + i) mod length ns)) [0..<nat N]"
    using assms N by (simp add: GetNNode_eq n j Let_def)
  then have xs: "xs = take (nat N) (rotate j ns)" using N by (simp add: walk_rotate)
  then have "length xs = nat N" using N by simp
  with N n j xs show ?thesis by blast
qed

lemma GetNNode_hd:
  assumes "GetNNode eokr st ns token N = Ret (Inr xs)" and "0 < N"
  shows "xs \<noteq> [] \<and> GetNode eokr st ns token = Inr (hd xs)"
proof -
  from GetNNode_Inr [OF assms(1)] obtain n s where
    *: "length xs = nat N" "GetNode eokr st ns token = Inr n" "s < length ns" "ns ! s = n"
      "xs = take (nat N) (rotate s ns)" by blast
  then have "xs \<noteq> []" using assms(2) by auto
  moreover from this have "hd xs = n" using * assms(2)
    by (simp add: hd_conv_nth nth_rotate)
  ultimately show ?thesis using * by simp
qed

subsection \<open>Every node computes the same ring\<close>

lemma sorted_nodes_unique:
  assumes "mset (map snd m1) = mset (map snd m2)" and "distinct (map eokr (map snd m1))"
  shows "sort_slice c1 eokr (MapToArr d1 m1) = sort_slice c2 eokr (MapToArr d2 m2)"
proof (rule sort_slice_unique)
  show "distinct (map eokr (MapToArr d1 m1))" using assms(2) by (simp add: MapToArr_eq)
  show "mset (sort_slice c2 eokr (MapToArr d2 m2)) = mset (MapToArr d1 m1)" using assms(1) by simp
qed simp

end
