(* ===== verification/Ring_Props.thy ===== *)
theory Ring_Props
  imports Ring
begin

section \<open>Properties of the ring\<close>

text \<open>
  Routing by the functions of \<open>Ring\<close>: every key has an owner when the greatest token is served,
  the ranges partition the tokens, a new node takes over one range and nothing else, the replica
  list is the owner and its successors, and all nodes that know the same members route alike. Also
  the helpers the handlers use on their inputs: the parsing of tokens and the random choice.
\<close>

lemma GetNode_owner_iff:
  assumes "sorted (map eokr ns)" "inj_on eokr (set ns)"
  shows "GetNode eokr st ns t = Inr n \<longleftrightarrow> is_owner eokr st (set ns) t n"
proof
  assume n: "is_owner eokr st (set ns) t n"
  then have "\<not> (\<forall>m \<in> set ns. \<not> is_candidate eokr st t m)" by (auto simp: is_owner_def)
  then obtain m where m: "GetNode eokr st ns t = Inr m"
    using GetNode_sorted(2) [OF assms(1), of st t] by (cases "GetNode eokr st ns t") auto
  have "m = n"
    by (rule is_owner_unique [OF GetNode_sorted(1) [OF assms(1) m] n assms(2)])
  with m show "GetNode eokr st ns t = Inr n" by simp
qed (rule GetNode_sorted(1) [OF assms(1)])

lemma sorted_nth_le:
  "sorted (map f ns) \<Longrightarrow> i \<le> j \<Longrightarrow> j < length ns \<Longrightarrow> f (ns ! i) \<le> f (ns ! j)"
  using sorted_nth_mono [of "map f ns" i j] by simp

lemma distinct_map_inj_on: "distinct (map f xs) \<Longrightarrow> inj_on f (set xs)"
  by (simp add: distinct_map)

definition sample_ring :: "StorageNode list" where
  "sample_ring =
     [\<lparr>sId = ''a'', sEndOfKeyRange = 100, sHost = ''h1'', sState = AVAILABLE\<rparr>,
      \<lparr>sId = ''b'', sEndOfKeyRange = 200, sHost = ''h2'', sState = AVAILABLE\<rparr>,
      \<lparr>sId = ''c'', sEndOfKeyRange = TOTAL_SLOTS, sHost = ''h3'', sState = AVAILABLE\<rparr>]"

lemma sample_ring_facts:
  "sorted (map sEndOfKeyRange sample_ring)" "distinct (map sEndOfKeyRange sample_ring)"
  "\<forall>n \<in> set sample_ring. sState n = AVAILABLE" "length sample_ring = 3"
  by (simp_all add: sample_ring_def TOTAL_SLOTS_def)

subsection \<open>Ownership\<close>

text \<open>
  C15. Every key has a token below the greatest one, computed without a panic; and if the sorted
  slice of nodes has an available one whose range ends at the greatest token, the lookup of that
  token finds a node: the available node with the least range end above the token.
\<close>

theorem every_key_has_an_owner:
  assumes "sorted (map eokr ns)" "m \<in> set ns" "st m = AVAILABLE" "eokr m = TOTAL_SLOTS"
  shows "\<exists>token n. HashKey key TOTAL_SLOTS = Ret token \<and> token < TOTAL_SLOTS
    \<and> GetNode eokr st ns token = Inr n \<and> is_owner eokr st (set ns) token n"
proof -
  have "is_candidate eokr st (token_of key) m"
    using assms(3,4) token_of_less by (simp add: is_candidate_def)
  then obtain n where n: "GetNode eokr st ns (token_of key) = Inr n"
    using GetNode_sorted(2) [OF assms(1), of st "token_of key"] assms(2)
    by (cases "GetNode eokr st ns (token_of key)") auto
  with GetNode_sorted(1) [OF assms(1) n] token_of_less show ?thesis by auto
qed

lemma every_key_has_an_owner_witness:
  "\<exists>token n. HashKey ''user:1'' TOTAL_SLOTS = Ret token \<and> token < TOTAL_SLOTS
    \<and> GetNode sEndOfKeyRange sState sample_ring token = Inr n
    \<and> is_owner sEndOfKeyRange sState (set sample_ring) token n"
  by (rule every_key_has_an_owner [of _ _ "sample_ring ! 2"])
     (simp_all add: sample_ring_facts, simp_all add: sample_ring_def)

text \<open>
  C16. The ranges partition the tokens: in a sorted slice of available nodes with distinct range
  ends, node \<open>j\<close> owns exactly the tokens from the range end of its predecessor (0 for the first
  node) up to, but not including, its own range end.
\<close>

theorem GetNode_ranges:
  assumes "sorted (map eokr ns)" "distinct (map eokr ns)" "\<forall>n \<in> set ns. st n = AVAILABLE"
    and "j < length ns"
  shows "GetNode eokr st ns token = Inr (ns ! j) \<longleftrightarrow>
    (if j = 0 then 0 else eokr (ns ! (j - 1))) \<le> token \<and> token < eokr (ns ! j)"
proof -
  have iff: "GetNode eokr st ns token = Inr (ns ! j) \<longleftrightarrow> is_owner eokr st (set ns) token (ns ! j)"
    by (rule GetNode_owner_iff [OF assms(1) distinct_map_inj_on [OF assms(2)]])
  have "is_owner eokr st (set ns) token (ns ! j) \<longleftrightarrow>
    token < eokr (ns ! j) \<and> (\<forall>i < length ns. token < eokr (ns ! i) \<longrightarrow> eokr (ns ! j) \<le> eokr (ns ! i))"
    using assms(3,4) by (auto simp: is_owner_def is_candidate_def all_set_conv_all_nth)
  also have "\<dots> \<longleftrightarrow> token < eokr (ns ! j) \<and> (j = 0 \<or> eokr (ns ! (j - 1)) \<le> token)"
  proof (intro conj_cong refl iffI)
    assume least: "\<forall>i < length ns. token < eokr (ns ! i) \<longrightarrow> eokr (ns ! j) \<le> eokr (ns ! i)"
    show "j = 0 \<or> eokr (ns ! (j - 1)) \<le> token"
    proof (rule disjCI)
      assume above: "\<not> eokr (ns ! (j - 1)) \<le> token"
      show "j = 0"
      proof (rule ccontr)
        assume "j \<noteq> 0"
        have "eokr (ns ! (j - 1)) \<le> eokr (ns ! j)"
          using sorted_nth_le [OF assms(1), of "j - 1" j] assms(4) by simp
        moreover have "eokr (ns ! j) \<le> eokr (ns ! (j - 1))"
          using least above assms(4) by simp
        ultimately have "eokr (ns ! (j - 1)) = eokr (ns ! j)" by simp
        then show False
          using assms(2,4) \<open>j \<noteq> 0\<close> by (simp add: distinct_conv_nth)
      qed
    qed
  next
    assume low: "j = 0 \<or> eokr (ns ! (j - 1)) \<le> token"
    show "\<forall>i < length ns. token < eokr (ns ! i) \<longrightarrow> eokr (ns ! j) \<le> eokr (ns ! i)"
    proof (intro allI impI)
      fix i assume i: "i < length ns" "token < eokr (ns ! i)"
      have "j \<le> i"
      proof (rule ccontr)
        assume "\<not> j \<le> i"
        then have "eokr (ns ! i) \<le> eokr (ns ! (j - 1))"
          using sorted_nth_le [OF assms(1), of i "j - 1"] assms(4) by simp
        with low i(2) \<open>\<not> j \<le> i\<close> show False by auto
      qed
      then show "eokr (ns ! j) \<le> eokr (ns ! i)" using sorted_nth_le [OF assms(1)] i(1) by blast
    qed
  qed
  finally show ?thesis using iff by auto
qed

lemma GetNode_ranges_witness:
  "GetNode sEndOfKeyRange sState sample_ring 150 = Inr (sample_ring ! 1)"
  using GetNode_ranges [OF sample_ring_facts(1,2,3), of 1 150]
  by (simp add: sample_ring_def)

text \<open>
  C35. Adding a node moves one range: if a sorted slice differs from another by one more node \<open>x\<close>
  (range ends distinct), a token is now owned by \<open>x\<close> if \<open>x\<close> is available, ends above the token and
  ends below the previous owner, and by its previous owner otherwise.
\<close>

theorem adding_a_node_moves_one_range:
  assumes "sorted (map eokr ns)" "sorted (map eokr ns')" "distinct (map eokr ns')"
    and "mset ns' = add_mset x (mset ns)"
  shows "GetNode eokr st ns' token =
    (if is_candidate eokr st token x
        \<and> (case GetNode eokr st ns token of Inr n \<Rightarrow> eokr x < eokr n | Inl e \<Rightarrow> True)
     then Inr x else GetNode eokr st ns token)"
proof -
  have set: "set ns' = insert x (set ns)" using arg_cong [OF assms(4), of set_mset] by simp
  have "mset (map eokr ns') = add_mset (eokr x) (mset (map eokr ns))" using assms(4) by simp
  then have x: "eokr x \<notin> eokr ` set ns" and d: "distinct (map eokr ns)"
    using assms(3) mset_eq_imp_distinct_iff [of "map eokr ns'" "eokr x # map eokr ns"] by auto
  note iff' = GetNode_owner_iff [OF assms(2) distinct_map_inj_on [OF assms(3)], of st token]
  note iff = GetNode_owner_iff [OF assms(1) distinct_map_inj_on [OF d], of st token]
  show ?thesis
  proof (cases "GetNode eokr st ns token")
    case (Inl e)
    then have none: "e = ErrNoNodeWithRequiredEndOfKeyRange"
      "\<forall>n \<in> set ns. \<not> is_candidate eokr st token n"
      using GetNode_sorted(2) [OF assms(1), of st token e] by auto
    show ?thesis
    proof (cases "is_candidate eokr st token x")
      case True
      then have "is_owner eokr st (set ns') token x" using none by (auto simp: is_owner_def set)
      then show ?thesis using iff' Inl True by simp
    next
      case False
      then show ?thesis using GetNode_sorted(2) [OF assms(2), of st token e] none Inl by (auto simp: set)
    qed
  next
    case (Inr n)
    then have n: "is_owner eokr st (set ns) token n" using iff by simp
    then have "eokr x \<noteq> eokr n" using x by (auto simp: is_owner_def)
    then consider "is_candidate eokr st token x" "eokr x < eokr n"
      | "\<not> (is_candidate eokr st token x \<and> eokr x < eokr n)"
        "is_candidate eokr st token x \<Longrightarrow> eokr n \<le> eokr x" by fastforce
    then show ?thesis
    proof cases
      case 1
      then have "is_owner eokr st (set ns') token x" using n by (auto simp: is_owner_def set)
      then show ?thesis using iff' Inr 1 by simp
    next
      case 2
      then have "is_owner eokr st (set ns') token n" using n by (auto simp: is_owner_def set)
      then show ?thesis using iff' Inr 2(1) by auto
    qed
  qed
qed

lemma adding_a_node_moves_one_range_witness:
  "GetNode sEndOfKeyRange sState sample_ring 150 = Inr (sample_ring ! 1)
   \<and> GetNode sEndOfKeyRange sState sample_ring 250
       = GetNode sEndOfKeyRange sState [sample_ring ! 0, sample_ring ! 2] 250"
proof -
  have "sorted (map sEndOfKeyRange [sample_ring ! 0, sample_ring ! 2])"
    "mset sample_ring = add_mset (sample_ring ! 1) (mset [sample_ring ! 0, sample_ring ! 2])"
    by (simp_all add: sample_ring_def TOTAL_SLOTS_def)
  note moved = adding_a_node_moves_one_range [OF this(1) sample_ring_facts(1,2) this(2), of sState]
  show ?thesis using moved [of 150] moved [of 250]
    by (simp add: sample_ring_def is_candidate_def TOTAL_SLOTS_def)
qed

subsection \<open>Replicas\<close>

text \<open>
  C17. \<open>GetNNode\<close> for \<open>N\<close> nodes (with \<open>N\<close> positive): it fails exactly when there are fewer than
  \<open>N\<close> nodes or no candidate for the token, and never panics; otherwise it returns \<open>N\<close> nodes, the
  owner that \<open>GetNode\<close> finds first and then its successors in the order of the slice, wrapping
  round at its end, so no node appears twice in the answer if none does in the slice.
\<close>

theorem GetNNode_contract:
  assumes "0 < N"
  shows "case GetNNode eokr st ns token N of
      Panic p \<Rightarrow> False
    | Ret (Inl e) \<Rightarrow>
        (e = ErrNotEnoughNodes \<and> int (length ns) < N)
        \<or> (N \<le> int (length ns) \<and> GetNode eokr st ns token = Inl e)
    | Ret (Inr xs) \<Rightarrow>
        N \<le> int (length ns) \<and> int (length xs) = N
        \<and> GetNode eokr st ns token = Inr (hd xs)
        \<and> (\<exists>s < length ns. xs = take (nat N) (rotate s ns))
        \<and> (distinct ns \<longrightarrow> distinct xs)"
proof (cases "GetNNode eokr st ns token N")
  case (Panic p)
  then show ?thesis using assms by (auto simp: GetNNode_eq Let_def split: if_splits sum.splits)
next
  case (Ret r)
  show ?thesis
  proof (cases r)
    case (Inl e)
    then show ?thesis using Ret assms by (auto simp: GetNNode_eq Let_def split: if_splits sum.splits)
  next
    case (Inr xs)
    from GetNNode_Inr [OF Ret [unfolded Inr]] obtain s where
      "N \<le> int (length ns)" "length xs = nat N" "s < length ns" "xs = take (nat N) (rotate s ns)"
      by blast
    then show ?thesis
      using GetNNode_hd [OF Ret [unfolded Inr] assms] Ret Inr assms by auto
  qed
qed

lemma GetNNode_contract_witness:
  "GetNNode sEndOfKeyRange sState sample_ring 250 2 = Ret (Inr [sample_ring ! 2, sample_ring ! 0])
   \<and> int (length [sample_ring ! 2, sample_ring ! 0]) = 2"
proof -
  have "GetNNode sEndOfKeyRange sState sample_ring 250 2
      = Ret (Inr [sample_ring ! 2, sample_ring ! 0])"
    by (simp add: GetNNode_def collect_loop.simps sample_ring_def TOTAL_SLOTS_def)
  with GetNNode_contract [where N = 2 and eokr = sEndOfKeyRange and st = sState and ns = sample_ring
      and token = 250] show ?thesis by simp
qed

text \<open>
  Nodes that know the same members route alike: if two maps hold the same entries, with
  distinct range ends, then whatever the iteration orders and the ties of the sorts, the two nodes
  compute the same owner and the same replicas for every token.
\<close>

theorem same_members_route_alike:
  assumes "mset (map snd m1) = mset (map snd m2)" "distinct (map eokr (map snd m1))"
  shows "GetNode eokr st (SortNodeInPlace c1 eokr (MapToArr d1 m1)) token
      = GetNode eokr st (SortNodeInPlace c2 eokr (MapToArr d2 m2)) token
    \<and> GetNNode eokr st (SortNodeInPlace c1 eokr (MapToArr d1 m1)) token N
      = GetNNode eokr st (SortNodeInPlace c2 eokr (MapToArr d2 m2)) token N"
  unfolding SortNodeInPlace_def sorted_nodes_unique [OF assms, of c1 d1 c2 d2] by simp

lemma same_members_route_alike_witness:
  "GetNNode sEndOfKeyRange sState
     (SortNodeInPlace [1] sEndOfKeyRange (MapToArr [2] (zip [''a'', ''b'', ''c''] sample_ring))) 7 2
   = GetNNode sEndOfKeyRange sState
     (SortNodeInPlace [] sEndOfKeyRange (MapToArr [] (zip [''c'', ''b'', ''a''] (rev sample_ring)))) 7 2"
proof -
  have "mset (map snd (zip [''a'', ''b'', ''c''] sample_ring))
      = mset (map snd (zip [''c'', ''b'', ''a''] (rev sample_ring)))"
    "distinct (map sEndOfKeyRange (map snd (zip [''a'', ''b'', ''c''] sample_ring)))"
    by (simp_all add: sample_ring_def TOTAL_SLOTS_def)
  from same_members_route_alike [OF this] show ?thesis by blast
qed

lemma follower_loop_find:
  "follower_loop eokr st e ns = find (\<lambda>n. eokr n < e \<and> st n = BOOTSTRAPPING) ns"
  by (induction ns) auto

lemma find_rev_sorted_greatest:
  assumes "sorted (map key ns)" "find P (rev ns) = Some n"
  shows "n \<in> set ns \<and> P n \<and> (\<forall>m \<in> set ns. P m \<longrightarrow> key m \<le> key n)"
  using assms
proof (induction ns rule: rev_induct)
  case (snoc x xs)
  then show ?case by (auto simp: sorted_append split: if_splits)
qed simp

text \<open>
  The follower of a range: on a sorted slice, \<open>GetNodeForReplication\<close> returns a bootstrapping
  node with the greatest range end below the given one, and nothing exactly when there is no
  bootstrapping node below it.
\<close>

theorem GetNodeForReplication_greatest:
  assumes "sorted (map eokr ns)"
  shows "case GetNodeForReplication eokr st ns e of
      None \<Rightarrow> \<forall>n \<in> set ns. \<not> (eokr n < e \<and> st n = BOOTSTRAPPING)
    | Some n \<Rightarrow> n \<in> set ns \<and> eokr n < e \<and> st n = BOOTSTRAPPING
        \<and> (\<forall>m \<in> set ns. eokr m < e \<and> st m = BOOTSTRAPPING \<longrightarrow> eokr m \<le> eokr n)"
proof (cases "GetNodeForReplication eokr st ns e")
  case None
  then have "\<forall>n \<in> set ns. \<not> (eokr n < e \<and> st n = BOOTSTRAPPING)"
    by (auto simp: GetNodeForReplication_def follower_loop_find find_None_iff)
  with None show ?thesis by simp
next
  case (Some n)
  with find_rev_sorted_greatest [OF assms, of "\<lambda>n. eokr n < e \<and> st n = BOOTSTRAPPING" n]
  show ?thesis by (simp add: GetNodeForReplication_def follower_loop_find)
qed

lemma GetNodeForReplication_greatest_witness:
  "GetNodeForReplication sEndOfKeyRange sState
     [(sample_ring ! 0)\<lparr>sState := BOOTSTRAPPING\<rparr>, (sample_ring ! 1)\<lparr>sState := BOOTSTRAPPING\<rparr>,
      sample_ring ! 2] TOTAL_SLOTS = Some ((sample_ring ! 1)\<lparr>sState := BOOTSTRAPPING\<rparr>)
   \<and> sEndOfKeyRange ((sample_ring ! 1)\<lparr>sState := BOOTSTRAPPING\<rparr>) < TOTAL_SLOTS"
proof -
  let ?ns = "[(sample_ring ! 0)\<lparr>sState := BOOTSTRAPPING\<rparr>,
    (sample_ring ! 1)\<lparr>sState := BOOTSTRAPPING\<rparr>, sample_ring ! 2]"
  have s: "sorted (map sEndOfKeyRange ?ns)" by (simp add: sample_ring_def TOTAL_SLOTS_def)
  have "GetNodeForReplication sEndOfKeyRange sState ?ns TOTAL_SLOTS
      = Some ((sample_ring ! 1)\<lparr>sState := BOOTSTRAPPING\<rparr>)"
    by (simp add: GetNodeForReplication_def sample_ring_def TOTAL_SLOTS_def)
  with GetNodeForReplication_greatest [OF s, where st = sState and e = TOTAL_SLOTS] show ?thesis by simp
qed

subsection \<open>Inputs\<close>

text \<open>
  \<open>StrToUInt64\<close> accepts exactly the non-empty strings of decimal digits whose value is below
  2^64, and returns that value; so it reads back every token the program prints.
\<close>

theorem StrToUInt64_exact:
  "(StrToUInt64 s = Inr n \<longleftrightarrow>
      s \<noteq> [] \<and> all_digits s \<and> digits_value 0 s < 2 ^ 64 \<and> n = of_nat (digits_value 0 s))
   \<and> StrToUInt64 (show_nat (unat n)) = Inr n"
proof
  show "StrToUInt64 s = Inr n \<longleftrightarrow>
      s \<noteq> [] \<and> all_digits s \<and> digits_value 0 s < 2 ^ 64 \<and> n = of_nat (digits_value 0 s)"
  proof
    assume "StrToUInt64 s = Inr n"
    then have "s \<noteq> [] \<and> all_digits s \<and> unat n = digits_value 0 s"
      by (auto simp: StrToUInt64_def dest: ParseUint_InrD)
    moreover from this have "digits_value 0 s < 2 ^ 64" using unat_less_u64 [of n] by metis
    ultimately show "s \<noteq> [] \<and> all_digits s \<and> digits_value 0 s < 2 ^ 64 \<and> n = of_nat (digits_value 0 s)"
      by (metis word_unat_eq_iff unat_of_nat_u64)
  qed (simp add: StrToUInt64_def ParseUint_digits)
  show "StrToUInt64 (show_nat (unat n)) = Inr n"
    using unat_less_u64 [of n] by (simp add: StrToUInt64_def ParseUint_show_nat)
qed

text \<open>
  \<open>PickNRandom\<close> panics exactly for a negative number and for more elements than there are;
  otherwise its results are the lists of \<open>n\<close> elements taken from different positions, and each of
  them is the result of some permutation.
\<close>

theorem PickNRandom_exact:
  "(returns (PickNRandom c arr n) \<longleftrightarrow> 0 \<le> n \<and> n \<le> int (length arr))
   \<and> ((\<exists>c. PickNRandom c arr n = Ret xs) \<longleftrightarrow>
        0 \<le> n \<and> (\<exists>js. distinct js \<and> set js \<subseteq> {..<length arr} \<and> length js = nat n
                     \<and> xs = map ((!) arr) js))"
proof
  show "returns (PickNRandom c arr n) \<longleftrightarrow> 0 \<le> n \<and> n \<le> int (length arr)"
    by (auto simp: PickNRandom_def Let_def)
  show "(\<exists>c. PickNRandom c arr n = Ret xs) \<longleftrightarrow>
        0 \<le> n \<and> (\<exists>js. distinct js \<and> set js \<subseteq> {..<length arr} \<and> length js = nat n
                     \<and> xs = map ((!) arr) js)"
  proof
    assume "\<exists>c. PickNRandom c arr n = Ret xs"
    then obtain c where c: "PickNRandom c arr n = Ret xs" ..
    let ?p = "permute c [0..<length arr]"
    have n: "0 \<le> n" "nat n \<le> length arr" and xs: "xs = map (\<lambda>i. arr ! (?p ! i)) [0..<nat n]"
      using c by (auto simp: PickNRandom_def Let_def split: if_splits)
    have "xs = map ((!) arr) (take (nat n) ?p)"
      by (rule nth_equalityI) (use n xs in auto)
    moreover have "set (take (nat n) ?p) \<subseteq> {..<length arr}"
      by (auto dest!: in_set_takeD)
    ultimately show "0 \<le> n \<and> (\<exists>js. distinct js \<and> set js \<subseteq> {..<length arr} \<and> length js = nat n
                     \<and> xs = map ((!) arr) js)"
      using n by (intro conjI exI [of _ "take (nat n) ?p"]) auto
  next
    assume "0 \<le> n \<and> (\<exists>js. distinct js \<and> set js \<subseteq> {..<length arr} \<and> length js = nat n
                     \<and> xs = map ((!) arr) js)"
    then obtain js where js: "0 \<le> n" "distinct js" "set js \<subseteq> {..<length arr}" "length js = nat n"
      "xs = map ((!) arr) js" by blast
    let ?rest = "filter (\<lambda>i. i \<notin> set js) [0..<length arr]"
    have "mset (js @ ?rest) = mset [0..<length arr]"
      by (rule set_eq_iff_mset_eq_distinct [THEN iffD1]) (use js in auto)
    then obtain c where c: "permute c [0..<length arr] = js @ ?rest"
      using permute_complete by blast
    have len: "n \<le> int (length arr)"
      using arg_cong [OF c, of length] js(1,4) by simp
    have "map (\<lambda>i. arr ! ((js @ ?rest) ! i)) [0..<nat n] = xs"
      by (rule nth_equalityI) (use js in \<open>auto simp: nth_append\<close>)
    then have "PickNRandom c arr n = Ret xs" using js(1) len by (simp add: PickNRandom_def c Let_def)
    then show "\<exists>c. PickNRandom c arr n = Ret xs" ..
  qed
qed

end
