(* ===== verification/Gossip_Table.thy ===== *)
theory Gossip_Table
  imports DSN_Types
begin

section \<open>The gossip container: gossip/gossip.go\<close>

text \<open>
  \<open>Gossip[K, T]\<close> keeps a map of entries and, beside it, the number of entries in each state. It is
  generic over an entry type with \<open>Clone\<close> and \<open>XState\<close>, which are the first arguments of the
  operations here. Each operation runs under the lock of the container, so each is one step.

  \<open>gossip_wf\<close> is the invariant: distinct keys, and for every state the counter is the number of
  entries in that state. The locale \<open>membership\<close> is the contract a node relies on; its lemmas are
  about any sequence of updates. It is interpreted on the operations at the type the node uses.
\<close>

subsection \<open>State and operations\<close>

record ('k, 'v) Gossip =
  gsStore :: "('k \<times> 'v) list"
  gsStateCount :: "(NodeState \<times> int) list"

definition NewGossip :: "('k, 'v) Gossip" where
  "NewGossip = \<lparr>gsStore = [], gsStateCount = []\<rparr>"

definition Gossip_Get :: "('k, 'v) Gossip \<Rightarrow> 'k \<Rightarrow> 'v option" where
  "Gossip_Get g key = map_of (gsStore g) key"

definition Gossip_Read :: "('v \<Rightarrow> 'v) \<Rightarrow> choice \<Rightarrow> ('k, 'v) Gossip \<Rightarrow> ('k \<times> 'v) list" where
  "Gossip_Read Clone c g =
     fold (\<lambda>(k, v) acc. AList.update k (Clone v) acc) (permute c (gsStore g)) []"

text \<open>\<open>m[s] += d\<close> on a map of counters, where an absent key reads as 0.\<close>

definition count_add :: "NodeState \<Rightarrow> int \<Rightarrow> (NodeState \<times> int) list \<Rightarrow> (NodeState \<times> int) list" where
  "count_add s d m = AList.update s ((case map_of m s of None \<Rightarrow> 0 | Some n \<Rightarrow> n) + d) m"

definition Gossip_Upsert ::
    "('v \<Rightarrow> 'v) \<Rightarrow> ('v \<Rightarrow> NodeState) \<Rightarrow> ('k, 'v) Gossip \<Rightarrow> 'k \<Rightarrow> 'v \<Rightarrow> ('k, 'v) Gossip" where
  "Gossip_Upsert Clone XState g key val =
     (let clone = Clone val;
          oldVal = map_of (gsStore g) key;
          counts = (case oldVal of
                      Some old \<Rightarrow> count_add (XState old) (- 1) (gsStateCount g)
                    | None \<Rightarrow> gsStateCount g)
      in \<lparr>gsStore = AList.update key clone (gsStore g),
          gsStateCount = count_add (XState clone) 1 counts\<rparr>)"

definition Gossip_Size :: "('k, 'v) Gossip \<Rightarrow> int" where
  "Gossip_Size g = int (length (gsStore g))"

definition NumNodeInState :: "('k, 'v) Gossip \<Rightarrow> NodeState \<Rightarrow> int" where
  "NumNodeInState g s = (case map_of (gsStateCount g) s of Some cnt \<Rightarrow> cnt | None \<Rightarrow> 0)"

subsection \<open>Invariant\<close>

definition in_state :: "('v \<Rightarrow> NodeState) \<Rightarrow> NodeState \<Rightarrow> ('k \<times> 'v) list \<Rightarrow> int" where
  "in_state XState s m = int (length (filter (\<lambda>(k, v). XState v = s) m))"

definition gossip_wf :: "('v \<Rightarrow> NodeState) \<Rightarrow> ('k, 'v) Gossip \<Rightarrow> bool" where
  "gossip_wf XState g \<longleftrightarrow>
     distinct (map fst (gsStore g)) \<and> (\<forall>s. NumNodeInState g s = in_state XState s (gsStore g))"

lemma in_state_simps [simp]:
  "in_state XState s [] = 0"
  "in_state XState s ((k, v) # m) = (if XState v = s then 1 else 0) + in_state XState s m"
  by (simp_all add: in_state_def)

lemma map_of_count_add:
  "(case map_of (count_add t d m) s of Some n \<Rightarrow> n | None \<Rightarrow> 0) =
   (case map_of m s of Some n \<Rightarrow> n | None \<Rightarrow> 0) + (if s = t then d else 0)"
  by (auto simp: count_add_def update_conv' split: option.splits)

lemma in_state_update:
  assumes "distinct (map fst m)"
  shows "in_state XState s (AList.update k v m) =
    in_state XState s m + (if XState v = s then 1 else 0)
      - (case map_of m k of Some old \<Rightarrow> if XState old = s then 1 else 0 | None \<Rightarrow> 0)"
  using assms
proof (induction m)
  case (Cons p m)
  obtain k' v' where p: "p = (k', v')" by force
  with Cons.prems have "map_of m k' = None" and "distinct (map fst m)"
    by (auto simp: map_of_eq_None_iff)
  with Cons.IH show ?case by (cases "k' = k") (auto simp: p split: option.splits)
qed simp

lemma gossip_wf_New [simp]: "gossip_wf XState NewGossip"
  by (simp add: gossip_wf_def NewGossip_def NumNodeInState_def)

lemma gossip_wf_Upsert [inv_intros]:
  assumes "gossip_wf XState g"
  shows "gossip_wf XState (Gossip_Upsert Clone XState g key val)"
proof -
  let ?g = "Gossip_Upsert Clone XState g key val"
  have d: "distinct (map fst (gsStore g))"
    and n: "\<And>s. (case map_of (gsStateCount g) s of Some cnt \<Rightarrow> cnt | None \<Rightarrow> 0)
        = in_state XState s (gsStore g)"
    using assms by (auto simp: gossip_wf_def NumNodeInState_def)
  have "NumNodeInState ?g s = in_state XState s (gsStore ?g)" for s
    by (cases "map_of (gsStore g) key")
      (simp_all add: NumNodeInState_def Gossip_Upsert_def Let_def map_of_count_add n in_state_update [OF d])
  moreover have "distinct (map fst (gsStore ?g))"
    by (simp add: Gossip_Upsert_def Let_def distinct_update d)
  ultimately show ?thesis by (simp add: gossip_wf_def)
qed

lemma Get_Upsert [simp]:
  "Gossip_Get (Gossip_Upsert Clone XState g key val) k =
     (if k = key then Some (Clone val) else Gossip_Get g k)"
  by (simp add: Gossip_Get_def Gossip_Upsert_def Let_def update_conv')

lemma Get_New [simp]: "Gossip_Get NewGossip k = None"
  by (simp add: Gossip_Get_def NewGossip_def)

lemma Size_Upsert:
  "Gossip_Size (Gossip_Upsert Clone XState g key val) =
     Gossip_Size g + (if Gossip_Get g key = None then 1 else 0)"
  by (auto simp: Gossip_Size_def Gossip_Upsert_def Gossip_Get_def Let_def length_alist_update
      map_of_eq_None_iff)

lemma Size_zero: "Gossip_Size g = 0 \<longleftrightarrow> (\<forall>k. Gossip_Get g k = None)"
proof (cases "gsStore g")
  case (Cons p m)
  then have "Gossip_Get g (fst p) \<noteq> None" by (cases p) (simp add: Gossip_Get_def)
  then show ?thesis using Cons by (auto simp: Gossip_Size_def)
qed (simp add: Gossip_Size_def Gossip_Get_def)

lemma map_of_Read:
  assumes "gossip_wf XState g"
  shows "map_of (Gossip_Read Clone c g) k = map_option Clone (Gossip_Get g k)"
proof -
  have "distinct (map fst (gsStore g))" using assms by (simp add: gossip_wf_def)
  then show ?thesis
    using map_of_fold_update [of "permute c (gsStore g)" "\<lambda>_. True" Clone "[]" k]
    by (simp add: Gossip_Read_def Gossip_Get_def map_of_permute split: option.splits)
qed

lemma distinct_Read: "distinct (map fst (Gossip_Read Clone c g))"
  using distinct_fold_update [of "[]" "\<lambda>_. True" Clone "permute c (gsStore g)"]
  by (simp add: Gossip_Read_def)

text \<open>\<open>Read\<close> returns the entries of the table, each once, in the order it visits them.\<close>

lemma fold_update_fresh:
  assumes "distinct (map fst (acc @ m))"
  shows "fold (\<lambda>(k, v) acc. AList.update k (f v) acc) m acc = acc @ map (\<lambda>(k, v). (k, f v)) m"
  using assms
proof (induction m arbitrary: acc)
  case (Cons p m)
  obtain k v where p: "p = (k, v)" by force
  have "AList.update k (f v) acc = acc @ [(k, f v)]"
    using Cons.prems by (induction acc) (auto simp: p)
  with Cons show ?case by (simp add: p)
qed simp

lemma Read_id:
  assumes "gossip_wf XState g" and "\<And>v. Clone v = v"
  shows "Gossip_Read Clone c g = permute c (gsStore g)"
proof -
  have "distinct (map fst ([] @ permute c (gsStore g)))" using assms by (simp add: gossip_wf_def)
  from fold_update_fresh [OF this, of Clone] assms(2) show ?thesis by (simp add: Gossip_Read_def)
qed

end
