(* ===== verification/Node_Gossip.thy ===== *)
theory Node_Gossip
  imports Gossip_Table Ring
begin

section \<open>Membership and gossip of a node: nodes/main.go\<close>

text \<open>
  The \<open>Node\<close> of \<open>nodes/main.go\<close> and the part of it that exchanges gossip: \<open>postGossip\<close> (merge the
  entries of another node, then look whether to start bootstrapping), \<open>BroadcastGossip\<close> (stamp the
  own entry and send the whole table to every other node), \<open>getGossip\<close>, \<open>getMetaDataKey\<close>. A
  handler returns the new node, the HTTP status with the body, and the goroutines it starts.

  The loop of \<open>postGossip\<close> is \<open>merge_loop\<close>, over the operations of the container; the locale
  \<open>membership\<close> states what it needs of them and proves what any sequence of merged entries does:
  ids are never forgotten, \<open>LastUpdate\<close> never goes back, and host, key range and replica count of
  a known id never change.
\<close>

subsection \<open>The node\<close>

type_synonym table = "(string, NodeGossip) Gossip"

abbreviation Upsert :: "table \<Rightarrow> string \<Rightarrow> NodeGossip \<Rightarrow> table" where
  "Upsert \<equiv> Gossip_Upsert NodeGossip_Clone NodeGossip_XState"

abbreviation Read :: "choice \<Rightarrow> table \<Rightarrow> (string \<times> NodeGossip) list" where
  "Read \<equiv> Gossip_Read NodeGossip_Clone"

abbreviation table_wf :: "table \<Rightarrow> bool" where
  "table_wf \<equiv> gossip_wf NodeGossip_XState"

record Node =
  nId :: string
  nHost :: string
  nEndOfKeyRange :: u64
  nGossip :: table
  nLastUpdate :: time
  nState :: NodeState
  nReplicaCount :: int
  nGossipMeta :: "int list"

definition Node_XEndOfKeyRange :: "Node \<Rightarrow> u64" where
  "Node_XEndOfKeyRange n = nEndOfKeyRange n"

text \<open>The goroutines a handler starts.\<close>

datatype goroutine = GoBroadcastGossip | GoHandleBootstrapping

subsection \<open>Merging gossip\<close>

fun merge_loop ::
    "('s \<Rightarrow> string \<Rightarrow> NodeGossip option) \<Rightarrow> ('s \<Rightarrow> string \<Rightarrow> NodeGossip \<Rightarrow> 's)
      \<Rightarrow> 's \<Rightarrow> NodeGossip list \<Rightarrow> 's" where
  "merge_loop get upsert s [] = s"
| "merge_loop get upsert s (g # body) =
     merge_loop get upsert
       (case get s (gId g) of
          Some val \<Rightarrow>
            if After (gLastUpdate g) (gLastUpdate val)
            then upsert s (gId g) (val\<lparr>gLastUpdate := gLastUpdate g, gState := gState g\<rparr>)
            else s
        | None \<Rightarrow> upsert s (gId g) g)
       body"

definition changeStateToBootStrappingIfReady :: "Node \<Rightarrow> Node \<times> goroutine list \<times> bool" where
  "changeStateToBootStrappingIfReady n =
     (if nState n \<noteq> JOINING then (n, [], False)
      else (let numNodes = Gossip_Size (nGossip n);
                n1 = n\<lparr>nGossipMeta := nGossipMeta n @ [numNodes]\<rparr>;
                m = nGossipMeta n1; l = length m
            in if 3 \<le> l \<and> m ! (l - 1) = m ! (l - 2) \<and> m ! (l - 2) = m ! (l - 3)
               then (n1\<lparr>nState := BOOTSTRAPPING\<rparr>, [GoBroadcastGossip, GoHandleBootstrapping], True)
               else (n1, [], False)))"

datatype gossip_response = BadGossip error | GossipTable "(string \<times> NodeGossip) list"

definition postGossip ::
    "choice \<Rightarrow> Node \<Rightarrow> NodeGossip list option \<Rightarrow> Node \<times> (nat \<times> gossip_response) \<times> goroutine list" where
  "postGossip c n body =
     (case body of
        None \<Rightarrow> (n, (400, BadGossip BindError), [])
      | Some gs \<Rightarrow>
          (let n1 = n\<lparr>nGossip := merge_loop Gossip_Get Upsert (nGossip n) gs\<rparr>;
               (n2, started, changed) = changeStateToBootStrappingIfReady n1
           in (n2, (200, GossipTable (Read c (nGossip n2))), started)))"

definition getGossip :: "choice \<Rightarrow> Node \<Rightarrow> nat \<times> gossip_response" where
  "getGossip c n = (200, GossipTable (Read c (nGossip n)))"

subsection \<open>Broadcasting\<close>

definition own_entry :: "time \<Rightarrow> Node \<Rightarrow> NodeGossip" where
  "own_entry now n =
     \<lparr>gId = nId n, gHost = nHost n, gEndOfKeyRange = nEndOfKeyRange n, gLastUpdate = now,
      gState = nState n, gReplicaCount = nReplicaCount n\<rparr>"

text \<open>
  The messages of one broadcast: the host and the entries sent to it. The map is copied once
  (choice \<open>c\<close>) and visited twice, for the array (\<open>c1\<close>) and for the sends (\<open>c2\<close>).
\<close>

definition BroadcastGossip ::
    "choice \<Rightarrow> choice \<Rightarrow> choice \<Rightarrow> time \<Rightarrow> Node \<Rightarrow> Node \<times> (string \<times> NodeGossip list) list" where
  "BroadcastGossip c c1 c2 now n =
     (if nId n = [] then (n, [])
      else (let n1 = n\<lparr>nGossip := Upsert (nGossip n) (nId n) (own_entry now n)\<rparr>;
                gossipMap = Read c (nGossip n1);
                gossipArr = map snd (permute c1 gossipMap);
                sends = map (\<lambda>(id, g). (gHost g, gossipArr))
                          (filter (\<lambda>(id, g). id \<noteq> nId n) (permute c2 gossipMap))
            in (n1, sends)))"

subsection \<open>Who owns a key\<close>

datatype key_response = KeyError error | KeyNode NodeGossip

definition getMetaDataKey :: "choice \<Rightarrow> choice \<Rightarrow> choice \<Rightarrow> Node \<Rightarrow> string \<Rightarrow> (nat \<times> key_response) outcome" where
  "getMetaDataKey c c1 c2 n key =
     bind_outcome (HashKey key TOTAL_SLOTS)
       (\<lambda>hash.
          let ar = sort_slice c2 gEndOfKeyRange (MapToArr c1 (Read c (nGossip n)))
          in case GetNode NodeGossip_XEndOfKeyRange NodeGossip_XState ar hash of
               Inl e \<Rightarrow> Ret (200, KeyError e)
             | Inr node \<Rightarrow> Ret (200, KeyNode node))"

subsection \<open>The contract of the table\<close>

text \<open>How an entry may change: only forward in time, and only its time and state.\<close>

definition entry_le :: "NodeGossip \<Rightarrow> NodeGossip \<Rightarrow> bool" where
  "entry_le a b \<longleftrightarrow>
     gId b = gId a \<and> gHost b = gHost a \<and> gEndOfKeyRange b = gEndOfKeyRange a
     \<and> gReplicaCount b = gReplicaCount a \<and> gLastUpdate a \<le> gLastUpdate b
     \<and> (gLastUpdate a = gLastUpdate b \<longrightarrow> b = a)"

lemma entry_le_refl [simp]: "entry_le a a"
  by (simp add: entry_le_def)

lemma entry_le_trans: "entry_le a b \<Longrightarrow> entry_le b c \<Longrightarrow> entry_le a c"
  unfolding entry_le_def by (metis order_antisym order_trans)

text \<open>
  Entries written by the nodes they describe: two entries with one id agree on the fixed fields, and
  are equal when they carry the same time. \<open>newest\<close> is the entry a table should hold.
\<close>

definition authored :: "NodeGossip set \<Rightarrow> bool" where
  "authored A \<longleftrightarrow>
     (\<forall>a \<in> A. \<forall>b \<in> A. gId a = gId b \<longrightarrow>
        gHost a = gHost b \<and> gEndOfKeyRange a = gEndOfKeyRange b
        \<and> gReplicaCount a = gReplicaCount b \<and> (gLastUpdate a = gLastUpdate b \<longrightarrow> a = b))"

definition newest :: "NodeGossip set \<Rightarrow> NodeGossip \<Rightarrow> bool" where
  "newest S b \<longleftrightarrow> b \<in> S \<and> (\<forall>x \<in> S. gLastUpdate x \<le> gLastUpdate b)"

lemma authored_later:
  assumes "authored A" and "a \<in> A" and "b \<in> A" and "gId a = gId b"
  shows "a\<lparr>gLastUpdate := gLastUpdate b, gState := gState b\<rparr> = b"
proof -
  have "gHost a = gHost b" "gEndOfKeyRange a = gEndOfKeyRange b" "gReplicaCount a = gReplicaCount b"
    using assms unfolding authored_def by blast+
  then show ?thesis using assms(4) by (intro NodeGossip.equality) simp_all
qed

lemma newest_drop:
  assumes "authored A" and "a \<in> A" and "b \<in> A" and "gId a = gId b" and "gLastUpdate a \<le> gLastUpdate b"
  shows "newest (insert a (insert b S)) x \<longleftrightarrow> newest (insert b S) x"
proof (cases "a = b")
  case False
  then have "gLastUpdate a < gLastUpdate b"
    using assms by (metis authored_def order_le_imp_less_or_eq)
  then show ?thesis by (fastforce simp: newest_def)
qed simp

locale membership =
  fixes wf :: "'s \<Rightarrow> bool"
    and get :: "'s \<Rightarrow> string \<Rightarrow> NodeGossip option"
    and upsert :: "'s \<Rightarrow> string \<Rightarrow> NodeGossip \<Rightarrow> 's"
  assumes get_upsert: "get (upsert s k g) k' = (if k' = k then Some g else get s k')"
    and wf_upsert: "wf s \<Longrightarrow> wf (upsert s k g)"
begin

lemma wf_merge: "wf s \<Longrightarrow> wf (merge_loop get upsert s body)"
  by (induction body arbitrary: s) (auto simp: wf_upsert split: option.splits)

lemma merge_step_get:
  "get (merge_loop get upsert s [g]) k =
     (if k = gId g
      then (case get s k of
              None \<Rightarrow> Some g
            | Some val \<Rightarrow> Some (if gLastUpdate val < gLastUpdate g
                              then val\<lparr>gLastUpdate := gLastUpdate g, gState := gState g\<rparr> else val))
      else get s k)"
  by (auto simp: get_upsert After_def split: option.splits)

lemma merge_Cons:
  "merge_loop get upsert s (g # body) = merge_loop get upsert (merge_loop get upsert s [g]) body"
  by simp

lemma merge_append:
  "merge_loop get upsert s (xs @ ys) = merge_loop get upsert (merge_loop get upsert s xs) ys"
  by (induction xs arbitrary: s) simp_all

lemma merge_step_le:
  "get s k = Some a \<Longrightarrow> \<exists>b. get (merge_loop get upsert s [g]) k = Some b \<and> entry_le a b"
  by (auto simp: merge_step_get entry_le_def simp del: merge_loop.simps)

lemma merge_entry_le:
  "get s k = Some a \<Longrightarrow> \<exists>b. get (merge_loop get upsert s body) k = Some b \<and> entry_le a b"
proof (induction body arbitrary: s a)
  case (Cons g body)
  obtain a1 where "get (merge_loop get upsert s [g]) k = Some a1" and "entry_le a a1"
    using merge_step_le [OF Cons.prems, of g] by blast
  then show ?case
    using Cons.IH [of "merge_loop get upsert s [g]" a1] entry_le_trans
    by (subst merge_Cons) blast
qed simp

lemma merge_dom:
  "get (merge_loop get upsert s body) k \<noteq> None \<longleftrightarrow> get s k \<noteq> None \<or> k \<in> gId ` set body"
proof (induction body arbitrary: s)
  case (Cons g body)
  have "get (merge_loop get upsert s [g]) k \<noteq> None \<longleftrightarrow> get s k \<noteq> None \<or> k = gId g"
    by (auto simp: merge_step_get simp del: merge_loop.simps split: option.splits)
  then show ?case using Cons.IH [of "merge_loop get upsert s [g]"] by (subst merge_Cons) auto
qed simp

text \<open>What was merged is in the table, or something newer is.\<close>

lemma merge_covers:
  "g \<in> set body \<Longrightarrow>
   \<exists>b. get (merge_loop get upsert s body) (gId g) = Some b \<and> gLastUpdate g \<le> gLastUpdate b"
proof (induction body arbitrary: s)
  case (Cons x body)
  show ?case
  proof (cases "g = x")
    case True
    have "\<exists>a. get (merge_loop get upsert s [g]) (gId g) = Some a \<and> gLastUpdate g \<le> gLastUpdate a"
      by (auto simp: merge_step_get simp del: merge_loop.simps split: option.splits)
    then obtain a where a: "get (merge_loop get upsert s [g]) (gId g) = Some a"
      "gLastUpdate g \<le> gLastUpdate a" by blast
    from merge_entry_le [OF a(1), of body] a(2) True show ?thesis
      by (subst merge_Cons) (auto simp: entry_le_def)
  qed (use Cons in \<open>subst merge_Cons, auto\<close>)
qed simp

text \<open>
  When every entry is authored, a table holds the newest entry it was given for each id, whatever
  the order, the batches and the repetitions in which the entries arrived.
\<close>

lemma merge_newest:
  assumes "authored A" and "\<And>k a. get s k = Some a \<Longrightarrow> a \<in> A \<and> gId a = k" and "set body \<subseteq> A"
  shows "get (merge_loop get upsert s body) k = Some b \<longleftrightarrow>
    newest ({a. get s k = Some a} \<union> {g \<in> set body. gId g = k}) b"
  using assms(2,3)
proof (induction body arbitrary: s)
  case Nil
  then show ?case by (auto simp: newest_def)
next
  case (Cons g body)
  let ?s = "merge_loop get upsert s [g]"
  let ?B = "{g \<in> set body. gId g = k}"
  have g: "g \<in> A" "set body \<subseteq> A" using Cons.prems by auto
  have step: "get ?s k' = Some a \<Longrightarrow> a \<in> A \<and> gId a = k'" for k' a
    using Cons.prems(1) g authored_later [OF assms(1) _ g(1)]
    by (auto simp: merge_step_get simp del: merge_loop.simps split: if_splits option.splits)
  have "newest ({a. get ?s k = Some a} \<union> ?B) b
      \<longleftrightarrow> newest ({a. get s k = Some a} \<union> {g' \<in> set (g # body). gId g' = k}) b"
  proof (cases "k = gId g")
    case False
    then show ?thesis
      by (auto simp: merge_step_get simp del: merge_loop.simps intro!: arg_cong2 [of _ _ _ _ newest])
  next
    case True
    then have B: "{g' \<in> set (g # body). gId g' = k} = insert g ?B" by auto
    show ?thesis
    proof (cases "get s k")
      case None
      with True have "get ?s k = Some g" by (simp add: merge_step_get del: merge_loop.simps)
      then have "{a. get ?s k = Some a} = {g}" and "{a. get s k = Some a} = {}" using None by auto
      then show ?thesis by (simp only: B) simp
    next
      case (Some val)
      then have v: "val \<in> A" "gId val = gId g" using Cons.prems(1) True by auto
      have set1: "{a. Some y = Some a} \<union> S = insert y S" for y and S :: "NodeGossip set" by auto
      show ?thesis
      proof (cases "gLastUpdate val < gLastUpdate g")
        case True
        then have "get ?s k = Some g"
          using Some \<open>k = gId g\<close> authored_later [OF assms(1) v(1) g(1) v(2)]
          by (simp add: merge_step_get del: merge_loop.simps)
        with True show ?thesis
          by (simp only: Some B set1) (simp add: newest_drop [OF assms(1) v(1) g(1) v(2)])
      next
        case False
        then have "get ?s k = Some val"
          using Some \<open>k = gId g\<close> by (simp add: merge_step_get del: merge_loop.simps)
        with False show ?thesis
          by (simp only: Some B set1 insert_commute [of val g])
            (simp add: newest_drop [OF assms(1) g(1) v(1) v(2) [symmetric]])
      qed
    qed
  qed
  then show ?case using Cons.IH [OF step g(2)] by (subst merge_Cons) simp
qed

end

interpretation table: membership table_wf Gossip_Get Upsert
  by unfold_locales (auto intro: gossip_wf_Upsert)

end
