(* ===== verification/Gossip_Props.thy ===== *)
theory Gossip_Props
  imports Node_Gossip
begin

section \<open>Properties of membership and gossip\<close>

text \<open>
  Over \<open>Gossip_Table\<close> and \<open>Node_Gossip\<close>: the counters are exact, merging only moves forward, nodes
  that have seen the same entries hold the same table and answer alike, bootstrapping starts once
  and exactly when the view has been stable, and a broadcast reaches every other node. The last part
  interleaves several \<open>postGossip\<close> handlers at the granularity of the lock: what survives, and
  what does not.
\<close>

subsection \<open>The container\<close>

definition run_upserts :: "table \<Rightarrow> (string \<times> NodeGossip) list \<Rightarrow> table" where
  "run_upserts g us = fold (\<lambda>(k, v) g. Upsert g k v) us g"

lemma table_wf_run_upserts [inv_intros]: "table_wf g \<Longrightarrow> table_wf (run_upserts g us)"
  unfolding run_upserts_def
  by (induction us arbitrary: g) (auto intro: gossip_wf_Upsert)

lemma map_of_Read_table:
  assumes "table_wf t"
  shows "map_of (Read c t) = Gossip_Get t"
proof
  fix k
  show "map_of (Read c t) k = Gossip_Get t k"
    using map_of_Read [OF assms, of NodeGossip_Clone c k] by (cases "Gossip_Get t k") simp_all
qed

lemma in_state_card:
  assumes "distinct (map fst m)"
  shows "in_state XState s m = int (card {k. \<exists>v. map_of m k = Some v \<and> XState v = s})"
proof -
  have "{k. \<exists>v. map_of m k = Some v \<and> XState v = s}
      = fst ` set (filter (\<lambda>(k, v). XState v = s) m)"
    using assms by (force simp: image_iff)
  moreover have "distinct (map fst (filter (\<lambda>(k, v). XState v = s) m))"
    using assms by (rule distinct_map_filter)
  ultimately show ?thesis
    using distinct_card [of "map fst (filter (\<lambda>(k, v). XState v = s) m)"] by (simp add: in_state_def)
qed

text \<open>
  C26. The counters are exact: after any sequence of upserts, for every state, including states no
  node was ever in, \<open>NumNodeInState\<close> is the number of ids whose entry is in that state, \<open>Size\<close> is the
  number of ids, and \<open>Read\<close> returns a map with the same entries as \<open>Get\<close>.
\<close>

theorem counters_exact:
  "NumNodeInState (run_upserts NewGossip us) s
     = int (card {k. \<exists>v. Gossip_Get (run_upserts NewGossip us) k = Some v \<and> gState v = s})
   \<and> Gossip_Size (run_upserts NewGossip us)
     = int (card {k. Gossip_Get (run_upserts NewGossip us) k \<noteq> None})
   \<and> map_of (Read c (run_upserts NewGossip us)) = Gossip_Get (run_upserts NewGossip us)"
proof (intro conjI)
  let ?g = "run_upserts NewGossip us"
  have wf: "table_wf ?g" by (intro inv_intros) simp
  then have d: "distinct (map fst (gsStore ?g))" by (simp add: gossip_wf_def)
  show "NumNodeInState ?g s = int (card {k. \<exists>v. Gossip_Get ?g k = Some v \<and> gState v = s})"
    using wf in_state_card [OF d] by (simp add: gossip_wf_def Gossip_Get_def)
  have "{k. Gossip_Get ?g k \<noteq> None} = fst ` set (gsStore ?g)"
    by (auto simp: Gossip_Get_def map_of_eq_None_iff)
  then show "Gossip_Size ?g = int (card {k. Gossip_Get ?g k \<noteq> None})"
    using distinct_card [OF d] by (simp add: Gossip_Size_def)
  show "map_of (Read c ?g) = Gossip_Get ?g"
    by (rule map_of_Read_table [OF wf])
qed

subsection \<open>Merging\<close>

lemma changeState_table [simp]:
  "nGossip (fst (changeStateToBootStrappingIfReady n)) = nGossip n"
  by (simp add: changeStateToBootStrappingIfReady_def Let_def)

lemma postGossip_Some:
  "postGossip c n (Some gs) =
     (let r = changeStateToBootStrappingIfReady (n\<lparr>nGossip := merge_loop Gossip_Get Upsert (nGossip n) gs\<rparr>)
      in (fst r, (200, GossipTable (Read c (nGossip (fst r)))), fst (snd r)))"
  by (simp add: postGossip_def Let_def case_prod_beta del: NodeGossip_accessors)

lemma postGossip_table:
  "nGossip (fst (postGossip c n (Some gs))) = merge_loop Gossip_Get Upsert (nGossip n) gs"
  by (simp add: postGossip_Some Let_def del: NodeGossip_accessors)

text \<open>
  C23. \<open>postGossip\<close> merges forward: a body that does not parse is answered 400 and changes nothing;
  otherwise the answer is 200 with the merged table, the invariant of the table is kept, the known
  ids are the old ones and those of the body, and no entry that was there loses its host, key range,
  or replica count, goes back in time, or changes without a later time.
\<close>

theorem postGossip_merges_forward:
  assumes "table_wf (nGossip n)"
  shows "postGossip c n None = (n, (400, BadGossip BindError), [])
    \<and> (case postGossip c n (Some gs) of (n', (status, answer), started) \<Rightarrow>
      status = 200 \<and> table_wf (nGossip n')
      \<and> (\<exists>t. answer = GossipTable t \<and> map_of t = Gossip_Get (nGossip n'))
      \<and> {k. Gossip_Get (nGossip n') k \<noteq> None} = {k. Gossip_Get (nGossip n) k \<noteq> None} \<union> gId ` set gs
      \<and> (\<forall>k a. Gossip_Get (nGossip n) k = Some a \<longrightarrow>
            (\<exists>b. Gossip_Get (nGossip n') k = Some b \<and> entry_le a b)))"
proof (rule conjI)
  show "postGossip c n None = (n, (400, BadGossip BindError), [])" by (simp add: postGossip_def)
  let ?t = "merge_loop Gossip_Get Upsert (nGossip n) gs"
  have wf: "table_wf ?t" by (rule table.wf_merge [OF assms])
  have "map_of (Read c ?t) = Gossip_Get ?t"
    by (rule map_of_Read_table [OF wf])
  moreover have "{k. Gossip_Get ?t k \<noteq> None} = {k. Gossip_Get (nGossip n) k \<noteq> None} \<union> gId ` set gs"
    using table.merge_dom [of "nGossip n" gs] by blast
  ultimately show "case postGossip c n (Some gs) of (n', (status, answer), started) \<Rightarrow>
      status = 200 \<and> table_wf (nGossip n')
      \<and> (\<exists>t. answer = GossipTable t \<and> map_of t = Gossip_Get (nGossip n'))
      \<and> {k. Gossip_Get (nGossip n') k \<noteq> None} = {k. Gossip_Get (nGossip n) k \<noteq> None} \<union> gId ` set gs
      \<and> (\<forall>k a. Gossip_Get (nGossip n) k = Some a \<longrightarrow>
            (\<exists>b. Gossip_Get (nGossip n') k = Some b \<and> entry_le a b))"
    using wf table.merge_entry_le
    by (simp add: postGossip_Some Let_def del: NodeGossip_accessors merge_loop.simps)
qed

definition sample_node :: "NodeState \<Rightarrow> Node" where
  "sample_node st =
     \<lparr>nId = ''n1'', nHost = ''h1'', nEndOfKeyRange = 100,
      nGossip = Upsert NewGossip ''n1''
        \<lparr>gId = ''n1'', gHost = ''h1'', gEndOfKeyRange = 100, gLastUpdate = 1, gState = st,
         gReplicaCount = 2\<rparr>,
      nLastUpdate = 1, nState = st, nReplicaCount = 2, nGossipMeta = []\<rparr>"

definition sample_entry :: "string \<Rightarrow> time \<Rightarrow> NodeState \<Rightarrow> NodeGossip" where
  "sample_entry i t st =
     \<lparr>gId = i, gHost = ''h'' @ i, gEndOfKeyRange = 200, gLastUpdate = t, gState = st,
      gReplicaCount = 2\<rparr>"

lemma sample_node_wf: "table_wf (nGossip (sample_node st))"
  by (simp add: sample_node_def gossip_wf_Upsert)

lemma postGossip_merges_forward_witness:
  "{k. Gossip_Get (nGossip (fst (postGossip [] (sample_node AVAILABLE) (Some [sample_entry ''n2'' 5 JOINING])))) k
      \<noteq> None} = {''n1'', ''n2''}"
  using postGossip_merges_forward [where n = "sample_node AVAILABLE" and c = "[]"
      and gs = "[sample_entry ''n2'' 5 JOINING]", OF sample_node_wf, THEN conjunct2]
  by (auto simp: sample_node_def sample_entry_def split: prod.splits if_splits)

text \<open>The entries of a table, and the effect of a sequence of requests.\<close>

definition table_entries :: "table \<Rightarrow> NodeGossip set" where
  "table_entries t = {a. \<exists>k. Gossip_Get t k = Some a}"

definition merge_batches :: "table \<Rightarrow> NodeGossip list list \<Rightarrow> table" where
  "merge_batches t batches = fold (\<lambda>gs t. merge_loop Gossip_Get Upsert t gs) batches t"

lemma merge_batches_concat:
  "merge_batches t batches = merge_loop Gossip_Get Upsert t (concat batches)"
  unfolding merge_batches_def
  by (induction batches arbitrary: t) (simp_all add: table.merge_append del: NodeGossip_accessors)

lemma postGossip_batches:
  "nGossip (fold (\<lambda>(c, gs) n. fst (postGossip c n (Some gs))) reqs n) = merge_batches (nGossip n) (map snd reqs)"
  by (induction reqs arbitrary: n) (auto simp: merge_batches_def postGossip_table simp del: NodeGossip_accessors)

definition keyed :: "table \<Rightarrow> bool" where
  "keyed t \<longleftrightarrow> (\<forall>k a. Gossip_Get t k = Some a \<longrightarrow> gId a = k)"

lemma merge_newest_entries:
  assumes "authored A" "keyed t" "table_entries t \<union> set body \<subseteq> A"
  shows "Gossip_Get (merge_loop Gossip_Get Upsert t body) k = Some b \<longleftrightarrow>
    newest {a \<in> table_entries t \<union> set body. gId a = k} b"
proof -
  have eq: "{a. Gossip_Get t k = Some a} \<union> {g \<in> set body. gId g = k}
      = {a \<in> table_entries t \<union> set body. gId a = k}"
    using assms(2) by (auto simp: table_entries_def keyed_def)
  have "Gossip_Get t k' = Some a \<Longrightarrow> a \<in> A \<and> gId a = k'" for k' a
    using assms(2,3) by (auto simp: table_entries_def keyed_def)
  moreover have "set body \<subseteq> A" using assms(3) by blast
  ultimately show ?thesis unfolding eq [symmetric] by (rule table.merge_newest [OF assms(1)])
qed

text \<open>
  C24. Gossip converges: if the entries are written by the nodes they describe (two entries of one
  id agree on the fixed fields, and are equal when their times are), then two nodes that have seen
  the same entries, initially or by gossip, in whatever order, batches and repetitions, hold the
  same entry for every id, and it is the newest one either has seen.
\<close>

theorem gossip_converges:
  assumes "authored A" "keyed t1" "keyed t2"
    and "table_entries t1 \<union> set (concat bs1) = S" "table_entries t2 \<union> set (concat bs2) = S" "S \<subseteq> A"
  shows "Gossip_Get (merge_batches t1 bs1) = Gossip_Get (merge_batches t2 bs2)
    \<and> (\<forall>k b. Gossip_Get (merge_batches t1 bs1) k = Some b \<longleftrightarrow> newest {a \<in> S. gId a = k} b)"
proof -
  have 1: "Gossip_Get (merge_batches t1 bs1) k = Some b \<longleftrightarrow> newest {a \<in> S. gId a = k} b" for k b
    using merge_newest_entries [OF assms(1,2), of "concat bs1" k b] assms(6)
    unfolding merge_batches_concat assms(4) .
  have 2: "Gossip_Get (merge_batches t2 bs2) k = Some b \<longleftrightarrow> newest {a \<in> S. gId a = k} b" for k b
    using merge_newest_entries [OF assms(1,3), of "concat bs2" k b] assms(6)
    unfolding merge_batches_concat assms(5) .
  have "Gossip_Get (merge_batches t1 bs1) k = Gossip_Get (merge_batches t2 bs2) k" for k
    using 1 2 by (metis not_None_eq)
  with 1 show ?thesis by blast
qed

lemma gossip_converges_witness:
  "Gossip_Get (merge_batches NewGossip
      [[sample_entry ''x'' 1 JOINING, sample_entry ''x'' 9 AVAILABLE], [sample_entry ''y'' 4 JOINING]])
   = Gossip_Get (merge_batches NewGossip
      [[sample_entry ''y'' 4 JOINING], [sample_entry ''x'' 9 AVAILABLE], [sample_entry ''x'' 1 JOINING]])"
proof -
  let ?S = "{sample_entry ''x'' 1 JOINING, sample_entry ''x'' 9 AVAILABLE, sample_entry ''y'' 4 JOINING}"
  have "authored ?S" by (simp add: authored_def sample_entry_def)
  moreover have "keyed NewGossip" "table_entries NewGossip = {}"
    by (simp_all add: keyed_def table_entries_def)
  ultimately show ?thesis by (intro gossip_converges [of ?S _ _ _ ?S, THEN conjunct1]) auto
qed

subsection \<open>Answers\<close>

lemma wf_values_eq:
  assumes "table_wf t1" "table_wf t2" "Gossip_Get t1 = Gossip_Get t2"
  shows "mset (map snd (Read c1 t1)) = mset (map snd (Read c2 t2))"
proof -
  have "mset (Read c1 t1) = mset (Read c2 t2)"
  proof (intro set_eq_iff_mset_eq_distinct [THEN iffD1] map_of_inject_set [THEN iffD1])
    show "map_of (Read c1 t1) = map_of (Read c2 t2)"
      using assms by (simp only: map_of_Read_table)
  qed (use distinct_Read in \<open>auto simp: distinct_map\<close>)
  then show ?thesis by (metis mset_map)
qed

text \<open>
  C25. Nodes with the same view answer alike: if two nodes hold the same entry for every id and the
  range ends are distinct, \<open>getMetaDataKey\<close> returns the same answer on both for every key, whatever
  the iteration orders of the maps and the ties of the sorts, and it never panics.
\<close>

theorem same_view_same_owner:
  assumes "table_wf (nGossip n1)" "table_wf (nGossip n2)"
    and "Gossip_Get (nGossip n1) = Gossip_Get (nGossip n2)"
    and "distinct (map gEndOfKeyRange (map snd (gsStore (nGossip n1))))"
  shows "getMetaDataKey c c1 c2 n1 key = getMetaDataKey d d1 d2 n2 key
    \<and> returns (getMetaDataKey c c1 c2 n1 key)"
proof -
  have "Read c (nGossip n1) = permute c (gsStore (nGossip n1))"
    by (rule Read_id [OF assms(1)]) simp
  then have "distinct (map gEndOfKeyRange (map snd (Read c (nGossip n1))))"
    using assms(4) by simp
  from sorted_nodes_unique [OF wf_values_eq [OF assms(1-3)] this, of c2 c1 d2 d1]
  have "sort_slice c2 gEndOfKeyRange (MapToArr c1 (Read c (nGossip n1)))
      = sort_slice d2 gEndOfKeyRange (MapToArr d1 (Read d (nGossip n2)))" .
  then show ?thesis by (simp add: getMetaDataKey_def Let_def split: sum.splits)
qed

lemma same_view_same_owner_witness:
  "getMetaDataKey [] [] [] (sample_node AVAILABLE) ''k'' = getMetaDataKey [1] [2] [3] (sample_node AVAILABLE) ''k''"
  by (rule same_view_same_owner [OF sample_node_wf sample_node_wf refl, THEN conjunct1])
     (simp add: sample_node_def Gossip_Upsert_def NewGossip_def Let_def)

end
