(* ===== verification/Gossip_Concurrency.thy ===== *)
theory Gossip_Concurrency
  imports Gossip_Props
begin

section \<open>Bootstrap trigger, broadcasts and interleaved merges\<close>

text \<open>
  When a node leaves \<open>JOINING\<close>, what a broadcast sends and what its receiver then knows, and
  \<open>postGossip\<close> handlers interleaved at their lock acquisitions: \<open>Get\<close> and \<open>Upsert\<close> of the container
  are two critical sections, so an update computed from an old read can overwrite a newer one. The
  check that makes a node leave \<open>JOINING\<close> takes no lock at all; \<open>ready_next\<close> are its accesses one by one.
\<close>

subsection \<open>Leaving JOINING\<close>

lemma stable_meta:
  "(let m = xs @ [s]; l = length m in 3 \<le> l \<and> m ! (l - 1) = m ! (l - 2) \<and> m ! (l - 2) = m ! (l - 3))
   \<longleftrightarrow> (\<exists>pre. xs = pre @ [s, s])"
proof (cases xs rule: rev_cases)
  case (snoc ys y)
  then show ?thesis
    by (cases ys rule: rev_cases) (auto simp: nth_append Let_def)
qed simp

lemma changeState_eq:
  "changeStateToBootStrappingIfReady n =
     (if nState n \<noteq> JOINING then (n, [], False)
      else if \<exists>pre. nGossipMeta n = pre @ [Gossip_Size (nGossip n), Gossip_Size (nGossip n)]
      then (n\<lparr>nGossipMeta := nGossipMeta n @ [Gossip_Size (nGossip n)], nState := BOOTSTRAPPING\<rparr>,
            [GoBroadcastGossip, GoHandleBootstrapping], True)
      else (n\<lparr>nGossipMeta := nGossipMeta n @ [Gossip_Size (nGossip n)]\<rparr>, [], False))"
  using stable_meta [of "nGossipMeta n" "Gossip_Size (nGossip n)"]
  by (auto simp: changeStateToBootStrappingIfReady_def Let_def)

fun run_posts :: "Node \<Rightarrow> (choice \<times> NodeGossip list option) list \<Rightarrow> Node \<times> goroutine list" where
  "run_posts n [] = (n, [])"
| "run_posts n ((c, body) # reqs) =
     (case postGossip c n body of
        (n1, _, started) \<Rightarrow> (case run_posts n1 reqs of (n2, later) \<Rightarrow> (n2, started @ later)))"

lemma postGossip_not_joining:
  assumes "nState n \<noteq> JOINING"
  shows "nState (fst (postGossip c n body)) = nState n \<and> snd (snd (postGossip c n body)) = []"
  using assms by (cases body) (simp_all add: postGossip_def changeState_eq Let_def)

lemma run_posts_not_joining:
  "nState n \<noteq> JOINING \<Longrightarrow> nState (fst (run_posts n reqs)) = nState n \<and> snd (run_posts n reqs) = []"
proof (induction n reqs rule: run_posts.induct)
  case (2 n c body reqs)
  then show ?case using postGossip_not_joining [OF 2(2), of c body]
    by (auto split: prod.splits)
qed simp

lemma postGossip_joining:
  assumes "nState n = JOINING"
  shows "let r = postGossip c n body in
    nState (fst r) = JOINING \<and> snd (snd r) = []
    \<or> nState (fst r) = BOOTSTRAPPING \<and> snd (snd r) = [GoBroadcastGossip, GoHandleBootstrapping]"
  using assms by (cases body) (simp_all add: postGossip_def changeState_eq Let_def)

lemma run_posts_joining:
  "nState n = JOINING \<Longrightarrow>
     nState (fst (run_posts n reqs)) = JOINING \<and> snd (run_posts n reqs) = []
     \<or> nState (fst (run_posts n reqs)) = BOOTSTRAPPING
       \<and> snd (run_posts n reqs) = [GoBroadcastGossip, GoHandleBootstrapping]"
proof (induction n reqs rule: run_posts.induct)
  case (2 n c body reqs)
  obtain n1 a s where p: "postGossip c n body = (n1, a, s)" by (cases "postGossip c n body") auto
  from postGossip_joining [OF 2(2), of c body] consider
    "nState n1 = JOINING" "s = []"
    | "nState n1 = BOOTSTRAPPING" "s = [GoBroadcastGossip, GoHandleBootstrapping]"
    by (auto simp: p Let_def)
  then show ?case
  proof cases
    case 1
    then show ?thesis using 2(1) [OF p [symmetric] refl] p
      by (auto split: prod.splits)
  next
    case 2
    then show ?thesis using run_posts_not_joining [of n1 reqs] p by (auto split: prod.splits)
  qed
qed simp

text \<open>
  C28. A node starts bootstrapping at most once, and exactly when it leaves \<open>JOINING\<close>: over any
  sequence of gossip requests, good or bad, a joining node ends joining with nothing started, or
  bootstrapping with one broadcast and one bootstrap started; a node in any other state keeps it and
  starts nothing. The requests are handled one after the other; handlers that overlap can start it
  twice (\<open>overlapping_checks_bootstrap_twice\<close>).
\<close>

theorem bootstrap_starts_once:
  "nState (fst (run_posts n reqs)) = nState n \<and> snd (run_posts n reqs) = []
   \<or> nState n = JOINING \<and> nState (fst (run_posts n reqs)) = BOOTSTRAPPING
     \<and> snd (run_posts n reqs) = [GoBroadcastGossip, GoHandleBootstrapping]"
  using run_posts_joining [of n reqs] run_posts_not_joining [of n reqs] by (cases "nState n = JOINING") auto

lemma merge_known_size:
  assumes "\<forall>g \<in> set gs. Gossip_Get t (gId g) \<noteq> None"
  shows "Gossip_Size (merge_loop Gossip_Get Upsert t gs) = Gossip_Size t"
  using assms
proof (induction gs arbitrary: t)
  case (Cons g gs)
  let ?t = "merge_loop Gossip_Get Upsert t [g]"
  obtain val where val: "Gossip_Get t (gId g) = Some val" using Cons.prems by auto
  have "Gossip_Size ?t = Gossip_Size t" using val by (simp add: Size_Upsert)
  moreover have "\<forall>g' \<in> set gs. Gossip_Get ?t (gId g') \<noteq> None"
    using table.merge_dom [of t "[g]"] Cons.prems by (metis list.set_intros(2))
  ultimately show ?case using Cons.IH [of ?t] by (simp only: table.merge_Cons [of t g gs])
qed simp

text \<open>
  C29. A stable view is enough: three gossip requests in a row that name only ids the joining node
  already knows make it start bootstrapping, by the third at the latest, whatever it had recorded.
\<close>

theorem stable_view_bootstraps:
  assumes "nState n = JOINING"
    and "\<forall>g \<in> set ga \<union> set gb \<union> set gc. Gossip_Get (nGossip n) (gId g) \<noteq> None"
  shows "nState (fst (run_posts n [(ca, Some ga), (cb, Some gb), (cc, Some gc)])) = BOOTSTRAPPING
    \<and> GoHandleBootstrapping \<in> set (snd (run_posts n [(ca, Some ga), (cb, Some gb), (cc, Some gc)]))"
proof -
  let ?t1 = "merge_loop Gossip_Get Upsert (nGossip n) ga"
  let ?t2 = "merge_loop Gossip_Get Upsert ?t1 gb"
  let ?t3 = "merge_loop Gossip_Get Upsert ?t2 gc"
  have known1: "Gossip_Get ?t1 k \<noteq> None" if "Gossip_Get (nGossip n) k \<noteq> None" for k
    using that table.merge_dom by blast
  have known2: "Gossip_Get ?t2 k \<noteq> None" if "Gossip_Get (nGossip n) k \<noteq> None" for k
    using known1 [OF that] table.merge_dom by blast
  have s: "Gossip_Size ?t1 = Gossip_Size (nGossip n)" "Gossip_Size ?t2 = Gossip_Size (nGossip n)"
    "Gossip_Size ?t3 = Gossip_Size (nGossip n)"
    using merge_known_size [of ga "nGossip n"] merge_known_size [of gb ?t1]
      merge_known_size [of gc ?t2] assms(2) known1 known2 by auto
  show ?thesis
    using assms(1) s
    by (simp add: postGossip_def changeState_eq Let_def del: NodeGossip_accessors)
qed

lemma stable_view_bootstraps_witness:
  "nState (fst (run_posts (sample_node JOINING) [([], Some []), ([], Some []), ([], Some [])]))
     = BOOTSTRAPPING"
  using stable_view_bootstraps [where n = "sample_node JOINING" and ga = "[]" and gb = "[]" and gc = "[]"
      and ca = "[]" and cb = "[]" and cc = "[]"]
  by (simp add: sample_node_def)


subsection \<open>Overlapping checks\<close>

text \<open>
  \<open>changeStateToBootStrappingIfReady\<close> by its accesses to the shared node, none of them protected: the
  test of the state, the size of the table, the read and the write of the recorded sizes, the
  comparison of the last three, and the change of the state with the start of the two goroutines.
\<close>

datatype ready_pc =
    CheckState
  | ReadSize
  | ReadMeta int
  | WriteMeta "int list"
  | CompareMeta
  | SetState
  | Returned bool

definition ready_next :: "Node \<Rightarrow> ready_pc \<Rightarrow> Node \<times> ready_pc \<times> goroutine list" where
  "ready_next n pc =
     (case pc of
        CheckState \<Rightarrow> (n, if nState n \<noteq> JOINING then Returned False else ReadSize, [])
      | ReadSize \<Rightarrow> (n, ReadMeta (Gossip_Size (nGossip n)), [])
      | ReadMeta numNodes \<Rightarrow> (n, WriteMeta (nGossipMeta n @ [numNodes]), [])
      | WriteMeta m \<Rightarrow> (n\<lparr>nGossipMeta := m\<rparr>, CompareMeta, [])
      | CompareMeta \<Rightarrow>
          (let m = nGossipMeta n; l = length m
           in (n, if 3 \<le> l \<and> m ! (l - 1) = m ! (l - 2) \<and> m ! (l - 2) = m ! (l - 3) then SetState
                  else Returned False, []))
      | SetState \<Rightarrow> (n\<lparr>nState := BOOTSTRAPPING\<rparr>, Returned True, [GoBroadcastGossip, GoHandleBootstrapping])
      | Returned b \<Rightarrow> (n, Returned b, []))"

fun ready_run :: "Node \<times> ready_pc list \<times> goroutine list \<Rightarrow> nat list \<Rightarrow> Node \<times> ready_pc list \<times> goroutine list" where
  "ready_run s [] = s"
| "ready_run (n, pcs, started) (i # is) =
     (case ready_next n (pcs ! i) of (n', pc, gs) \<Rightarrow> ready_run (n', pcs[i := pc], started @ gs) is)"

text \<open>One call alone does what \<open>changeStateToBootStrappingIfReady\<close> does.\<close>

lemma ready_run_alone:
  "ready_run (n, [CheckState], []) (replicate 6 0) =
     (case changeStateToBootStrappingIfReady n of (n', started, b) \<Rightarrow> (n', [Returned b], started))"
  by (simp add: numeral_eq_Suc ready_next_def changeStateToBootStrappingIfReady_def Let_def)

text \<open>
  Two handlers that overlap can both find the node joining and both start the bootstrap: the schedule
  alternates between them, and one of the two recorded sizes is lost on the way.
\<close>

theorem overlapping_checks_bootstrap_twice:
  assumes "nState n = JOINING" "nGossipMeta n = [s, s]" "Gossip_Size (nGossip n) = s"
  shows "case ready_run (n, [CheckState, CheckState], []) (concat (replicate 6 [0, 1])) of (n', pcs, started) \<Rightarrow>
    pcs = [Returned True, Returned True] \<and> nState n' = BOOTSTRAPPING \<and> nGossipMeta n' = [s, s, s]
    \<and> started = [GoBroadcastGossip, GoHandleBootstrapping, GoBroadcastGossip, GoHandleBootstrapping]"
  using assms by (simp add: numeral_eq_Suc ready_next_def Let_def)

lemma overlapping_checks_bootstrap_twice_witness:
  "count_list (snd (snd (ready_run ((sample_node JOINING)\<lparr>nGossipMeta := [Gossip_Size (nGossip (sample_node JOINING)),
      Gossip_Size (nGossip (sample_node JOINING))]\<rparr>, [CheckState, CheckState], []) (concat (replicate 6 [0, 1])))))
     GoHandleBootstrapping = 2"
  using overlapping_checks_bootstrap_twice
    [where n = "(sample_node JOINING)\<lparr>nGossipMeta := [Gossip_Size (nGossip (sample_node JOINING)),
      Gossip_Size (nGossip (sample_node JOINING))]\<rparr>" and s = "Gossip_Size (nGossip (sample_node JOINING))"]
  by (auto simp: sample_node_def split: prod.splits)

subsection \<open>Broadcasts\<close>

lemma broadcast_arr:
  assumes "table_wf t"
  shows "mset (map snd (permute c1 (Read c t))) = mset (map snd (gsStore t))"
proof -
  have "Read c t = permute c (gsStore t)" by (rule Read_id [OF assms]) simp
  then show ?thesis by simp
qed

lemma table_entries_store: "table_wf t \<Longrightarrow> table_entries t = snd ` set (gsStore t)"
  unfolding table_entries_def Gossip_Get_def gossip_wf_def
  by (force simp: map_of_eq_Some_iff)

text \<open>
  What a broadcast does: the node's own entry becomes its current data with the current time;
  every other known id is sent one message, to the host its entry names, and none goes to the node
  itself; and every message carries each entry of the table once, the fresh own entry included.
\<close>

theorem broadcast_sends_table_to_all:
  assumes "table_wf (nGossip n)" "nId n \<noteq> []"
  shows "case BroadcastGossip c ca cb now n of (n', sends) \<Rightarrow>
    table_wf (nGossip n')
    \<and> Gossip_Get (nGossip n') = (Gossip_Get (nGossip n)) (nId n \<mapsto> own_entry now n)
    \<and> mset (map fst sends)
        = image_mset (gHost \<circ> snd) (filter_mset (\<lambda>(k, g). k \<noteq> nId n) (mset (gsStore (nGossip n'))))
    \<and> (\<forall>(host, msg) \<in> set sends. mset msg = mset (map snd (gsStore (nGossip n')))
          \<and> own_entry now n \<in> set msg)"
proof -
  let ?t = "Upsert (nGossip n) (nId n) (own_entry now n)"
  have wf: "table_wf ?t" by (rule gossip_wf_Upsert [OF assms(1)])
  have get: "Gossip_Get ?t = (Gossip_Get (nGossip n)) (nId n \<mapsto> own_entry now n)"
    by (simp add: fun_eq_iff)
  have own: "own_entry now n \<in> table_entries ?t"
    by (auto simp: table_entries_def intro!: exI [of _ "nId n"])
  have R: "Read c ?t = permute c (gsStore ?t)" by (rule Read_id [OF wf]) simp
  have hosts: "mset (map fst (map (\<lambda>(i, g). (gHost g, arr)) (filter (\<lambda>(i, g). i \<noteq> nId n) xs)))
      = image_mset (gHost \<circ> snd) (filter_mset (\<lambda>(k, g). k \<noteq> nId n) (mset xs))" for xs :: "(string \<times> NodeGossip) list" and arr :: "NodeGossip list"
    by (induction xs) auto
  have "mset (filter P (permute cb (Read c ?t))) = filter_mset P (mset (gsStore ?t))" for P
    by (simp only: mset_filter mset_permute R)
  then have H: "mset (map fst (map (\<lambda>(i, g). (gHost g, arr)) (filter (\<lambda>(i, g). i \<noteq> nId n) (permute cb (Read c ?t)))))
      = image_mset (gHost \<circ> snd) (filter_mset (\<lambda>(k, g). k \<noteq> nId n) (mset (gsStore ?t)))" for arr :: "NodeGossip list"
    by (simp only: hosts mset_permute R)
  have mem: "own_entry now n \<in> set (map snd (permute ca (Read c ?t)))"
    using own wf by (simp only: R set_map set_permute table_entries_store)
  let ?sends = "map (\<lambda>(i, g). (gHost g, map snd (permute ca (Read c ?t))))
    (filter (\<lambda>(i, g). i \<noteq> nId n) (permute cb (Read c ?t)))"
  have msgs: "\<forall>(host, msg) \<in> set ?sends. mset msg = mset (map snd (gsStore ?t)) \<and> own_entry now n \<in> set msg"
  proof
    fix p assume "p \<in> set ?sends"
    then have "snd p = map snd (permute ca (Read c ?t))"
      by (simp only: set_map) (auto split: prod.splits)
    then show "case p of (host, msg) \<Rightarrow> mset msg = mset (map snd (gsStore ?t)) \<and> own_entry now n \<in> set msg"
      using broadcast_arr [OF wf, of ca c] mem by (simp only: case_prod_beta simp_thms)
  qed
  have eq: "BroadcastGossip c ca cb now n = (n\<lparr>nGossip := ?t\<rparr>, ?sends)"
    using assms(2) by (simp add: BroadcastGossip_def Let_def del: NodeGossip_accessors)
  have table: "nGossip (n\<lparr>nGossip := ?t\<rparr>) = ?t" by simp
  show ?thesis unfolding eq prod.case table using wf get H msgs by blast
qed

lemma broadcast_sends_table_to_all_witness:
  "Gossip_Get (nGossip (fst (BroadcastGossip [] [] [] 7 (sample_node AVAILABLE)))) ''n1''
     = Some (own_entry 7 (sample_node AVAILABLE))"
  using broadcast_sends_table_to_all [where n = "sample_node AVAILABLE" and c = "[]"
      and ca = "[]" and cb = "[]" and now = 7, OF sample_node_wf]
  by (auto simp: sample_node_def split: prod.splits)

text \<open>
  A broadcast is absorbed: after any of its messages has been posted to another node, that node
  knows every id the sender knows, with an entry that is at least as recent.
\<close>

theorem broadcast_is_absorbed:
  assumes "table_wf (nGossip a)" "keyed (nGossip a)" "nId a \<noteq> []"
    and "(host, msg) \<in> set (snd (BroadcastGossip c ca cb now a))"
    and "Gossip_Get (nGossip (fst (BroadcastGossip c ca cb now a))) k = Some x"
  shows "\<exists>y. Gossip_Get (nGossip (fst (postGossip d b (Some msg)))) k = Some y
    \<and> gLastUpdate x \<le> gLastUpdate y"
proof -
  let ?t = "Upsert (nGossip a) (nId a) (own_entry now a)"
  have wf: "table_wf ?t" by (rule gossip_wf_Upsert [OF assms(1)])
  have t: "nGossip (fst (BroadcastGossip c ca cb now a)) = ?t"
    using assms(3) by (simp add: BroadcastGossip_def Let_def)
  have "msg = map snd (permute ca (Read c ?t))"
    using assms(3,4) by (auto simp: BroadcastGossip_def Let_def simp del: NodeGossip_accessors)
  then have msg: "set msg = table_entries ?t"
    using broadcast_arr [OF wf, of ca c] table_entries_store [OF wf]
    by (metis set_map mset_eq_setD)
  have "x \<in> set msg" using assms(5) by (auto simp: msg t table_entries_def simp del: Get_Upsert)
  moreover have "gId x = k"
    using assms(2,5) by (auto simp: t keyed_def own_entry_def split: if_splits)
  ultimately show ?thesis using table.merge_covers [of x msg "nGossip b"] by (simp add: postGossip_table)
qed

lemma broadcast_is_absorbed_witness:
  "\<exists>y. Gossip_Get (nGossip (fst (postGossip [] (sample_node AVAILABLE)
        (Some [own_entry 7 ((sample_node AVAILABLE)\<lparr>nId := ''n2''\<rparr>),
               sample_entry ''n3'' 2 JOINING])))) ''n2'' = Some y \<and> 7 \<le> gLastUpdate y"
proof -
  let ?n3 = "sample_entry ''n3'' 2 JOINING"
  let ?a = "(sample_node AVAILABLE)\<lparr>nId := ''n2'', nGossip := Upsert NewGossip ''n3'' ?n3\<rparr>"
  let ?own = "own_entry 7 ((sample_node AVAILABLE)\<lparr>nId := ''n2''\<rparr>)"
  have own: "own_entry 7 ?a = ?own" by (simp add: own_entry_def sample_node_def)
  have sends: "snd (BroadcastGossip [] [1] [] 7 ?a) = [(''hn3'', [?own, ?n3])]"
    by (simp add: BroadcastGossip_def Gossip_Read_def Gossip_Upsert_def NewGossip_def Let_def own
        sample_entry_def) (simp add: own_entry_def sample_node_def)
  have "\<exists>y. Gossip_Get (nGossip (fst (postGossip [] (sample_node AVAILABLE) (Some [?own, ?n3])))) ''n2'' = Some y
      \<and> gLastUpdate ?own \<le> gLastUpdate y"
  proof (rule broadcast_is_absorbed [where a = ?a and c = "[]" and ca = "[1]" and cb = "[]" and now = 7
        and host = "''hn3''"])
    show "table_wf (nGossip ?a)" by (simp add: gossip_wf_Upsert)
    show "keyed (nGossip ?a)" by (simp add: keyed_def sample_entry_def)
    show "(''hn3'', [?own, ?n3]) \<in> set (snd (BroadcastGossip [] [1] [] 7 ?a))" by (simp only: sends) simp
    show "Gossip_Get (nGossip (fst (BroadcastGossip [] [1] [] 7 ?a))) ''n2'' = Some ?own"
      by (simp add: BroadcastGossip_def Let_def own del: NodeGossip_accessors)
  qed simp
  then show ?thesis by (simp add: own_entry_def)
qed

subsection \<open>Interleaved handlers\<close>

text \<open>
  A \<open>postGossip\<close> handler inside its loop: the entries still to visit, and the upsert it has decided
  on but not done yet. One step is one critical section of the container.
\<close>

record handler =
  hTodo :: "NodeGossip list"
  hPending :: "(string \<times> NodeGossip) option"

definition decide :: "table \<Rightarrow> NodeGossip \<Rightarrow> (string \<times> NodeGossip) option" where
  "decide t g =
     (case Gossip_Get t (gId g) of
        Some val \<Rightarrow>
          if After (gLastUpdate g) (gLastUpdate val)
          then Some (gId g, val\<lparr>gLastUpdate := gLastUpdate g, gState := gState g\<rparr>)
          else None
      | None \<Rightarrow> Some (gId g, g))"

inductive merge_step :: "table \<times> handler list \<Rightarrow> table \<times> handler list \<Rightarrow> bool" where
  step_get:
    "i < length hs \<Longrightarrow> hs ! i = \<lparr>hTodo = g # rest, hPending = None\<rparr> \<Longrightarrow>
     merge_step (t, hs) (t, hs[i := \<lparr>hTodo = rest, hPending = decide t g\<rparr>])"
| step_upsert:
    "i < length hs \<Longrightarrow> hs ! i = \<lparr>hTodo = rest, hPending = Some (k, v)\<rparr> \<Longrightarrow>
     merge_step (t, hs) (Upsert t k v, hs[i := \<lparr>hTodo = rest, hPending = None\<rparr>])"

inductive merge_steps :: "table \<times> handler list \<Rightarrow> table \<times> handler list \<Rightarrow> bool" where
  steps_refl: "merge_steps s s"
| steps_step: "merge_step s s' \<Longrightarrow> merge_steps s' s'' \<Longrightarrow> merge_steps s s''"

inductive_cases merge_stepE: "merge_step (t, hs) s'"

definition start_handler :: "NodeGossip list \<Rightarrow> handler" where
  "start_handler gs = \<lparr>hTodo = gs, hPending = None\<rparr>"

lemma merge_loop_decide:
  "merge_loop Gossip_Get Upsert t (g # gs) =
     merge_loop Gossip_Get Upsert (case decide t g of None \<Rightarrow> t | Some (k, v) \<Rightarrow> Upsert t k v) gs"
  by (simp add: decide_def split: option.splits)

lemma handler_alone:
  "merge_steps (t, [start_handler gs]) (merge_loop Gossip_Get Upsert t gs, [start_handler []])"
proof (induction gs arbitrary: t)
  case Nil
  then show ?case by (simp add: steps_refl)
next
  case (Cons g gs)
  have get: "merge_step (t, [start_handler (g # gs)]) (t, [\<lparr>hTodo = gs, hPending = decide t g\<rparr>])"
    using step_get [of 0 "[start_handler (g # gs)]" g gs t] by (simp add: start_handler_def)
  show ?case
  proof (cases "decide t g")
    case None
    then have "merge_steps (t, [\<lparr>hTodo = gs, hPending = decide t g\<rparr>])
        (merge_loop Gossip_Get Upsert t (g # gs), [start_handler []])"
      using Cons.IH [of t] unfolding merge_loop_decide by (simp only: option.case start_handler_def)
    with get show ?thesis by (rule steps_step)
  next
    case (Some p)
    obtain k v where p: "p = (k, v)" by force
    have "merge_step (t, [\<lparr>hTodo = gs, hPending = decide t g\<rparr>]) (Upsert t k v, [start_handler gs])"
      using step_upsert [of 0 "[\<lparr>hTodo = gs, hPending = decide t g\<rparr>]" gs k v t] Some p
      by (simp add: start_handler_def)
    moreover have "merge_steps (Upsert t k v, [start_handler gs])
        (merge_loop Gossip_Get Upsert t (g # gs), [start_handler []])"
      using Cons.IH [of "Upsert t k v"] unfolding merge_loop_decide by (simp only: Some p option.case prod.case)
    ultimately show ?thesis using get steps_step by blast
  qed
qed

text \<open>
  The invariant of the interleaving: nothing is forgotten, and nothing leaves a set that is closed
  under what a merge makes of two entries of the same id. A set of authored entries is closed, because
  entries of the same id differ only in what the merge takes over; so is the set of all entries.
\<close>

definition merge_closed :: "NodeGossip set \<Rightarrow> bool" where
  "merge_closed A \<longleftrightarrow>
     (\<forall>val \<in> A. \<forall>g \<in> A. gId val = gId g \<longrightarrow> val\<lparr>gLastUpdate := gLastUpdate g, gState := gState g\<rparr> \<in> A)"

lemma merge_closed_sets: "authored A \<Longrightarrow> merge_closed A" "merge_closed UNIV"
  using authored_later by (simp_all add: merge_closed_def)

definition merge_inv :: "NodeGossip set \<Rightarrow> string set \<Rightarrow> table \<times> handler list \<Rightarrow> bool" where
  "merge_inv A ids s \<longleftrightarrow>
     (case s of (t, hs) \<Rightarrow>
       table_wf t \<and> keyed t \<and> table_entries t \<subseteq> A
       \<and> (\<forall>h \<in> set hs. set (hTodo h) \<subseteq> A
             \<and> (\<forall>k v. hPending h = Some (k, v) \<longrightarrow> gId v = k \<and> v \<in> A))
       \<and> ids = {k. Gossip_Get t k \<noteq> None} \<union> (\<Union>h \<in> set hs. gId ` set (hTodo h))
             \<union> {k. \<exists>h \<in> set hs. \<exists>v. hPending h = Some (k, v)})"

lemma decide_props:
  assumes "merge_closed A" "keyed t" "table_entries t \<subseteq> A" "g \<in> A"
  shows "decide t g = Some (k, v) \<Longrightarrow> gId v = k \<and> v \<in> A \<and> k = gId g"
    and "decide t g = None \<Longrightarrow> Gossip_Get t (gId g) \<noteq> None"
proof -
  have "val \<in> A \<and> gId val = gId g" if "Gossip_Get t (gId g) = Some val" for val
    using that assms(2,3) by (auto simp: keyed_def table_entries_def)
  then have val: "gId val = gId g \<and> val\<lparr>gLastUpdate := gLastUpdate g, gState := gState g\<rparr> \<in> A"
    if "Gossip_Get t (gId g) = Some val" for val
    using that assms(1,4) unfolding merge_closed_def by metis
  show "decide t g = Some (k, v) \<Longrightarrow> gId v = k \<and> v \<in> A \<and> k = gId g"
    using val assms(4) by (auto simp: decide_def split: option.splits if_splits)
  show "decide t g = None \<Longrightarrow> Gossip_Get t (gId g) \<noteq> None"
    by (auto simp: decide_def split: option.splits)
qed

lemma keyed_Upsert: "keyed t \<Longrightarrow> gId v = k \<Longrightarrow> keyed (Upsert t k v)"
  by (auto simp: keyed_def)

lemma table_entries_Upsert: "table_entries (Upsert t k v) \<subseteq> insert v (table_entries t)"
  by (auto simp: table_entries_def split: if_splits)

lemma set_list_update_eq:
  assumes "i < length hs"
  obtains rest where "set hs = insert (hs ! i) rest" "set (hs[i := h]) = insert h rest"
proof
  let ?rest = "set (take i hs @ drop (Suc i) hs)"
  show "set hs = insert (hs ! i) ?rest"
    using id_take_nth_drop [OF assms] by (metis Un_insert_right list.simps(15) set_append)
  show "set (hs[i := h]) = insert h ?rest"
    by (simp add: upd_conv_take_nth_drop [OF assms])
qed

lemma merge_inv_step:
  assumes "merge_closed A" "merge_step s s'" "merge_inv A ids s"
  shows "merge_inv A ids s'"
  using assms(2,3)
proof (cases rule: merge_step.cases)
  case (step_get i hs g rest t)
  define h where "h = \<lparr>hTodo = rest, hPending = decide t g\<rparr>"
  have h: "hTodo h = rest" "hPending h = decide t g" by (simp_all add: h_def)
  have s': "s' = (t, hs[i := h])" using step_get(2) by (simp add: h_def)
  obtain others where o: "set hs = insert (hs ! i) others" "set (hs[i := h]) = insert h others"
    using set_list_update_eq [OF step_get(3)] by blast
  have t: "keyed t" "table_entries t \<subseteq> A" "g \<in> A" "set rest \<subseteq> A"
    using assms(3) step_get by (auto simp: merge_inv_def o)
  note d = decide_props [OF assms(1) t(1,2,3)]
  show ?thesis
  proof (cases "decide t g")
    case None
    with d(2) have "Gossip_Get t (gId g) \<noteq> None" by simp
    then show ?thesis using assms(3) step_get(1,4) None
      by (auto simp: merge_inv_def o h s')
  next
    case (Some p)
    obtain k v where p: "p = (k, v)" by force
    have "gId v = k" "v \<in> A" "k = gId g" using d(1) [of k v] Some p by auto
    then show ?thesis using assms(3) step_get(1,4) Some p
      by (auto simp: merge_inv_def o h s')
  qed
next
  case (step_upsert i hs rest k v t)
  define h where "h = \<lparr>hTodo = rest, hPending = (None :: (string \<times> NodeGossip) option)\<rparr>"
  define t' where "t' = Upsert t k v"
  have h: "hTodo h = rest" "hPending h = None" by (simp_all add: h_def)
  have s': "s' = (t', hs[i := h])" using step_upsert(2) by (simp add: h_def t'_def)
  obtain others where o: "set hs = insert (hs ! i) others" "set (hs[i := h]) = insert h others"
    using set_list_update_eq [OF step_upsert(3)] by blast
  have inv: "merge_inv A ids (t, hs)" using assms(3) step_upsert(1) by simp
  note I = inv [unfolded merge_inv_def prod.case o(1) step_upsert(4)]
  have v: "table_wf t" "keyed t" "table_entries t \<subseteq> A" using I by blast+
  have others: "gId v = k" "v \<in> A" "set rest \<subseteq> A" "\<forall>h \<in> others. set (hTodo h) \<subseteq> A
      \<and> (\<forall>k v. hPending h = Some (k, v) \<longrightarrow> gId v = k \<and> v \<in> A)" using I by auto
  have "ids = {k. Gossip_Get t k \<noteq> None}
      \<union> (\<Union>h \<in> insert \<lparr>hTodo = rest, hPending = Some (k, v)\<rparr> others. gId ` set (hTodo h))
      \<union> {ka. \<exists>h \<in> insert \<lparr>hTodo = rest, hPending = Some (k, v)\<rparr> others. \<exists>v. hPending h = Some (ka, v)}"
    using I by blast
  also have "{ka. \<exists>h \<in> insert \<lparr>hTodo = rest, hPending = Some (k, v)\<rparr> others. \<exists>v. hPending h = Some (ka, v)}
      = insert k {ka. \<exists>h \<in> others. \<exists>v. hPending h = Some (ka, v)}" by auto
  finally have ids: "ids = insert k {k. Gossip_Get t k \<noteq> None}
      \<union> (gId ` set rest \<union> (\<Union>h \<in> others. gId ` set (hTodo h)))
      \<union> {k. \<exists>h \<in> others. \<exists>v. hPending h = Some (k, v)}" by simp
  have t': "table_wf t'" "keyed t'" "table_entries t' \<subseteq> A"
    unfolding t'_def
    by (rule gossip_wf_Upsert [OF v(1)], rule keyed_Upsert [OF v(2) others(1)],
        rule order_trans [OF table_entries_Upsert]) (use v(3) others(2) in simp)
  have dom: "{k. Gossip_Get t' k \<noteq> None} = insert k {k. Gossip_Get t k \<noteq> None}"
    by (auto simp: t'_def)
  show ?thesis unfolding s' merge_inv_def prod.case
  proof (intro conjI t')
    show "\<forall>h \<in> set (hs[i := h]). set (hTodo h) \<subseteq> A
        \<and> (\<forall>k v. hPending h = Some (k, v) \<longrightarrow> gId v = k \<and> v \<in> A)"
      using others(3,4) by (simp add: o(2) h)
    have "{ka. \<exists>h \<in> insert h others. \<exists>v. hPending h = Some (ka, v)}
        = {ka. \<exists>h \<in> others. \<exists>v. hPending h = Some (ka, v)}" by (simp add: h)
    then show "ids = {k. Gossip_Get t' k \<noteq> None} \<union> (\<Union>h \<in> set (hs[i := h]). gId ` set (hTodo h))
        \<union> {k. \<exists>h \<in> set (hs[i := h]). \<exists>v. hPending h = Some (k, v)}"
      unfolding o(2) dom ids by (simp add: h)
  qed
qed

lemma merge_inv_steps: "merge_steps s s' \<Longrightarrow> merge_closed A \<Longrightarrow> merge_inv A ids s \<Longrightarrow> merge_inv A ids s'"
  by (induction rule: merge_steps.induct) (auto dest: merge_inv_step)

lemma merge_steps_trans: "merge_steps s1 s2 \<Longrightarrow> merge_steps s2 s3 \<Longrightarrow> merge_steps s1 s3"
  by (induction rule: merge_steps.induct) (auto intro: steps_step)

text \<open>
  What interleaving does break: \<open>LastUpdate\<close> can go back. Two handlers bring times 2 and 3 for
  an entry of time 1; both read it, the later one is stored, and the earlier one overwrites it.
\<close>

theorem interleaved_merge_goes_back:
  "\<exists>t1 t2 hs. merge_steps
      (Upsert NewGossip ''x'' (sample_entry ''x'' 1 JOINING),
       [start_handler [sample_entry ''x'' 2 BOOTSTRAPPING], start_handler [sample_entry ''x'' 3 AVAILABLE]])
      (t1, hs)
    \<and> Gossip_Get t1 ''x'' = Some (sample_entry ''x'' 3 AVAILABLE)
    \<and> merge_steps (t1, hs) (t2, [start_handler [], start_handler []])
    \<and> Gossip_Get t2 ''x'' = Some (sample_entry ''x'' 2 BOOTSTRAPPING)"
proof -
  let ?e = "sample_entry ''x''"
  let ?t = "Upsert NewGossip ''x'' (?e 1 JOINING)"
  let ?p2 = "\<lparr>hTodo = [], hPending = Some (''x'', ?e 2 BOOTSTRAPPING)\<rparr>"
  let ?p3 = "\<lparr>hTodo = [], hPending = Some (''x'', ?e 3 AVAILABLE)\<rparr>"
  let ?h2 = "start_handler [?e 2 BOOTSTRAPPING]" and ?h3 = "start_handler [?e 3 AVAILABLE]"
  let ?t1 = "Upsert ?t ''x'' (?e 3 AVAILABLE)"
  let ?t2 = "Upsert ?t1 ''x'' (?e 2 BOOTSTRAPPING)"
  have d: "decide ?t (?e 2 BOOTSTRAPPING) = Some (''x'', ?e 2 BOOTSTRAPPING)"
    "decide ?t (?e 3 AVAILABLE) = Some (''x'', ?e 3 AVAILABLE)"
    by (simp_all add: decide_def sample_entry_def After_def)
  have 1: "merge_step (?t, [?h2, ?h3]) (?t, [?p2, ?h3])"
    using step_get [of 0 "[?h2, ?h3]" "?e 2 BOOTSTRAPPING" "[]" ?t] by (simp add: start_handler_def d del: NodeGossip_accessors)
  have 2: "merge_step (?t, [?p2, ?h3]) (?t, [?p2, ?p3])"
    using step_get [of 1 "[?p2, ?h3]" "?e 3 AVAILABLE" "[]" ?t] by (simp add: start_handler_def d del: NodeGossip_accessors)
  have 3: "merge_step (?t, [?p2, ?p3]) (?t1, [?p2, start_handler []])"
    using step_upsert [of 1 "[?p2, ?p3]" "[]" "''x''" "?e 3 AVAILABLE" ?t] by (simp add: start_handler_def)
  have 4: "merge_step (?t1, [?p2, start_handler []]) (?t2, [start_handler [], start_handler []])"
    using step_upsert [of 0 "[?p2, start_handler []]" "[]" "''x''" "?e 2 BOOTSTRAPPING" ?t1]
    by (simp add: start_handler_def)
  have "merge_steps (?t, [?h2, ?h3]) (?t1, [?p2, start_handler []])"
    using 1 2 3 by (blast intro: steps_step steps_refl)
  moreover have "merge_steps (?t1, [?p2, start_handler []]) (?t2, [start_handler [], start_handler []])"
    using 4 by (blast intro: steps_step steps_refl)
  moreover have "Gossip_Get ?t1 ''x'' = Some (?e 3 AVAILABLE)"
    "Gossip_Get ?t2 ''x'' = Some (?e 2 BOOTSTRAPPING)" by simp_all
  ultimately show ?thesis by blast
qed

text \<open>
  C27. Concurrent merges lose no member: however any number of \<open>postGossip\<close> handlers interleave at the
  container's lock, from a well-formed table with every entry under its own id, when all have finished
  the table is so again, and the known ids are exactly the old ones and those of all bodies. They also invent no entry,
  provided the entries are authored, that is, two entries of the same id have the same host, range end
  and replica count, and are equal if they have the same time: then every entry of the table is one
  that was in it or in a body. Without that a merge makes an entry nobody wrote, the time and state of
  one with the range end of the other, as after a seed whose range end was rounded. A single handler
  run alone does what \<open>merge_loop\<close> does.
\<close>

theorem concurrent_merges_safe:
  assumes "table_wf t" "keyed t"
    and "merge_steps (t, map start_handler bodies) (t', hs)" "\<forall>h \<in> set hs. h = start_handler []"
  shows "table_wf t' \<and> keyed t'
    \<and> {k. Gossip_Get t' k \<noteq> None} = {k. Gossip_Get t k \<noteq> None} \<union> (\<Union>gs \<in> set bodies. gId ` set gs)
    \<and> (\<forall>A. authored A \<and> table_entries t \<subseteq> A \<and> (\<forall>gs \<in> set bodies. set gs \<subseteq> A) \<longrightarrow> table_entries t' \<subseteq> A)
    \<and> merge_steps (t, [start_handler gs0]) (merge_loop Gossip_Get Upsert t gs0, [start_handler []])"
proof -
  let ?ids = "{k. Gossip_Get t k \<noteq> None} \<union> (\<Union>gs \<in> set bodies. gId ` set gs)"
  have inv: "merge_inv A ?ids (t', hs)"
    if "merge_closed A" "table_entries t \<subseteq> A" "\<forall>gs \<in> set bodies. set gs \<subseteq> A" for A
  proof -
    have "merge_inv A ?ids (t, map start_handler bodies)"
      using assms(1,2) that(2,3) unfolding merge_inv_def start_handler_def by auto
    from merge_inv_steps [OF assms(3) that(1) this] show ?thesis .
  qed
  have finished: "(\<Union>h \<in> set hs. gId ` set (hTodo h)) = {}"
    "{k. \<exists>h \<in> set hs. \<exists>v. hPending h = Some (k, v)} = {}"
    using assms(4) unfolding start_handler_def by auto
  have "merge_inv UNIV ?ids (t', hs)" by (rule inv [OF merge_closed_sets(2)]) simp_all
  then have ids: "table_wf t'" "keyed t'" "{k. Gossip_Get t' k \<noteq> None} = ?ids"
    unfolding merge_inv_def prod.case finished by simp_all
  show ?thesis
  proof (intro conjI allI impI ids)
    fix A
    assume "authored A \<and> table_entries t \<subseteq> A \<and> (\<forall>gs \<in> set bodies. set gs \<subseteq> A)"
    then have "merge_inv A ?ids (t', hs)" using inv merge_closed_sets(1) by blast
    then show "table_entries t' \<subseteq> A" unfolding merge_inv_def prod.case by blast
  qed (rule handler_alone)
qed

text \<open>The interleaving of \<open>interleaved_merge_goes_back\<close>: the time went back, but nothing was made up.\<close>

lemma concurrent_merges_safe_witness:
  "\<exists>t. Gossip_Get t ''x'' = Some (sample_entry ''x'' 2 BOOTSTRAPPING)
    \<and> merge_steps (Upsert NewGossip ''x'' (sample_entry ''x'' 1 JOINING),
         map start_handler [[sample_entry ''x'' 2 BOOTSTRAPPING], [sample_entry ''x'' 3 AVAILABLE]])
         (t, [start_handler [], start_handler []])
    \<and> {k. Gossip_Get t k \<noteq> None} = {''x''}
    \<and> table_entries t \<subseteq> {sample_entry ''x'' 1 JOINING, sample_entry ''x'' 2 BOOTSTRAPPING, sample_entry ''x'' 3 AVAILABLE}"
proof -
  let ?e = "sample_entry ''x''"
  let ?t = "Upsert NewGossip ''x'' (?e 1 JOINING)"
  let ?bodies = "[[?e 2 BOOTSTRAPPING], [?e 3 AVAILABLE]]"
  let ?A = "{?e 1 JOINING, ?e 2 BOOTSTRAPPING, ?e 3 AVAILABLE}"
  obtain t1 t2 hs where run: "merge_steps (?t, map start_handler ?bodies) (t1, hs)"
    "merge_steps (t1, hs) (t2, [start_handler [], start_handler []])" "Gossip_Get t2 ''x'' = Some (?e 2 BOOTSTRAPPING)"
    using interleaved_merge_goes_back by auto
  have steps: "merge_steps (?t, map start_handler ?bodies) (t2, [start_handler [], start_handler []])"
    by (rule merge_steps_trans [OF run(1,2)])
  have t: "table_wf ?t" "keyed ?t" "\<forall>h \<in> set [start_handler [], start_handler []]. h = start_handler []"
    by (simp_all add: gossip_wf_Upsert keyed_def sample_entry_def)
  have "authored ?A" by (simp add: authored_def sample_entry_def)
  moreover have "table_entries ?t \<subseteq> ?A" by (auto simp: table_entries_def split: if_splits)
  moreover have "\<forall>gs \<in> set ?bodies. set gs \<subseteq> ?A" by simp
  moreover have "{k. Gossip_Get ?t k \<noteq> None} \<union> (\<Union>gs \<in> set ?bodies. gId ` set gs) = {''x''}"
    by (auto simp: sample_entry_def)
  moreover note C = concurrent_merges_safe [OF t(1,2) steps t(3), of "[]"]
  ultimately have "{k. Gossip_Get t2 k \<noteq> None} = {''x''}" "table_entries t2 \<subseteq> ?A" by (metis, metis)
  then show ?thesis using steps run(3) by blast
qed

end
