(* ===== verification/Fanout.thy ===== *)
theory Fanout
  imports DSN_Types
begin

section \<open>Fanning out to workers: RunUntilMinSuccessOrTimeout\<close>

text \<open>
  \<open>RunUntilMinSuccessOrTimeout\<close> of \<open>helper/helper.go\<close> as a state machine. The state holds the program
  counter of the calling goroutine (how many workers it has started, whether it has passed the
  test for \<open>minSuccess == 0\<close>), that of every worker, the buffered channel, the atomic counter and
  whether the context is cancelled; \<open>fTimedOut\<close> records why. \<open>fan_exec\<close> performs one step of one
  goroutine, \<open>None\<close> when that step is not possible; the scheduler's freedom is the list of events.

  A worker is \<open>NotStarted\<close>, \<open>Running\<close> (in \<open>fn\<close>), \<open>Finished\<close> (at the \<open>select\<close>), \<open>Sent\<close> (its result
  is in the channel, its success not yet counted) or \<open>WDone\<close>. The \<open>select\<close> may drop the result
  only when the context is done. The call returns when every worker is done, with the channel's
  content in order; each element carries the index of its worker as well, for the proofs.

  \<open>fan_inv\<close> is the invariant; \<open>fan_measure\<close> decreases in every step.
\<close>

subsection \<open>State and steps\<close>

datatype 'r worker =
    NotStarted
  | Running
  | Finished 'r "error option"
  | Sent
  | WDone

record 'r fan =
  fSpawned :: nat
  fZeroChecked :: bool
  fWorkers :: "'r worker list"
  fChan :: "(nat \<times> 'r \<times> error option) list"
  fSuccess :: int
  fCancelled :: bool
  fTimedOut :: bool

datatype 'r fan_event =
    Spawn
  | ZeroCheck
  | FnReturns nat 'r "error option"
  | SendResult nat
  | DropResult nat
  | CountSuccess nat
  | Timeout

definition fan_init :: "nat \<Rightarrow> 'r fan" where
  "fan_init n =
     \<lparr>fSpawned = 0, fZeroChecked = False, fWorkers = replicate n NotStarted, fChan = [],
      fSuccess = 0, fCancelled = False, fTimedOut = False\<rparr>"

definition worker_at :: "'r fan \<Rightarrow> nat \<Rightarrow> 'r worker option" where
  "worker_at s i = (if i < length (fWorkers s) then Some (fWorkers s ! i) else None)"

definition set_worker :: "nat \<Rightarrow> 'r worker \<Rightarrow> 'r fan \<Rightarrow> 'r fan" where
  "set_worker i w s = s\<lparr>fWorkers := (fWorkers s)[i := w]\<rparr>"

fun fan_exec :: "int \<Rightarrow> 'r fan_event \<Rightarrow> 'r fan \<Rightarrow> 'r fan option" where
  "fan_exec minSuccess Spawn s =
     (if fSpawned s < length (fWorkers s)
      then Some (set_worker (fSpawned s) Running (s\<lparr>fSpawned := Suc (fSpawned s)\<rparr>))
      else None)"
| "fan_exec minSuccess ZeroCheck s =
     (if fSpawned s = length (fWorkers s) \<and> \<not> fZeroChecked s
      then Some (s\<lparr>fZeroChecked := True, fCancelled := (fCancelled s \<or> minSuccess = 0)\<rparr>)
      else None)"
| "fan_exec minSuccess (FnReturns i r e) s =
     (if worker_at s i = Some Running then Some (set_worker i (Finished r e) s) else None)"
| "fan_exec minSuccess (SendResult i) s =
     (case worker_at s i of
        Some (Finished r e) \<Rightarrow>
          if length (fChan s) < length (fWorkers s)
          then Some (set_worker i (if e = None then Sent else WDone)
                       (s\<lparr>fChan := fChan s @ [(i, r, e)]\<rparr>))
          else None
      | _ \<Rightarrow> None)"
| "fan_exec minSuccess (DropResult i) s =
     (case worker_at s i of
        Some (Finished r e) \<Rightarrow> if fCancelled s then Some (set_worker i WDone s) else None
      | _ \<Rightarrow> None)"
| "fan_exec minSuccess (CountSuccess i) s =
     (if worker_at s i = Some Sent
      then (let n = fSuccess s + 1
            in Some (set_worker i WDone
                 (s\<lparr>fSuccess := n, fCancelled := (fCancelled s \<or> int32 minSuccess \<le> n)\<rparr>)))
      else None)"
| "fan_exec minSuccess Timeout s =
     (if fTimedOut s then None else Some (s\<lparr>fTimedOut := True, fCancelled := True\<rparr>))"

fun fan_run :: "int \<Rightarrow> 'r fan_event list \<Rightarrow> 'r fan \<Rightarrow> 'r fan option" where
  "fan_run minSuccess [] s = Some s"
| "fan_run minSuccess (ev # evs) s =
     (case fan_exec minSuccess ev s of None \<Rightarrow> None | Some s' \<Rightarrow> fan_run minSuccess evs s')"

definition fan_final :: "'r fan \<Rightarrow> bool" where
  "fan_final s \<longleftrightarrow> fZeroChecked s \<and> list_all (\<lambda>w. w = WDone) (fWorkers s)"

definition fan_output :: "'r fan \<Rightarrow> ('r \<times> error option) list" where
  "fan_output s = map snd (fChan s)"

text \<open>
  The events in which \<open>fn\<close> returns carry a result it may return: \<open>fn w r e\<close> says that
  \<open>fn(ctx, w)\<close> may return \<open>(r, e)\<close>.
\<close>

fun event_of_fn :: "('i \<Rightarrow> 'r \<Rightarrow> error option \<Rightarrow> bool) \<Rightarrow> 'i list \<Rightarrow> 'r fan_event \<Rightarrow> bool" where
  "event_of_fn fn work (FnReturns i r e) = (i < length work \<and> fn (work ! i) r e)"
| "event_of_fn fn work _ = True"

text \<open>\<open>RunUntilMinSuccessOrTimeout\<close> returns \<open>out\<close> under some schedule, timing out or not.\<close>

definition fan_returns ::
    "('i \<Rightarrow> 'r \<Rightarrow> error option \<Rightarrow> bool) \<Rightarrow> 'i list \<Rightarrow> int \<Rightarrow> bool \<Rightarrow> ('r \<times> error option) list \<Rightarrow> bool" where
  "fan_returns fn work minSuccess timedOut out \<longleftrightarrow>
     (\<exists>evs s. list_all (event_of_fn fn work) evs
        \<and> fan_run minSuccess evs (fan_init (length work)) = Some s
        \<and> fan_final s \<and> fTimedOut s = timedOut \<and> fan_output s = out)"

subsection \<open>Invariant\<close>

definition sent_count :: "'r fan \<Rightarrow> nat" where
  "sent_count s = length (filter (\<lambda>w. w = Sent) (fWorkers s))"

definition success_count :: "('a \<times> error option) list \<Rightarrow> nat" where
  "success_count xs = length (filter (\<lambda>(r, e). e = None) xs)"

definition inv_shape :: "nat \<Rightarrow> 'r fan \<Rightarrow> bool" where
  "inv_shape n s \<longleftrightarrow>
     length (fWorkers s) = n \<and> fSpawned s \<le> n
   \<and> (\<forall>i < n. fWorkers s ! i = NotStarted \<longleftrightarrow> fSpawned s \<le> i)
   \<and> (fZeroChecked s \<longrightarrow> fSpawned s = n)"

definition inv_chan :: "('i \<Rightarrow> 'r \<Rightarrow> error option \<Rightarrow> bool) \<Rightarrow> 'i list \<Rightarrow> 'r fan \<Rightarrow> bool" where
  "inv_chan fn work s \<longleftrightarrow>
     distinct (map fst (fChan s))
   \<and> (\<forall>i r e. (i, r, e) \<in> set (fChan s) \<longrightarrow>
        i < length work \<and> fn (work ! i) r e \<and> (fWorkers s ! i = Sent \<or> fWorkers s ! i = WDone))
   \<and> (\<forall>i < length work. \<forall>r e. fWorkers s ! i = Finished r e \<longrightarrow> fn (work ! i) r e)"

definition inv_count :: "'r fan \<Rightarrow> bool" where
  "inv_count s \<longleftrightarrow> fSuccess s + int (sent_count s) = int (success_count (fan_output s))"

definition inv_cancel :: "int \<Rightarrow> 'r fan \<Rightarrow> bool" where
  "inv_cancel minSuccess s \<longleftrightarrow>
     (fTimedOut s \<longrightarrow> fCancelled s)
   \<and> (fCancelled s \<and> \<not> fTimedOut s \<longrightarrow> minSuccess = 0 \<or> int32 minSuccess \<le> fSuccess s)
   \<and> (\<forall>i < length (fWorkers s). fWorkers s ! i = Sent \<longrightarrow> i \<in> fst ` set (fChan s))
   \<and> (\<not> fCancelled s \<longrightarrow>
        (\<forall>i < length (fWorkers s). fWorkers s ! i = WDone \<longrightarrow> i \<in> fst ` set (fChan s)))"

definition fan_inv ::
    "('i \<Rightarrow> 'r \<Rightarrow> error option \<Rightarrow> bool) \<Rightarrow> 'i list \<Rightarrow> int \<Rightarrow> 'r fan \<Rightarrow> bool" where
  "fan_inv fn work minSuccess s \<longleftrightarrow>
     inv_shape (length work) s \<and> inv_chan fn work s \<and> inv_count s \<and> inv_cancel minSuccess s"

lemmas fan_inv_defs = inv_shape_def inv_chan_def inv_count_def inv_cancel_def

lemmas fan_step_simps =
  worker_at_def set_worker_def nth_list_update Let_def

lemma length_filter_update:
  "i < length xs \<Longrightarrow>
   length (filter P (xs[i := x])) + (if P (xs ! i) then 1 else 0)
     = length (filter P xs) + (if P x then 1 else 0)"
proof (induction xs arbitrary: i)
  case (Cons y ys)
  then show ?case by (cases i) auto
qed simp

lemma sent_count_update:
  assumes "i < length (fWorkers s)"
  shows "int (sent_count (set_worker i w s)) =
    int (sent_count s) + (if w = Sent then 1 else 0) - (if fWorkers s ! i = Sent then 1 else 0)"
  using length_filter_update [OF assms, of "\<lambda>w. w = Sent" w]
  by (auto simp: sent_count_def set_worker_def split: if_splits)

lemma set_worker_simps [simp]:
  "fSpawned (set_worker i w s) = fSpawned s" "fZeroChecked (set_worker i w s) = fZeroChecked s"
  "fChan (set_worker i w s) = fChan s" "fSuccess (set_worker i w s) = fSuccess s"
  "fCancelled (set_worker i w s) = fCancelled s" "fTimedOut (set_worker i w s) = fTimedOut s"
  "fWorkers (set_worker i w s) = (fWorkers s)[i := w]"
  "fan_output (set_worker i w s) = fan_output s"
  by (simp_all add: set_worker_def fan_output_def)

lemma worker_at_Some [simp]:
  "worker_at s i = Some w \<longleftrightarrow> i < length (fWorkers s) \<and> fWorkers s ! i = w"
  by (auto simp: worker_at_def)

lemma success_count_snoc [simp]:
  "success_count (xs @ [(r, e)]) = success_count xs + (if e = None then 1 else 0)"
  by (simp add: success_count_def)

text \<open>The possible steps, one rule per kind: the state before and after.\<close>

lemma fan_execE:
  assumes "fan_exec ms ev s = Some t"
  obtains
    (Spawn) "ev = Spawn" "fSpawned s < length (fWorkers s)"
      "t = set_worker (fSpawned s) Running (s\<lparr>fSpawned := Suc (fSpawned s)\<rparr>)"
  | (ZeroCheck) "ev = ZeroCheck" "fSpawned s = length (fWorkers s)" "\<not> fZeroChecked s"
      "t = s\<lparr>fZeroChecked := True, fCancelled := (fCancelled s \<or> ms = 0)\<rparr>"
  | (FnReturns) i r e where "ev = FnReturns i r e" "i < length (fWorkers s)"
      "fWorkers s ! i = Running" "t = set_worker i (Finished r e) s"
  | (SendResult) i r e where "ev = SendResult i" "i < length (fWorkers s)"
      "fWorkers s ! i = Finished r e" "length (fChan s) < length (fWorkers s)"
      "t = set_worker i (if e = None then Sent else WDone) (s\<lparr>fChan := fChan s @ [(i, r, e)]\<rparr>)"
  | (DropResult) i r e where "ev = DropResult i" "i < length (fWorkers s)"
      "fWorkers s ! i = Finished r e" "fCancelled s" "t = set_worker i WDone s"
  | (CountSuccess) i where "ev = CountSuccess i" "i < length (fWorkers s)" "fWorkers s ! i = Sent"
      "t = set_worker i WDone (s\<lparr>fSuccess := fSuccess s + 1,
             fCancelled := (fCancelled s \<or> int32 ms \<le> fSuccess s + 1)\<rparr>)"
  | (Timeout) "ev = Timeout" "\<not> fTimedOut s" "t = s\<lparr>fTimedOut := True, fCancelled := True\<rparr>"
  using assms
  by (cases ev) (auto simp: Let_def split: if_splits option.splits worker.splits)

lemma inv_shape_step:
  assumes "fan_exec ms ev s = Some t" and "inv_shape n s"
  shows "inv_shape n t"
  using assms(1)
  by (cases rule: fan_execE)
    (use assms(2) in \<open>auto simp: inv_shape_def nth_list_update split: if_splits\<close>)

lemma inv_chan_step:
  assumes "fan_exec ms ev s = Some t" and "inv_chan fn work s" and "inv_shape (length work) s"
    and "event_of_fn fn work ev"
  shows "inv_chan fn work t"
  using assms(1)
proof (cases rule: fan_execE)
  case Spawn
  then have "fWorkers s ! fSpawned s = NotStarted" using assms(3) by (auto simp: inv_shape_def)
  with Spawn show ?thesis
    using assms(2) by (fastforce simp: inv_chan_def nth_list_update)
next
  case (FnReturns i r e)
  with assms(2,4) show ?thesis by (fastforce simp: inv_chan_def nth_list_update)
next
  case (SendResult i r e)
  have "i \<notin> fst ` set (fChan s)"
    using assms(2) SendResult(3) by (force simp: inv_chan_def)
  moreover have "i < length work" using SendResult(2) assms(3) by (simp add: inv_shape_def)
  ultimately show ?thesis
    using assms(2) SendResult by (auto simp: inv_chan_def nth_list_update split: if_splits)
next
  case (DropResult i r e)
  with assms(2) show ?thesis by (fastforce simp: inv_chan_def nth_list_update)
next
  case (CountSuccess i)
  with assms(2) show ?thesis by (fastforce simp: inv_chan_def nth_list_update)
qed (use assms(2) in \<open>auto simp: inv_chan_def\<close>)

lemma inv_count_step:
  assumes "fan_exec ms ev s = Some t" and "inv_count s" and "inv_shape n s"
  shows "inv_count t"
  using assms(1)
proof (cases rule: fan_execE)
  case Spawn
  then have "fWorkers s ! fSpawned s = NotStarted" using assms(3) by (auto simp: inv_shape_def)
  with Spawn assms(2) show ?thesis
    by (simp add: inv_count_def sent_count_update) (simp add: sent_count_def fan_output_def)
next
  case (SendResult i r e)
  with assms(2) show ?thesis
    by (simp add: inv_count_def sent_count_update) (auto simp: sent_count_def fan_output_def)
next
  case (CountSuccess i)
  with assms(2) show ?thesis
    by (simp add: inv_count_def sent_count_update) (simp add: sent_count_def fan_output_def)
next
  case (FnReturns i r e)
  with assms(2) show ?thesis by (simp add: inv_count_def sent_count_update)
next
  case (DropResult i r e)
  with assms(2) show ?thesis by (simp add: inv_count_def sent_count_update)
qed (use assms(2) in \<open>simp_all add: inv_count_def sent_count_def fan_output_def\<close>)

lemma inv_cancel_step:
  assumes "fan_exec ms ev s = Some t" and "inv_cancel ms s"
  shows "inv_cancel ms t"
  using assms(1)
  by (cases rule: fan_execE)
    (use assms(2) in \<open>auto simp: inv_cancel_def nth_list_update split: if_splits\<close>)

lemma fan_inv_step [inv_intros]:
  assumes "fan_exec ms ev s = Some t" and "fan_inv fn work ms s" and "event_of_fn fn work ev"
  shows "fan_inv fn work ms t"
  using assms(2,3) inv_shape_step [OF assms(1)] inv_chan_step [OF assms(1)]
    inv_count_step [OF assms(1)] inv_cancel_step [OF assms(1)]
  unfolding fan_inv_def by blast

lemma fan_inv_init: "fan_inv fn work ms (fan_init (length work))"
  by (simp add: fan_inv_def fan_inv_defs fan_init_def sent_count_def success_count_def fan_output_def)

lemma fan_inv_run:
  "fan_run ms evs s = Some t \<Longrightarrow> fan_inv fn work ms s \<Longrightarrow> list_all (event_of_fn fn work) evs
    \<Longrightarrow> fan_inv fn work ms t"
  by (induction ms evs s rule: fan_run.induct) (auto intro: fan_inv_step split: option.splits)

subsection \<open>What the call returns\<close>

lemma fan_inv_final:
  assumes "fan_inv fn work ms s" and "fan_final s"
  shows "length (fan_output s) \<le> length work"
    and "fan_output s = map snd (fChan s)"
    and "\<not> fTimedOut s \<Longrightarrow>
      length (fan_output s) = length work \<or> ms = 0 \<or> int32 ms \<le> int (success_count (fan_output s))"
proof -
  have w: "\<And>i. i < length work \<Longrightarrow> fWorkers s ! i = WDone" and len: "length (fWorkers s) = length work"
    using assms by (auto simp: fan_inv_def inv_shape_def fan_final_def list_all_length)
  have sub: "set (map fst (fChan s)) \<subseteq> {..<length work}" and d: "distinct (map fst (fChan s))"
    using assms(1) by (auto simp: fan_inv_def inv_chan_def)
  show le: "length (fan_output s) \<le> length work"
    using card_mono [OF _ sub] distinct_card [OF d] by (simp add: fan_output_def)
  show "fan_output s = map snd (fChan s)" by (simp add: fan_output_def)
  assume nt: "\<not> fTimedOut s"
  show "length (fan_output s) = length work \<or> ms = 0 \<or> int32 ms \<le> int (success_count (fan_output s))"
  proof (cases "fCancelled s")
    case True
    have "sent_count s = 0"
      using w len by (auto simp: sent_count_def filter_empty_conv in_set_conv_nth)
    then show ?thesis using True nt assms(1) by (auto simp: fan_inv_def inv_cancel_def inv_count_def)
  next
    case False
    then have "{..<length work} \<subseteq> set (map fst (fChan s))"
      using w len assms(1) by (auto simp: fan_inv_def inv_cancel_def)
    then have "length work \<le> length (fan_output s)"
      using card_mono [of "set (map fst (fChan s))" "{..<length work}"] distinct_card [OF d]
      by (simp add: fan_output_def)
    with le show ?thesis by simp
  qed
qed

lemma fan_returns_inv:
  assumes "fan_returns fn work ms timedOut out"
  obtains s where "fan_inv fn work ms s" and "fan_final s" and "fTimedOut s = timedOut"
    and "fan_output s = out"
  using assms fan_inv_run fan_inv_init unfolding fan_returns_def by metis

subsection \<open>Progress and termination\<close>

fun worker_rank :: "'r worker \<Rightarrow> nat" where
  "worker_rank NotStarted = 4"
| "worker_rank Running = 3"
| "worker_rank (Finished r e) = 2"
| "worker_rank Sent = 1"
| "worker_rank WDone = 0"

definition fan_measure :: "'r fan \<Rightarrow> nat" where
  "fan_measure s = sum_list (map worker_rank (fWorkers s))
     + (if fZeroChecked s then 0 else 1) + (if fTimedOut s then 0 else 1)"

lemma sum_list_update_less:
  fixes f :: "'a \<Rightarrow> nat"
  shows "i < length xs \<Longrightarrow> f x < f (xs ! i) \<Longrightarrow>
    sum_list (map f (xs[i := x])) < sum_list (map f xs)"
proof (induction xs arbitrary: i)
  case (Cons y ys)
  then show ?case by (cases i) auto
qed simp

lemma fan_measure_step:
  assumes "fan_exec ms ev s = Some t" and "inv_shape n s"
  shows "fan_measure t < fan_measure s"
  using assms(1)
proof (cases rule: fan_execE)
  case Spawn
  then have "fWorkers s ! fSpawned s = NotStarted" using assms(2) by (auto simp: inv_shape_def)
  with Spawn show ?thesis by (simp add: fan_measure_def sum_list_update_less)
qed (auto simp: fan_measure_def intro!: sum_list_update_less)

lemma fan_progress:
  assumes inv: "fan_inv fn work ms s" and "\<not> fan_final s"
    and fn: "\<And>w. w \<in> set work \<Longrightarrow> \<exists>r e. fn w r e"
  shows "\<exists>ev t. event_of_fn fn work ev \<and> fan_exec ms ev s = Some t"
proof (cases "fSpawned s < length work")
  case True
  then show ?thesis
    using inv by (intro exI [of _ Spawn]) (simp add: fan_inv_def inv_shape_def)
next
  case False
  with inv have all: "fSpawned s = length work" "length (fWorkers s) = length work"
    by (auto simp: fan_inv_def inv_shape_def)
  show ?thesis
  proof (cases "fZeroChecked s")
    case False
    with all show ?thesis by (intro exI [of _ ZeroCheck]) simp
  next
    case True
    with assms(2) all obtain i where i: "i < length work" "fWorkers s ! i \<noteq> WDone"
      by (auto simp: fan_final_def list_all_length)
    moreover have "fWorkers s ! i \<noteq> NotStarted"
      using inv i all by (auto simp: fan_inv_def inv_shape_def)
    ultimately consider "fWorkers s ! i = Running" | r e where "fWorkers s ! i = Finished r e"
      | "fWorkers s ! i = Sent" by (cases "fWorkers s ! i") auto
    then show ?thesis
    proof cases
      case 1
      obtain r e where "fn (work ! i) r e" using fn i(1) nth_mem by blast
      with 1 i all show ?thesis by (intro exI [of _ "FnReturns i r e"]) simp
    next
      case 2
      have notin: "i \<notin> set (map fst (fChan s))" and d: "distinct (map fst (fChan s))"
        and sub: "set (map fst (fChan s)) \<subseteq> {..<length work}"
        using inv 2 by (force simp: fan_inv_def inv_chan_def)+
      from sub notin i(1) have "set (map fst (fChan s)) \<subset> {..<length work}" by blast
      from psubset_card_mono [OF _ this] have "length (fChan s) < length work"
        using distinct_card [OF d] by simp
      with 2 i all show ?thesis
        by (intro exI [of _ "SendResult i"]) (simp add: worker_at_def)
    next
      case 3
      with i all show ?thesis by (intro exI [of _ "CountSuccess i"]) (simp add: Let_def)
    qed
  qed
qed

lemma fan_terminates:
  assumes "fan_inv fn work ms s" and "\<And>w. w \<in> set work \<Longrightarrow> \<exists>r e. fn w r e"
  shows "\<exists>evs t. list_all (event_of_fn fn work) evs \<and> fan_run ms evs s = Some t \<and> fan_final t"
  using assms(1)
proof (induction "fan_measure s" arbitrary: s rule: less_induct)
  case less
  show ?case
  proof (cases "fan_final s")
    case True
    then show ?thesis by (intro exI [of _ "[]"]) simp
  next
    case False
    from fan_progress [OF less.prems False assms(2)] obtain ev t where
      ev: "event_of_fn fn work ev" "fan_exec ms ev s = Some t" by blast
    have "inv_shape (length work) s" using less.prems by (simp add: fan_inv_def)
    from less.hyps [OF fan_measure_step [OF ev(2) this] fan_inv_step [OF ev(2) less.prems ev(1)]] obtain evs u where
      "list_all (event_of_fn fn work) evs" "fan_run ms evs t = Some u" "fan_final u" by blast
    with ev show ?thesis by (intro exI [of _ "ev # evs"]) auto
  qed
qed

lemma fan_run_length:
  "fan_run ms evs s = Some t \<Longrightarrow> inv_shape n s \<Longrightarrow> length evs + fan_measure t \<le> fan_measure s"
proof (induction ms evs s rule: fan_run.induct)
  case (2 ms ev evs s)
  then obtain s1 where "fan_exec ms ev s = Some s1" "fan_run ms evs s1 = Some t"
    by (auto split: option.splits)
  with 2 fan_measure_step [of ms ev s s1 n] inv_shape_step [of ms ev s s1 n] show ?case by fastforce
qed simp

end
