(* ===== verification/Fanout_Props.thy ===== *)
theory Fanout_Props
  imports Fanout
begin

section \<open>Properties of RunUntilMinSuccessOrTimeout\<close>

text \<open>
  What a caller may rely on under every schedule of the workers, every result of the calls and
  every moment of the timeout: safety of the returned list, a bound on the number of steps, and
  that the call can always be completed (no deadlock on the channel, the wait group or the context).
\<close>

text \<open>
  C18. Whatever the schedule, the list returned holds at most one result per worker, each one a
  result of its call; and unless the context timed out, it holds the result of every worker, or the
  caller asked for none, or at least the requested number of results are successes.
\<close>

theorem fanout_safe:
  assumes "fan_returns fn work minSuccess timedOut out"
  shows "(\<exists>is. distinct is \<and> length is = length out
        \<and> (\<forall>j < length out. is ! j < length work \<and> fn (work ! (is ! j)) (fst (out ! j)) (snd (out ! j))))
    \<and> length out \<le> length work
    \<and> (\<not> timedOut \<longrightarrow> length out = length work \<or> minSuccess = 0
          \<or> int32 minSuccess \<le> int (success_count out))"
proof -
  obtain s where s: "fan_inv fn work minSuccess s" "fan_final s" "fTimedOut s = timedOut"
    "fan_output s = out" using fan_returns_inv [OF assms] by blast
  let ?is = "map fst (fChan s)"
  have "distinct ?is" "length ?is = length out"
    using s(1,4) by (auto simp: fan_inv_def inv_chan_def fan_output_def)
  moreover have "?is ! j < length work \<and> fn (work ! (?is ! j)) (fst (out ! j)) (snd (out ! j))"
    if "j < length out" for j
  proof -
    have j: "j < length (fChan s)" using that s(4) by (auto simp: fan_output_def)
    obtain i r e where p: "fChan s ! j = (i, r, e)" by (cases "fChan s ! j") auto
    then have "(i, r, e) \<in> set (fChan s)" using j nth_mem by metis
    then have "i < length work \<and> fn (work ! i) r e" using s(1) by (auto simp: fan_inv_def inv_chan_def)
    then show ?thesis using p j s(4) by (auto simp: fan_output_def)
  qed
  ultimately show ?thesis using fan_inv_final [OF s(1,2)] s(3,4) by blast
qed

definition sample_run :: "nat fan_event list" where
  "sample_run =
     [Spawn, Spawn, Spawn, ZeroCheck, FnReturns 1 7 None, SendResult 1, CountSuccess 1,
      FnReturns 0 0 (Some ErrRequestingReplica), DropResult 0, FnReturns 2 9 None, DropResult 2]"

lemma fanout_safe_witness:
  "fan_returns (\<lambda>w r e. True) [''h0'', ''h1'', ''h2''] 1 False [(7 :: nat, None)]
   \<and> int32 1 \<le> int (success_count [(7 :: nat, None :: error option)])"
proof -
  have "fan_returns (\<lambda>w r e. True) [''h0'', ''h1'', ''h2''] 1 False [(7 :: nat, None)]"
    unfolding fan_returns_def
    by (rule exI [of _ sample_run], rule exI)
       (auto simp: sample_run_def fan_init_def worker_at_def set_worker_def Let_def int32_id
          fan_final_def fan_output_def numeral_3_eq_3)
  with fanout_safe [OF this] show ?thesis by simp
qed

text \<open>
  C19. The call takes at most \<open>4 n + 2\<close> steps of its goroutines for \<open>n\<close> workers, and it never gets
  stuck: from every state it can reach, as long as the calls can return, some schedule leads to the
  state in which it returns.
\<close>

theorem fanout_terminates:
  assumes "fan_run minSuccess evs (fan_init (length work)) = Some s"
    and "list_all (event_of_fn fn work) evs" "\<forall>w \<in> set work. \<exists>r e. fn w r e"
  shows "length evs \<le> 4 * length work + 2
    \<and> (\<exists>more t. list_all (event_of_fn fn work) more \<and> fan_run minSuccess more s = Some t \<and> fan_final t)"
proof
  have inv: "fan_inv fn work minSuccess s"
    by (rule fan_inv_run [OF assms(1) fan_inv_init assms(2)])
  have "fan_measure (fan_init (length work) :: 'a fan) = 4 * length work + 2"
    by (simp add: fan_measure_def fan_init_def sum_list_replicate)
  moreover have "inv_shape (length work) (fan_init (length work) :: 'a fan)"
    by (simp add: inv_shape_def fan_init_def)
  ultimately show "length evs \<le> 4 * length work + 2"
    using fan_run_length [OF assms(1)] by (metis add_leD1)
  show "\<exists>more t. list_all (event_of_fn fn work) more \<and> fan_run minSuccess more s = Some t \<and> fan_final t"
    using fan_terminates [OF inv] assms(3) by blast
qed

lemma fanout_terminates_witness:
  "\<exists>more t. list_all (event_of_fn (\<lambda>w r e. True) [''h0'', ''h1'', ''h2'']) more
    \<and> fan_run 2 more (fan_init 3 :: nat fan) = Some t \<and> fan_final t"
proof -
  have "fan_run 2 [] (fan_init (length [''h0'', ''h1'', ''h2'']) :: nat fan) = Some (fan_init 3)"
    by (simp add: numeral_3_eq_3)
  from fanout_terminates [OF this, where fn = "\<lambda>w r e. True"] show ?thesis by auto
qed

end
