(* ===== verification/Api_Client_Props.thy ===== *)
theory Api_Client_Props
  imports Api_Client
begin

section \<open>Properties of the calls between nodes\<close>

text \<open>
  The parameters a node puts into a redirected request are those the other node reads, as long as
  they need no escaping; a key with an ampersand is cut. And what each call takes for a success.
\<close>

lemma V1_DATA_chars: "CHR ''?'' \<notin> set V1_DATA" "CHR ''#'' \<notin> set V1_DATA"
  by (simp_all add: V1_DATA_def)

lemma url_safe_append: "url_safe (a @ b) \<longleftrightarrow> url_safe a \<and> url_safe b"
  by (simp add: url_safe_def)

lemma Query_MapToQueryParamStr:
  assumes "m \<noteq> []" "distinct (map fst m)" "\<forall>(k, v) \<in> set m. url_safe k \<and> url_safe v"
    and "CHR ''?'' \<notin> set host" "CHR ''#'' \<notin> set host"
  shows "parse_query (raw_query (host @ MapToQueryParamStr c m)) = permute c m"
proof -
  have "\<forall>(k, v) \<in> set m. CHR ''#'' \<notin> set k \<and> CHR ''#'' \<notin> set v"
    using assms(3) by (auto simp: url_safe_notin)
  note raw = raw_query_MapToQueryParamStr [OF assms(1,4,5) this, of c]
  have "permute c m \<noteq> []" "\<forall>(k, v) \<in> set (permute c m). url_safe k \<and> url_safe v"
    using assms(1,3) by auto
  from parse_query_join [OF this] raw show ?thesis by simp
qed

lemma Query_request:
  assumes "distinct (map fst m)" "\<forall>(k, v) \<in> set m. url_safe k \<and> url_safe v"
    and "CHR ''?'' \<notin> set (gHost node)" "CHR ''#'' \<notin> set (gHost node)"
  shows "Query (prUrl (PostKeyValue_request c node key val m)) name
      = (case map_of m name of None \<Rightarrow> [] | Some v \<Rightarrow> v)
    \<and> Query (GetKeyValue_request c node m) name = (case map_of m name of None \<Rightarrow> [] | Some v \<Rightarrow> v)"
proof (cases "m = []")
  case True
  then show ?thesis using assms V1_DATA_chars
    by (simp add: PostKeyValue_request_def GetKeyValue_request_def MapToQueryParamStr_eq Query_def
        raw_query_def parse_query_def parse_pair_def)
next
  case False
  have "CHR ''?'' \<notin> set (gHost node @ V1_DATA)" "CHR ''#'' \<notin> set (gHost node @ V1_DATA)"
    using assms(3,4) V1_DATA_chars by auto
  from Query_MapToQueryParamStr [OF False assms(1,2) this, of c] map_of_permute [OF assms(1), of c]
  show ?thesis
    by (simp add: PostKeyValue_request_def GetKeyValue_request_def Query_def)
qed

text \<open>
  C38. Parameters survive a redirect: for parameters made of unreserved characters, whatever order
  the map is visited in, the node that receives the request built by \<open>PostKeyValue\<close> or
  \<open>GetKeyValue\<close> reads, for every name, the value that was in the map, and the empty string for a
  name that was not.
\<close>

theorem query_params_roundtrip:
  assumes "distinct (map fst m)" "\<forall>(k, v) \<in> set m. url_safe k \<and> url_safe v"
    and "CHR ''?'' \<notin> set (gHost node)" "CHR ''#'' \<notin> set (gHost node)"
  shows "Query (prUrl (PostKeyValue_request c node key val m)) name
      = (case map_of m name of None \<Rightarrow> [] | Some v \<Rightarrow> v)
    \<and> Query (GetKeyValue_request c node m) name = (case map_of m name of None \<Rightarrow> [] | Some v \<Rightarrow> v)"
  by (rule Query_request [OF assms])

definition sample_peer :: NodeGossip where
  "sample_peer =
     \<lparr>gId = ''n2'', gHost = ''http://10.0.0.2:7770'', gEndOfKeyRange = 100, gLastUpdate = 1,
      gState = AVAILABLE, gReplicaCount = 2\<rparr>"

lemma query_params_roundtrip_witness:
  "Query (GetKeyValue_request [1] sample_peer [(''key'', ''user:1''), (''readquorum'', ''2'')]) ''readquorum''
     = ''2''"
  using query_params_roundtrip [of "[(''key'', ''user:1''), (''readquorum'', ''2'')]" sample_peer "[1]" _ _ "''readquorum''"]
  by (simp add: url_safe_def sample_peer_def)

text \<open>
  Without escaping, a key that contains an ampersand is read back as its part before it: the
  redirected read asks the owner for another key.
\<close>

theorem ampersand_cuts_the_key:
  assumes "url_safe a" "url_safe b" "CHR ''?'' \<notin> set (gHost node)" "CHR ''#'' \<notin> set (gHost node)"
  shows "Query (GetKeyValue_request c node [(''key'', a @ ''&'' @ b)]) ''key'' = a"
proof -
  let ?h = "gHost node @ V1_DATA"
  have safe: "url_safe ''key''" by (simp add: url_safe_def)
  have hash: "\<forall>(k, v) \<in> set [(''key'', a @ ''&'' @ b)]. CHR ''#'' \<notin> set k \<and> CHR ''#'' \<notin> set v"
    using assms(1,2) by (auto simp: url_safe_notin)
  have "CHR ''?'' \<notin> set ?h" "CHR ''#'' \<notin> set ?h" using assms(3,4) V1_DATA_chars by auto
  note raw = raw_query_MapToQueryParamStr [OF _ this hash, of c]
  have single: "permute c [p] = [p]" for p :: "string \<times> string"
    by (cases c) (simp_all add: Let_def)
  have "Split (CHR ''&'') (join (CHR ''&'') [''key='' @ a, b]) = [''key='' @ a, b]"
    using assms(1,2) by (intro Split_join) (auto simp: url_safe_notin)
  then have split: "Split (CHR ''&'') (''key='' @ a @ ''&'' @ b) = [''key='' @ a, b]" by simp
  have "parse_pair (''key='' @ a) = [(''key'', a)]"
    using parse_pair_string [OF safe assms(1)] by simp
  with split raw show ?thesis
    by (simp add: GetKeyValue_request_def Query_def parse_query_def single pair_string_def)
qed

lemma ampersand_cuts_the_key_witness:
  "Query (GetKeyValue_request [] sample_peer [(''key'', ''a&b'')]) ''key'' = ''a''"
  using ampersand_cuts_the_key [of "''a''" "''b''" sample_peer "[]"]
  by (simp add: url_safe_def sample_peer_def)

text \<open>
  What counts as a success: a redirected write only when the owner answered with a body that
  says so; a redirected read on every body that parses, an error page of the right shape included;
  and a replica write on any answer at all, whatever its status, since the status is never looked at.
\<close>

theorem success_conditions:
  "(PostKeyValue ex = None \<longleftrightarrow> (\<exists>status r. ex = Body status (Some r) \<and> pdIsSuccess r))
   \<and> (GetKeyValue ex' = Inr g \<longleftrightarrow> (\<exists>status. ex' = Body status (Some g)))
   \<and> (PostRawKeyValue ex'' = None \<longleftrightarrow> (\<exists>e. ex'' = ReadErr e) \<or> (\<exists>status b. ex'' = Body status b))"
  by (cases ex; cases ex'; cases ex'')
     (auto simp: PostKeyValue_def GetKeyValue_def PostRawKeyValue_def zeroPostDataResponse_def Let_def
       split: option.splits)

end
