(* ===== verification/Node_Data.thy ===== *)
theory Node_Data
  imports Node_Gossip Data_Store Api_Client Fanout
begin

section \<open>Reads and writes: the data handlers of nodes/main.go\<close>

text \<open>
  \<open>postData\<close>, \<open>getData\<close> and \<open>postReplicaData\<close>. A process is its node, its store (\<open>storagev2\<close>) and
  \<open>GVar_ReplicaCount\<close>. A handler returns the new process, the outcome of the request (a panic, or
  the status with the body) and its effects: the requests it sends and the calls of the write hook.

  What comes from outside is a parameter: \<open>redirect\<close> is what the owner answered when a request was
  sent on to it, \<open>fanout\<close> the list \<open>RunUntilMinSuccessOrTimeout\<close> returned for the given peers and
  number of successes (\<open>fan_returns\<close> of \<open>Fanout\<close> says which lists are possible), and the choices
  are those of the runtime: the visits of maps, the ties of the sorts, the random permutation.
\<close>

subsection \<open>State, replies and effects\<close>

record 'h Process =
  pNode :: Node
  pStore :: "'h DataStore"
  pReplicaCount :: int

datatype reply = PostReply PostDataResponse | GetReply GetDataResponse | RawReply PostDataResponse

datatype 'h effect =
    SendPost post_request
  | SendGet string
  | Replicate "(string \<times> HandlePostRawReq) list" int
  | ReadReplicas "string list" int
  | HookCall "'h hook_call"

type_synonym 'h handled = "'h Process \<times> (nat \<times> reply) outcome \<times> 'h effect list"

definition mislaneous_of :: "string \<Rightarrow> string list \<Rightarrow> string list" where
  "mislaneous_of include names = filter (\<lambda>f. f \<in> set (Split (CHR '','') include)) names"

definition post_error :: "string list option \<Rightarrow> string \<Rightarrow> error \<Rightarrow> reply" where
  "post_error m msg e =
     PostReply \<lparr>pdIsSuccess = False, pdMessage = msg, pdMetadata = map_option errorMetaData m,
                pdErr = Some e\<rparr>"

definition get_error :: "string list option \<Rightarrow> string \<Rightarrow> error \<Rightarrow> reply" where
  "get_error m msg e =
     GetReply \<lparr>gdIsSuccess = False, gdValue = JNull, gdVersion = 0, gdMessage = msg,
               gdMetadata = map_option errorMetaData m, gdErr = Some e\<rparr>"

definition post_ok :: "MetaData \<Rightarrow> reply" where
  "post_ok md = PostReply \<lparr>pdIsSuccess = True, pdMessage = ''OK'', pdMetadata = Some md, pdErr = None\<rparr>"

definition get_ok :: "any \<Rightarrow> u64 \<Rightarrow> MetaData \<Rightarrow> reply" where
  "get_ok v n md =
     GetReply \<lparr>gdIsSuccess = True, gdValue = v, gdVersion = n, gdMessage = ''OK'',
               gdMetadata = Some md, gdErr = None\<rparr>"

text \<open>The nodes of the gossip table in the order of their range ends.\<close>

definition sorted_members :: "choice \<Rightarrow> choice \<Rightarrow> choice \<Rightarrow> table \<Rightarrow> NodeGossip list" where
  "sorted_members c0 c1 c2 t = sort_slice c2 gEndOfKeyRange (MapToArr c1 (Read c0 t))"

text \<open>The results without an error, counted.\<close>

definition count_ok :: "('r \<times> error option) list \<Rightarrow> int" where
  "count_ok res = int (length (filter (\<lambda>(r, e). e = None) res))"

text \<open>\<open>ownerAndReplicas[1:]\<close>\<close>

definition slice_from_1 :: "'a list \<Rightarrow> 'a list outcome" where
  "slice_from_1 xs = (if xs = [] then Panic SliceBoundsOutOfRange else Ret (tl xs))"

subsection \<open>postData\<close>

definition GetDefaultWriteQuorum :: "int \<Rightarrow> string" where
  "GetDefaultWriteQuorum rc = show_int (go_quot rc 2)"

text \<open>
  The checks on the request, up to the range check of \<open>writequorumInt\<close>: a reply, or the key, the
  value, the string and the number of the write quorum. The type assertion on the key may panic.
\<close>

definition postData_parse ::
    "int \<Rightarrow> string list \<Rightarrow> (string \<times> json) list option \<Rightarrow> string
      \<Rightarrow> ((nat \<times> reply) + (string \<times> any \<times> string \<times> int)) outcome" where
  "postData_parse rc mis body wq =
     (case body of
        None \<Rightarrow> Ret (Inl (400, post_error (Some mis) ''something wrong with body'' BindError))
      | Some b \<Rightarrow>
          (case map_of b ''key'' of
             Some (JStr key) \<Rightarrow>
               (let value = (case map_of b ''value'' of None \<Rightarrow> JNull | Some v \<Rightarrow> v);
                    writequorum = (if blank wq then GetDefaultWriteQuorum rc else wq)
                in case Atoi writequorum of
                     Inl _ \<Rightarrow> Ret (Inl (400, post_error None ''writequorum must be valid int''
                                           (NumError writequorum)))
                   | Inr v \<Rightarrow>
                       (let writequorumInt = (if v < 0 then rc else v)
                        in if writequorumInt < - 1 \<or> rc < writequorumInt
                           then Ret (Inl (400, get_error (Some mis)
                                  ''valid value for writequorum lies between -1 and REPLICA_COUNT''
                                  ErrInvalidReadQuorumValue))
                           else Ret (Inr (key, value, writequorum, writequorumInt))))
           | _ \<Rightarrow> Panic TypeAssertion))"

text \<open>The request is for another node: send it on, and answer by what came back.\<close>

definition postData_redirect ::
    "choice \<Rightarrow> 'h Process \<Rightarrow> string list \<Rightarrow> NodeGossip \<Rightarrow> string \<Rightarrow> any \<Rightarrow> string
      \<Rightarrow> PostDataResponse exchange \<Rightarrow> 'h handled" where
  "postData_redirect cq p mis owner key val writequorum redirect =
     (let req = PostKeyValue_request cq owner key val
                  [(''writequorum'', writequorum), (''redirected'', ''true'')]
      in case PostKeyValue redirect of
           Some rerr \<Rightarrow>
             (p, Ret (500, post_error (Some mis) ''err posting value to owner node'' rerr), [SendPost req])
         | None \<Rightarrow>
             (p, Ret (200, post_ok \<lparr>mdRedirected = True, mdServicedBy = nId (pNode p),
                            mdOwnedBy = gId owner, mdReplicaCount = 0, mdMislaneous = mis\<rparr>),
              [SendPost req]))"

text \<open>The tail of the handler on the owner: the fan-out to the replicas and the answer.\<close>

definition postData_fanout ::
    "'h Process \<Rightarrow> string list \<Rightarrow> NodeGossip \<Rightarrow> string \<Rightarrow> any \<Rightarrow> u64 \<Rightarrow> NodeGossip list \<Rightarrow> int
      \<Rightarrow> (NodeGossip list \<Rightarrow> int \<Rightarrow> (NodeGossip \<times> error option) list)
      \<Rightarrow> (nat \<times> reply) outcome \<times> 'h effect list" where
  "postData_fanout p mis owner key val newVersion replicas writequorumInt fanout =
     (let res = fanout replicas writequorumInt
      in (Ret (200, post_ok \<lparr>mdRedirected = True, mdServicedBy = nId (pNode p),
                      mdOwnedBy = gId owner, mdReplicaCount = count_ok res, mdMislaneous = mis\<rparr>),
          [Replicate (map (\<lambda>r. PostRawKeyValue_request r key val newVersion) replicas) writequorumInt]))"

text \<open>The request is for this node: check, persist, find the replicas, fan out.\<close>

definition postData_owner ::
    "choice \<Rightarrow> 'h Process \<Rightarrow> string list \<Rightarrow> NodeGossip list \<Rightarrow> NodeGossip \<Rightarrow> u64 \<Rightarrow> string \<Rightarrow> any \<Rightarrow> int
      \<Rightarrow> (NodeGossip list \<Rightarrow> int \<Rightarrow> (NodeGossip \<times> error option) list) \<Rightarrow> 'h handled" where
  "postData_owner cs p mis ar owner token key val writequorumInt fanout =
     (if NumNodeInState (nGossip (pNode p)) AVAILABLE < pReplicaCount p
      then (p, Ret (424, post_error (Some mis)
                 ''available nodes in cluster should be atleast equal to replicacount''
                 ErrNotEnoughNodes), [])
      else
        (case Put cs (pStore p) key val of
           Panic e \<Rightarrow> (p, Panic e, [])
         | Ret (store', newVersion, Some e, calls) \<Rightarrow>
             (p\<lparr>pStore := store'\<rparr>, Ret (500, post_error (Some mis)
                ''error in writing value to owner node, write not replicated to replicas'' e),
              map HookCall calls)
         | Ret (store', newVersion, None, calls) \<Rightarrow>
             (let p1 = p\<lparr>pStore := store'\<rparr>
              in case GetNNode NodeGossip_XEndOfKeyRange NodeGossip_XState ar token
                        (int64 (pReplicaCount p + 1)) of
                   Panic e \<Rightarrow> (p1, Panic e, map HookCall calls)
                 | Ret (Inl e) \<Rightarrow>
                     (p1, Ret (500, post_error (Some mis) ''err in fetching replicas'' e),
                      map HookCall calls)
                 | Ret (Inr ownerAndReplicas) \<Rightarrow>
                     (case slice_from_1 ownerAndReplicas of
                        Panic e \<Rightarrow> (p1, Panic e, map HookCall calls)
                      | Ret replicas \<Rightarrow>
                          (let (r, effs) = postData_fanout p1 mis owner key val newVersion replicas
                                             writequorumInt fanout
                           in (p1, r, map HookCall calls @ effs))))))"

text \<open>The permutations chosen by the runtime during one request.\<close>

record choices =
  chRead :: choice
  chArr :: choice
  chSort :: choice
  chStore :: choice
  chQuery :: choice
  chPerm :: choice

definition postData ::
    "choices \<Rightarrow> 'h Process \<Rightarrow> string \<Rightarrow> string \<Rightarrow> (string \<times> json) list option
      \<Rightarrow> PostDataResponse exchange \<Rightarrow> (NodeGossip list \<Rightarrow> int \<Rightarrow> (NodeGossip \<times> error option) list)
      \<Rightarrow> 'h handled" where
  "postData ch p include wq body redirect fanout =
     (let mis = mislaneous_of include [''trace'']
      in case postData_parse (pReplicaCount p) mis body wq of
           Panic e \<Rightarrow> (p, Panic e, [])
         | Ret (Inl r) \<Rightarrow> (p, Ret r, [])
         | Ret (Inr (key, val, writequorum, writequorumInt)) \<Rightarrow>
             (let ar = sorted_members (chRead ch) (chArr ch) (chSort ch) (nGossip (pNode p))
              in case HashKey key TOTAL_SLOTS of
                   Panic e \<Rightarrow> (p, Panic e, [])
                 | Ret token \<Rightarrow>
                     (case GetNode NodeGossip_XEndOfKeyRange NodeGossip_XState ar token of
                        Inl e \<Rightarrow> (p, Ret (500, post_error (Some mis) ''err while getting owner node'' e), [])
                      | Inr owner \<Rightarrow>
                          if gId owner \<noteq> nId (pNode p)
                          then postData_redirect (chQuery ch) p mis owner key val writequorum redirect
                          else postData_owner (chStore ch) p mis ar owner token key val
                                 writequorumInt fanout)))"

subsection \<open>postReplicaData\<close>

definition postReplicaData ::
    "choices \<Rightarrow> 'h Process \<Rightarrow> HandlePostRawReq option \<Rightarrow> 'h handled" where
  "postReplicaData ch p body =
     (case body of
        None \<Rightarrow> (p, Ret (400, RawReply \<lparr>pdIsSuccess = False, pdMessage = ''something wrong with body'',
                     pdMetadata = None, pdErr = Some BindError\<rparr>), [])
      | Some b \<Rightarrow>
          (case PutRaw (chStore ch) (pStore p) (rqKey b) (rqValue b) (Some (rqVersion b)) True of
             Panic e \<Rightarrow> (p, Panic e, [])
           | Ret (store', n, Some e, calls) \<Rightarrow>
               (p\<lparr>pStore := store'\<rparr>, Ret (500, RawReply \<lparr>pdIsSuccess = False,
                  pdMessage = ''error while putting raw val in store'', pdMetadata = None,
                  pdErr = Some e\<rparr>), map HookCall calls)
           | Ret (store', n, None, calls) \<Rightarrow>
               (p\<lparr>pStore := store'\<rparr>, Ret (200, RawReply \<lparr>pdIsSuccess = True, pdMessage = ''OK'',
                  pdMetadata = None, pdErr = None\<rparr>), map HookCall calls)))"

subsection \<open>Versions as float64\<close>

text \<open>
  \<open>getData\<close> compares versions as \<open>float64\<close>. \<open>float64_of_u64\<close> is the conversion of a \<open>uint64\<close>: to 53
  significant bits, rounding to nearest and ties to even; its values are naturals. \<open>None\<close> stands
  for \<open>math.Inf(-1)\<close>. The conversion back of a value that does not fit is the platform's, \<open>conv\<close>.
\<close>

fun bit_length :: "nat \<Rightarrow> nat" where
  "bit_length n = (if n = 0 then 0 else Suc (bit_length (n div 2)))"

declare bit_length.simps [simp del]

definition round_to_even :: "nat \<Rightarrow> nat \<Rightarrow> nat" where
  "round_to_even n k =
     (let q = n div 2 ^ k; r = n mod 2 ^ k
      in if 2 ^ k < 2 * r \<or> (2 ^ k = 2 * r \<and> odd q) then q + 1 else q)"

definition float64_of_u64 :: "u64 \<Rightarrow> nat" where
  "float64_of_u64 v =
     (let n = unat v in if n < 2 ^ 53 then n
      else (let k = bit_length n - 53 in round_to_even n k * 2 ^ k))"

definition float64_less :: "nat option \<Rightarrow> nat option \<Rightarrow> bool" where
  "float64_less a b \<longleftrightarrow>
     (case b of None \<Rightarrow> False | Some y \<Rightarrow> (case a of None \<Rightarrow> True | Some x \<Rightarrow> x < y))"

definition u64_of_float64 :: "(nat option \<Rightarrow> u64) \<Rightarrow> nat option \<Rightarrow> u64" where
  "u64_of_float64 conv x =
     (case x of Some n \<Rightarrow> if n < 2 ^ 64 then of_nat n else conv x | None \<Rightarrow> conv x)"

subsection \<open>getData\<close>

definition GetDefaultReadQuorum :: string where
  "GetDefaultReadQuorum = ''1''"

text \<open>The loop over the results: \<open>latestVal\<close> and \<open>latestVersion\<close>.\<close>

definition latest_step ::
    "GetDataResponse option \<times> error option \<Rightarrow> any \<times> nat option \<Rightarrow> any \<times> nat option" where
  "latest_step r acc =
     (case fst r of
        None \<Rightarrow> acc
      | Some g \<Rightarrow>
          if float64_less (snd acc) (Some (float64_of_u64 (gdVersion g)))
          then (gdValue g, Some (float64_of_u64 (gdVersion g)))
          else acc)"

definition latest_of :: "(GetDataResponse option \<times> error option) list \<Rightarrow> any \<times> nat option" where
  "latest_of res = fold latest_step res (JNull, None)"

text \<open>The checks on the request: a reply, or the string and the number of the read quorum.\<close>

definition getData_parse :: "int \<Rightarrow> string list \<Rightarrow> string \<Rightarrow> (nat \<times> reply) + (string \<times> int)" where
  "getData_parse rc mis rq =
     (let readquorum = (if blank rq then GetDefaultReadQuorum else rq)
      in case Atoi readquorum of
           Inl _ \<Rightarrow> Inl (400, get_error (Some mis) ''readquorum must be valid int'' (NumError readquorum))
         | Inr readquorumInt \<Rightarrow>
             if readquorumInt < - 1 \<or> rc < readquorumInt
             then Inl (400, get_error (Some mis)
                    ''valid value for readquorum lies between -1 and REPLICA_COUNT''
                    ErrInvalidReadQuorumValue)
             else Inr (readquorum, readquorumInt))"

text \<open>The value is read here: on the owner, or for a read quorum of 0.\<close>

definition getData_local :: "'h Process \<Rightarrow> string list \<Rightarrow> NodeGossip \<Rightarrow> string \<Rightarrow> (nat \<times> reply) outcome" where
  "getData_local p mis owner key =
     bind_outcome (GetValAndVersion (pStore p) key)
       (\<lambda>(val, version, err).
          case err of
            Some e \<Rightarrow> Ret (500, get_error (Some mis) ''error getting value from store'' e)
          | None \<Rightarrow> Ret (200, get_ok val version
                      \<lparr>mdRedirected = False, mdServicedBy = nId (pNode p), mdOwnedBy = gId owner,
                       mdReplicaCount = 1, mdMislaneous = mis\<rparr>))"

definition getData_redirect ::
    "choice \<Rightarrow> 'h Process \<Rightarrow> string list \<Rightarrow> NodeGossip \<Rightarrow> string \<Rightarrow> string
      \<Rightarrow> GetDataResponse exchange \<Rightarrow> (nat \<times> reply) outcome \<times> 'h effect list" where
  "getData_redirect cq p mis owner key readquorum redirect =
     (let url = GetKeyValue_request cq owner [(''key'', key), (''readquorum'', readquorum)]
      in (case GetKeyValue redirect of
            Inl rerr \<Rightarrow> Ret (500, get_error (Some mis) ''error getting value owner node'' rerr)
          | Inr respBody \<Rightarrow>
              Ret (200, get_ok (gdValue respBody) (gdVersion respBody)
                \<lparr>mdRedirected = True, mdServicedBy = nId (pNode p), mdOwnedBy = gId owner,
                 mdReplicaCount = 1, mdMislaneous = mis\<rparr>),
          [SendGet url]))"

text \<open>The value is read from \<open>readquorumInt\<close> replicas, chosen at random.\<close>

definition getData_replicas ::
    "(nat option \<Rightarrow> u64) \<Rightarrow> choice \<Rightarrow> choice \<Rightarrow> 'h Process \<Rightarrow> string \<Rightarrow> string list \<Rightarrow> NodeGossip
      \<Rightarrow> NodeGossip list \<Rightarrow> string \<Rightarrow> int
      \<Rightarrow> (NodeGossip list \<Rightarrow> int \<Rightarrow> (GetDataResponse option \<times> error option) list)
      \<Rightarrow> (nat \<times> reply) outcome \<times> 'h effect list" where
  "getData_replicas conv cp cq p include mis owner replicas key readquorumInt fanout =
     (case PickNRandom cp replicas readquorumInt of
        Panic e \<Rightarrow> (Panic e, [])
      | Ret randomReplica \<Rightarrow>
          (let n = int (length randomReplica);
               res = fanout randomReplica n;
               (latestVal, latestVersion) = latest_of res
           in (Ret (200, get_ok latestVal (u64_of_float64 conv latestVersion)
                 \<lparr>mdRedirected = True, mdServicedBy = nId (pNode p), mdOwnedBy = gId owner,
                  mdReplicaCount = count_ok res,
                  mdMislaneous = mis @ mislaneous_of include [''res'']\<rparr>),
               [ReadReplicas
                  (map (\<lambda>r. GetKeyValue_request cq r [(''key'', key), (''readquorum'', ''0'')]) randomReplica)
                  n])))"

definition getData ::
    "(nat option \<Rightarrow> u64) \<Rightarrow> choices \<Rightarrow> 'h Process \<Rightarrow> string \<Rightarrow> string \<Rightarrow> string
      \<Rightarrow> GetDataResponse exchange
      \<Rightarrow> (NodeGossip list \<Rightarrow> int \<Rightarrow> (GetDataResponse option \<times> error option) list)
      \<Rightarrow> (nat \<times> reply) outcome \<times> 'h effect list" where
  "getData conv ch p include key rq redirect fanout =
     (let mis = mislaneous_of include [''trace'']
      in case getData_parse (pReplicaCount p) mis rq of
           Inl r \<Rightarrow> (Ret r, [])
         | Inr (readquorum, readquorumInt) \<Rightarrow>
             (let ar = SortNodeInPlace (chSort ch) NodeGossip_XEndOfKeyRange
                         (MapToArr (chArr ch) (Read (chRead ch) (nGossip (pNode p))))
              in case bind_outcome (HashKey key TOTAL_SLOTS)
                        (\<lambda>token. GetNNode NodeGossip_XEndOfKeyRange NodeGossip_XState ar token
                                   (int64 (pReplicaCount p + 1))) of
                   Panic e \<Rightarrow> (Panic e, [])
                 | Ret (Inl e) \<Rightarrow> (Ret (500, post_error (Some mis) ''err in fetching replicas'' e), [])
                 | Ret (Inr ownerAndReplicas) \<Rightarrow>
                     (case ownerAndReplicas of
                        [] \<Rightarrow> (Panic IndexOutOfRange, [])
                      | ownerNode # replicas \<Rightarrow>
                          if nId (pNode p) = gId ownerNode \<or> readquorumInt = 0
                          then (getData_local p mis ownerNode key, [])
                          else if readquorumInt < 0
                          then getData_redirect (chQuery ch) p mis ownerNode key readquorum redirect
                          else getData_replicas conv (chPerm ch) (chQuery ch) p include mis ownerNode
                                 replicas key readquorumInt fanout)))"

end
