(* ===== verification/Data_Props.thy ===== *)
theory Data_Props
  imports Node_Data Gossip_Props
begin

section \<open>Properties of the data handlers\<close>

text \<open>
  What clients get from \<open>postData\<close> and \<open>getData\<close>: which requests write, what a successful write
  leaves, what an error leaves, what the write quorum does and does not ensure, reading one's own
  writes at the owner, and which value a read from replicas returns.
\<close>

subsection \<open>Shape of the handlers\<close>

definition ring_of :: "choices \<Rightarrow> 'h Process \<Rightarrow> NodeGossip list" where
  "ring_of ch p = sorted_members (chRead ch) (chArr ch) (chSort ch) (nGossip (pNode p))"

lemma ring_of_getData:
  "SortNodeInPlace (chSort ch) NodeGossip_XEndOfKeyRange
     (MapToArr (chArr ch) (Read (chRead ch) (nGossip (pNode p)))) = ring_of ch p"
  by (simp add: ring_of_def sorted_members_def SortNodeInPlace_def)

lemma ring_of_sorted [simp]: "sorted (map gEndOfKeyRange (ring_of ch p))"
  by (simp add: ring_of_def sorted_members_def)

lemma ring_of_members:
  assumes "table_wf (nGossip (pNode p))"
  shows "mset (ring_of ch p) = mset (map snd (gsStore (nGossip (pNode p))))"
proof -
  have "Read (chRead ch) (nGossip (pNode p)) = permute (chRead ch) (gsStore (nGossip (pNode p)))"
    by (rule Read_id [OF assms]) simp
  then show ?thesis by (simp add: ring_of_def sorted_members_def)
qed

lemma ring_of_unique:
  assumes "table_wf (nGossip (pNode p))" "pNode p' = pNode p"
    and "distinct (map (gEndOfKeyRange \<circ> snd) (gsStore (nGossip (pNode p))))"
  shows "ring_of ch' p' = ring_of ch p"
proof -
  have "distinct (map gEndOfKeyRange (ring_of ch p))"
    using assms(3) ring_of_members [OF assms(1), of ch] mset_map [of gEndOfKeyRange]
    by (metis map_map mset_eq_imp_distinct_iff)
  moreover have "mset (ring_of ch' p') = mset (ring_of ch p)"
    using ring_of_members [of p' ch'] ring_of_members [OF assms(1), of ch] assms(1,2) by simp
  ultimately have "sort_slice [] gEndOfKeyRange (ring_of ch p) = ring_of ch' p'"
    "sort_slice [] gEndOfKeyRange (ring_of ch p) = ring_of ch p"
    by (intro sort_slice_unique; simp)+
  then show ?thesis by simp
qed

text \<open>The path of a write that reaches the store, in one step.\<close>

definition owned_write ::
    "choices \<Rightarrow> 'h Process \<Rightarrow> string list \<Rightarrow> string \<Rightarrow> (string \<times> json) list option
      \<Rightarrow> string \<Rightarrow> any \<Rightarrow> int \<Rightarrow> NodeGossip \<Rightarrow> bool" where
  "owned_write ch p mis wq body key val q owner \<longleftrightarrow>
     (\<exists>s. postData_parse (pReplicaCount p) mis body wq = Ret (Inr (key, val, s, q)))
     \<and> GetNode gEndOfKeyRange gState (ring_of ch p) (token_of key) = Inr owner
     \<and> gId owner = nId (pNode p) \<and> pReplicaCount p \<le> NumNodeInState (nGossip (pNode p)) AVAILABLE"

lemma postData_owned:
  assumes "store_wf (pStore p)" "owned_write ch p (mislaneous_of include [''trace'']) wq body key val q owner"
  shows "postData ch p include wq body redirect fanout =
    (let store' = written (chStore ch) (pStore p) key val None False;
         n = next_version (pStore p) key None;
         calls = map HookCall (case dsHook (pStore p) of None \<Rightarrow> [] | Some h \<Rightarrow> [(h, key, val, n)]);
         p1 = p\<lparr>pStore := store'\<rparr>
     in case GetNNode gEndOfKeyRange gState (ring_of ch p) (token_of key) (int64 (pReplicaCount p + 1)) of
          Panic e \<Rightarrow> (p1, Panic e, calls)
        | Ret (Inl e) \<Rightarrow>
            (p1, Ret (500, post_error (Some (mislaneous_of include [''trace''])) ''err in fetching replicas'' e), calls)
        | Ret (Inr xs) \<Rightarrow>
            (case slice_from_1 xs of
               Panic e \<Rightarrow> (p1, Panic e, calls)
             | Ret replicas \<Rightarrow>
                 (let (r, effs) = postData_fanout p1 (mislaneous_of include [''trace'']) owner key val n replicas q fanout
                  in (p1, r, calls @ effs))))"
  using assms
  by (auto simp: postData_def owned_write_def Let_def ring_of_def [symmetric] postData_owner_def Put_eq
      split: outcome.splits sum.splits)

text \<open>A request that is not an owned write leaves the process as it was.\<close>

lemma postData_not_owned:
  assumes "\<nexists>key val q owner. owned_write ch p (mislaneous_of include [''trace'']) wq body key val q owner"
  shows "fst (postData ch p include wq body redirect fanout) = p"
proof -
  let ?mis = "mislaneous_of include [''trace'']"
  consider e where "postData_parse (pReplicaCount p) ?mis body wq = Panic e"
    | r where "postData_parse (pReplicaCount p) ?mis body wq = Ret (Inl r)"
    | key val s q where "postData_parse (pReplicaCount p) ?mis body wq = Ret (Inr (key, val, s, q))"
    by (metis outcome.exhaust old.sum.exhaust prod_cases4)
  then show ?thesis
  proof cases
    case (3 key val s q)
    show ?thesis
    proof (cases "GetNode gEndOfKeyRange gState (ring_of ch p) (token_of key)")
      case (Inr owner)
      then have "gId owner = nId (pNode p) \<Longrightarrow> NumNodeInState (nGossip (pNode p)) AVAILABLE < pReplicaCount p"
        using assms 3 by (auto simp: owned_write_def not_le [symmetric])
      then show ?thesis using 3 Inr
        by (auto simp: postData_def Let_def ring_of_def [symmetric] postData_redirect_def
            postData_owner_def split: option.splits)
    qed (use 3 in \<open>simp add: postData_def Let_def ring_of_def [symmetric]\<close>)
  qed (simp_all add: postData_def)
qed

lemma owned_write_unique:
  assumes "owned_write ch p mis wq body key val q owner" "owned_write ch p mis wq body key' val' q' owner'"
  shows "key' = key \<and> val' = val \<and> q' = q \<and> owner' = owner"
  using assms by (auto simp: owned_write_def)

lemma postData_owned_store:
  assumes "store_wf (pStore p)" "owned_write ch p (mislaneous_of include [''trace'']) wq body key val q owner"
  shows "fst (postData ch p include wq body redirect fanout)
    = p\<lparr>pStore := written (chStore ch) (pStore p) key val None False\<rparr>"
  unfolding postData_owned [OF assms]
  by (auto simp: Let_def split: outcome.splits sum.splits prod.splits)

text \<open>
  C5. Which requests write: \<open>postData\<close> changes the store exactly when the request parses, this node
  is the owner of the key, and at least \<open>GVar_ReplicaCount\<close> nodes are available; then it is one
  ordinary write, and it never changes anything else of the process.
\<close>

theorem postData_writes_only_as_owner:
  assumes "store_wf (pStore p)" "postData ch p include wq body redirect fanout = (p', out, effs)"
  shows "pNode p' = pNode p \<and> pReplicaCount p' = pReplicaCount p \<and> store_wf (pStore p')
    \<and> (if \<exists>key val q owner. owned_write ch p (mislaneous_of include [''trace'']) wq body key val q owner
       then \<exists>key val q owner. owned_write ch p (mislaneous_of include [''trace'']) wq body key val q owner
              \<and> pStore p' = written (chStore ch) (pStore p) key val None False
       else p' = p)"
proof (cases "\<exists>key val q owner. owned_write ch p (mislaneous_of include [''trace'']) wq body key val q owner")
  case True
  then obtain key val q owner where
    o: "owned_write ch p (mislaneous_of include [''trace'']) wq body key val q owner" by blast
  from postData_owned_store [OF assms(1) o, of redirect fanout] assms(2)
  have "p' = p\<lparr>pStore := written (chStore ch) (pStore p) key val None False\<rparr>" by simp
  then show ?thesis using o assms(1) store_wf_written by auto
next
  case False
  then have "\<nexists>key val q owner. owned_write ch p (mislaneous_of include [''trace'']) wq body key val q owner"
    by blast
  from postData_not_owned [OF this, of redirect fanout] assms show ?thesis using False by simp
qed

definition sample_process :: "int \<Rightarrow> nat Process" where
  "sample_process rc =
     \<lparr>pNode = (sample_node AVAILABLE)\<lparr>nEndOfKeyRange := TOTAL_SLOTS,
        nGossip := Upsert NewGossip ''n1''
          \<lparr>gId = ''n1'', gHost = ''h1'', gEndOfKeyRange = TOTAL_SLOTS, gLastUpdate = 1,
           gState = AVAILABLE, gReplicaCount = rc\<rparr>\<rparr>,
      pStore = NewDataStore, pReplicaCount = rc\<rparr>"

definition no_choices :: choices where
  "no_choices = \<lparr>chRead = [], chArr = [], chSort = [], chStore = [], chQuery = [], chPerm = []\<rparr>"

definition sample_request :: "(string \<times> json) list option" where
  "sample_request = Some [(''key'', JStr ''k''), (''value'', JStr ''v'')]"

definition sample_owner :: "int \<Rightarrow> NodeGossip" where
  "sample_owner rc =
     \<lparr>gId = ''n1'', gHost = ''h1'', gEndOfKeyRange = TOTAL_SLOTS, gLastUpdate = 1,
      gState = AVAILABLE, gReplicaCount = rc\<rparr>"

lemma sample_ring_of: "ring_of ch (sample_process rc) = [sample_owner rc]"
proof -
  have single: "permute c [x] = [x]" for c and x :: "'a" by (cases c) (simp_all add: Let_def)
  show ?thesis
    by (simp add: ring_of_def sorted_members_def sample_process_def MapToArr_eq Gossip_Read_def
        Gossip_Upsert_def NewGossip_def Let_def single sample_owner_def)
qed

lemma sample_GetNode: "GetNode gEndOfKeyRange gState [sample_owner rc] (token_of key) = Inr (sample_owner rc)"
  using token_of_less [of key] by (simp add: sample_owner_def)

lemma sample_parse:
  assumes "0 \<le> rc" "rc < 2 ^ 63"
  shows "postData_parse rc mis sample_request ''0'' = Ret (Inr (''k'', JStr ''v'', ''0'', 0))"
proof -
  have "Atoi ''0'' = Inr 0" by code_simp
  moreover have "\<not> blank ''0''" by (simp add: blank_def)
  ultimately show ?thesis using assms by (simp add: postData_parse_def sample_request_def Let_def)
qed

lemma sample_owned:
  assumes "0 \<le> rc" "rc \<le> 1"
  shows "owned_write ch (sample_process rc) mis ''0'' sample_request ''k'' (JStr ''v'') 0 (sample_owner rc)"
proof -
  have "NumNodeInState (nGossip (pNode (sample_process rc))) AVAILABLE = 1"
    by (simp add: sample_process_def Gossip_Upsert_def NewGossip_def NumNodeInState_def count_add_def Let_def)
  then show ?thesis using assms sample_parse [of rc mis]
    using token_of_less [of "''k''"]
    by (simp add: owned_write_def sample_ring_of sample_GetNode) (simp add: sample_process_def sample_owner_def sample_node_def)
qed

lemma sample_store [simp]: "pStore (sample_process rc) = NewDataStore" "pReplicaCount (sample_process rc) = rc"
  by (simp_all add: sample_process_def)

lemma postData_writes_only_as_owner_witness:
  "store_wf (pStore (fst (postData no_choices (sample_process 0) [] ''0'' sample_request (DoErr BindError) (\<lambda>_ _. []))))"
proof -
  obtain p' out effs where
    r: "postData no_choices (sample_process 0) [] ''0'' sample_request (DoErr BindError) (\<lambda>_ _. []) = (p', out, effs)"
    by (cases "postData no_choices (sample_process 0) [] ''0'' sample_request (DoErr BindError) (\<lambda>_ _. [])") auto
  from postData_writes_only_as_owner [OF _ r] show ?thesis by (simp add: r)
qed

lemma GetNNode_returns:
  assumes "0 \<le> rc" "rc < 2 ^ 63 - 1"
  shows "returns (GetNNode eokr st ns token (int64 (rc + 1)))"
proof -
  have "int64 (rc + 1) = rc + 1" using assms by (intro int64_id) simp_all
  then show ?thesis using assms(1) by (simp add: GetNNode_eq Let_def split: sum.splits)
qed

lemma replicas_Ret:
  assumes "GetNNode eokr st ns token (int64 (rc + 1)) = Ret (Inr xs)" "0 \<le> rc" "rc < 2 ^ 63 - 1"
  shows "int64 (rc + 1) = rc + 1" "xs \<noteq> []" "GetNode eokr st ns token = Inr (hd xs)" "int (length xs) = rc + 1"
proof -
  show i: "int64 (rc + 1) = rc + 1" using assms(2,3) by (intro int64_id) simp_all
  show "xs \<noteq> []" "GetNode eokr st ns token = Inr (hd xs)"
    using GetNNode_hd [OF assms(1)] assms(2) by (simp_all add: i)
  show "int (length xs) = rc + 1" using GetNNode_Inr [OF assms(1)] assms(2) by (simp add: i)
qed

lemma postData_success_facts:
  assumes "store_wf (pStore p)" "0 \<le> pReplicaCount p" "pReplicaCount p < 2 ^ 63 - 1"
    and "owned_write ch p (mislaneous_of include [''trace'']) wq body key val q owner"
    and "\<forall>w m. latest (pStore p) key = Some (w, m) \<longrightarrow> m \<noteq> - 1"
    and "postData ch p include wq body redirect fanout = (p', Ret (200, r), effs)"
  shows "\<exists>n replicas. GetValAndVersion (pStore p') key = Ret (val, n, None)
    \<and> n = next_version (pStore p) key None
    \<and> (\<forall>k. k \<noteq> key \<longrightarrow> GetValAndVersion (pStore p') k = GetValAndVersion (pStore p) k)
    \<and> GetNNode gEndOfKeyRange gState (ring_of ch p) (token_of key) (pReplicaCount p + 1)
        = Ret (Inr (owner # replicas))
    \<and> filter (\<lambda>e. \<exists>l m. e = Replicate l m) effs
        = [Replicate (map (\<lambda>x. PostRawKeyValue_request x key val n) replicas) q]
    \<and> r = post_ok \<lparr>mdRedirected = True, mdServicedBy = nId (pNode p), mdOwnedBy = gId owner,
                   mdReplicaCount = count_ok (fanout replicas q),
                   mdMislaneous = mislaneous_of include [''trace'']\<rparr>"
proof -
  let ?n = "next_version (pStore p) key None"
  let ?store = "written (chStore ch) (pStore p) key val None False"
  let ?g = "GetNNode gEndOfKeyRange gState (ring_of ch p) (token_of key) (int64 (pReplicaCount p + 1))"
  note eq = postData_owned [OF assms(1,4), of redirect fanout, unfolded assms(6) Let_def]
  obtain xs where xs: "?g = Ret (Inr xs)"
    using eq by (cases ?g rule: outcome.exhaust) (auto split: sum.splits)
  note rep = replicas_Ret [OF xs assms(2,3)]
  have owner: "hd xs = owner" using rep(3) assms(4) by (simp add: owned_write_def)
  then have cons: "xs = owner # tl xs" using rep(2) by (cases xs) auto
  have p': "p' = p\<lparr>pStore := ?store\<rparr>"
    using postData_owned_store [OF assms(1,4), of redirect fanout] assms(6) by simp
  have put: "Put (chStore ch) (pStore p) key val = Ret (?store, ?n, None,
      case dsHook (pStore p) of None \<Rightarrow> [] | Some h \<Rightarrow> [(h, key, val, ?n)])"
    by (rule Put_eq [OF assms(1)])
  have "m < m + 1" if "latest (pStore p) key = Some (w, m)" for w m
    using assms(5) that less_plus_one_u64 by blast
  then have get: "GetValAndVersion (pStore p') key = Ret (val, ?n, None)"
    using reg.put_then_get [OF assms(1) put] by (simp add: p')
  have other: "GetValAndVersion (pStore p') k = GetValAndVersion (pStore p) k" if "k \<noteq> key" for k
    using assms(1) that
    by (simp add: p' GetValAndVersion_eq store_wf_written latest_written_other)
  have "filter (\<lambda>e. \<exists>l m. e = Replicate l m) (map HookCall calls) = []" for calls :: "'a hook_call list"
    by (simp add: filter_empty_conv)
  then have effs: "filter (\<lambda>e. \<exists>l m. e = Replicate l m) effs
      = [Replicate (map (\<lambda>x. PostRawKeyValue_request x key val ?n) (tl xs)) q]"
    and r: "r = post_ok \<lparr>mdRedirected = True, mdServicedBy = nId (pNode p), mdOwnedBy = gId owner,
                   mdReplicaCount = count_ok (fanout (tl xs) q),
                   mdMislaneous = mislaneous_of include [''trace'']\<rparr>"
    using eq rep(2) by (auto simp: xs slice_from_1_def postData_fanout_def Let_def)
  show ?thesis
    using get other effs r xs rep(1) cons by (intro exI [of _ ?n] exI [of _ "tl xs"]) simp
qed

text \<open>
  C1. What a successful write leaves: when this node, the owner, answers 200, the store holds the
  new value with the next version for every later read, the other keys are unchanged, and one
  fan-out has been started: the key, the value and that version, to the \<open>GVar_ReplicaCount\<close>
  successors of the owner on the ring, with the requested quorum. The answer counts the replicas
  that confirmed. The key's latest version before the write must not be 2^64 - 1, from which the next
  one wraps around to 0; a write hook, if there is one, is called and returns.
\<close>

theorem postData_success:
  assumes "store_wf (pStore p)" "0 \<le> pReplicaCount p" "pReplicaCount p < 2 ^ 63 - 1"
    and "owned_write ch p (mislaneous_of include [''trace'']) wq body key val q owner"
    and "\<forall>w m. latest (pStore p) key = Some (w, m) \<longrightarrow> m \<noteq> - 1"
    and "postData ch p include wq body redirect fanout = (p', Ret (200, r), effs)"
  shows "\<exists>n replicas. GetValAndVersion (pStore p') key = Ret (val, n, None)
    \<and> n = next_version (pStore p) key None
    \<and> (\<forall>k. k \<noteq> key \<longrightarrow> GetValAndVersion (pStore p') k = GetValAndVersion (pStore p) k)
    \<and> GetNNode gEndOfKeyRange gState (ring_of ch p) (token_of key) (pReplicaCount p + 1)
        = Ret (Inr (owner # replicas))
    \<and> filter (\<lambda>e. \<exists>l m. e = Replicate l m) effs
        = [Replicate (map (\<lambda>x. PostRawKeyValue_request x key val n) replicas) q]
    \<and> r = post_ok \<lparr>mdRedirected = True, mdServicedBy = nId (pNode p), mdOwnedBy = gId owner,
                   mdReplicaCount = count_ok (fanout replicas q),
                   mdMislaneous = mislaneous_of include [''trace'']\<rparr>"
  by (rule postData_success_facts [OF assms])

lemma sample_success:
  "postData no_choices (sample_process 0) [] ''0'' sample_request (DoErr BindError) (\<lambda>_ _. [])
    = (fst (postData no_choices (sample_process 0) [] ''0'' sample_request (DoErr BindError) (\<lambda>_ _. [])),
       Ret (200, post_ok \<lparr>mdRedirected = True, mdServicedBy = ''n1'', mdOwnedBy = ''n1'',
                   mdReplicaCount = 0, mdMislaneous = []\<rparr>), [Replicate [] 0])"
proof -
  have nn: "GetNNode gEndOfKeyRange gState [sample_owner 0] (token_of ''k'') (int64 1)
      = Ret (Inr [sample_owner 0])"
    using token_of_less [of "''k''"]
    by (simp add: int64_id GetNNode_def sample_owner_def collect_loop.simps)
  have "nId (pNode (sample_process 0)) = ''n1''" by (simp add: sample_process_def sample_node_def)
  moreover have "dsHook (NewDataStore :: nat DataStore) = None" by (simp add: NewDataStore_def)
  moreover have "gId (sample_owner 0) = ''n1''" by (simp add: sample_owner_def)
  ultimately show ?thesis
    using postData_owned [OF _ sample_owned [of 0 no_choices "mislaneous_of [] [''trace'']"],
        where redirect = "DoErr BindError" and fanout = "\<lambda>_ _. []"]
    by (simp add: sample_ring_of nn Let_def slice_from_1_def postData_fanout_def count_ok_def
        mislaneous_of_def)
qed

lemma postData_success_witness:
  "\<exists>p' effs r. postData no_choices (sample_process 0) [] ''0'' sample_request (DoErr BindError) (\<lambda>_ _. [])
      = (p', Ret (200, r), effs)
    \<and> GetValAndVersion (pStore p') ''k'' = Ret (JStr ''v'', 1, None)"
proof -
  have l: "latest (NewDataStore :: nat DataStore) ''k'' = None" by (simp add: latest_eq_None)
  have o: "owned_write no_choices (sample_process 0) (mislaneous_of [] [''trace'']) ''0'' sample_request
      ''k'' (JStr ''v'') 0 (sample_owner 0)" by (rule sample_owned) simp_all
  let ?p' = "fst (postData no_choices (sample_process 0) [] ''0'' sample_request (DoErr BindError) (\<lambda>_ _. []))"
  have "GetValAndVersion (pStore ?p') ''k'' = Ret (JStr ''v'', 1, None)"
    using postData_success [OF _ _ _ o _ sample_success] by (auto simp: l next_version_def)
  then show ?thesis using sample_success by blast
qed

text \<open>
  Persisted in spite of an error: when this node owns the key and exactly \<open>GVar_ReplicaCount\<close>
  nodes are known and available, one fewer than the replica set needs, the availability test passes,
  the value is written, and only then the handler answers 500 with "not enough nodes".
\<close>

theorem postData_error_but_persisted:
  assumes "store_wf (pStore p)" "table_wf (nGossip (pNode p))" "0 \<le> pReplicaCount p" "pReplicaCount p < 2 ^ 63 - 1"
    and "owned_write ch p (mislaneous_of include [''trace'']) wq body key val q owner"
    and "Gossip_Size (nGossip (pNode p)) = pReplicaCount p"
    and "\<forall>w m. latest (pStore p) key = Some (w, m) \<longrightarrow> m \<noteq> - 1"
  shows "\<exists>p' effs. postData ch p include wq body redirect fanout
      = (p', Ret (500, post_error (Some (mislaneous_of include [''trace''])) ''err in fetching replicas'' ErrNotEnoughNodes), effs)
    \<and> GetValAndVersion (pStore p') key = Ret (val, next_version (pStore p) key None, None)"
proof -
  let ?n = "next_version (pStore p) key None"
  let ?store = "written (chStore ch) (pStore p) key val None False"
  have i: "int64 (pReplicaCount p + 1) = pReplicaCount p + 1"
    using assms(3,4) by (intro int64_id) simp_all
  have "int (length (ring_of ch p)) = pReplicaCount p"
    using assms(6) arg_cong [OF ring_of_members [OF assms(2), of ch], of size] by (simp add: Gossip_Size_def)
  then have g: "GetNNode gEndOfKeyRange gState (ring_of ch p) (token_of key) (int64 (pReplicaCount p + 1))
      = Ret (Inl ErrNotEnoughNodes)" by (simp add: GetNNode_def i)
  have "m < m + 1" if "latest (pStore p) key = Some (w, m)" for w m
    using assms(7) that less_plus_one_u64 by blast
  then have "GetValAndVersion ?store key = Ret (val, ?n, None)"
    using reg.put_then_get [OF assms(1) Put_eq [OF assms(1)]] by simp
  then show ?thesis
    unfolding postData_owned [OF assms(1,5)] g Let_def by simp
qed

lemma postData_error_but_persisted_witness:
  "\<exists>p' effs e. postData no_choices (sample_process 1) [] ''0'' sample_request (DoErr BindError) (\<lambda>_ _. [])
      = (p', Ret (500, e), effs)
    \<and> GetValAndVersion (pStore p') ''k'' = Ret (JStr ''v'', 1, None)"
proof -
  have l: "latest (NewDataStore :: nat DataStore) ''k'' = None" by (simp add: latest_eq_None)
  have o: "owned_write no_choices (sample_process 1) (mislaneous_of [] [''trace'']) ''0'' sample_request
      ''k'' (JStr ''v'') 0 (sample_owner 1)" by (rule sample_owned) simp_all
  have "table_wf (nGossip (pNode (sample_process 1)))"
    by (simp add: sample_process_def gossip_wf_Upsert)
  moreover have "Gossip_Size (nGossip (pNode (sample_process 1))) = 1"
    by (simp add: sample_process_def Size_Upsert) (simp add: Gossip_Size_def NewGossip_def)
  ultimately show ?thesis
    using postData_error_but_persisted [OF _ _ _ _ o, where redirect = "DoErr BindError" and fanout = "\<lambda>_ _. []"]
    by (auto simp: l next_version_def)
qed

subsection \<open>The write quorum\<close>

text \<open>What a call to a replica may return: the peer itself, with the error of its exchange.\<close>

definition replica_write :: "NodeGossip \<Rightarrow> NodeGossip \<Rightarrow> error option \<Rightarrow> bool" where
  "replica_write n r e \<longleftrightarrow> r = n \<and> (\<exists>ex :: unit exchange. e = PostRawKeyValue ex)"

lemma count_ok_success_count: "count_ok res = int (success_count res)"
  by (simp add: count_ok_def success_count_def)

text \<open>
  C20. What the quorum ensures: if the fan-out did not time out, the answer of a successful write
  reports at least \<open>writequorum\<close> confirmations, or every replica was tried and gave its result. But
  the handler compares nothing: it answers 200 with a success whatever the fan-out returned.
\<close>

theorem write_quorum:
  assumes "store_wf (pStore p)" "0 \<le> pReplicaCount p" "pReplicaCount p < 2 ^ 31"
    and "owned_write ch p (mislaneous_of include [''trace'']) wq body key val q owner" "0 \<le> q"
    and "GetNNode gEndOfKeyRange gState (ring_of ch p) (token_of key) (pReplicaCount p + 1) = Ret (Inr (owner # replicas))"
  shows "(\<exists>p' r effs. postData ch p include wq body redirect fanout = (p', Ret (200, PostReply r), effs)
        \<and> pdIsSuccess r
        \<and> (\<forall>timedOut. fan_returns replica_write replicas q timedOut (fanout replicas q) \<longrightarrow> \<not> timedOut \<longrightarrow>
             (\<exists>md. pdMetadata r = Some md
               \<and> (q \<le> mdReplicaCount md \<or> length (fanout replicas q) = length replicas))))"
proof -
  have rc: "pReplicaCount p < 2 ^ 63 - 1" using assms(3) by simp
  have i: "int64 (pReplicaCount p + 1) = pReplicaCount p + 1" using assms(2) rc by (intro int64_id) simp_all
  have "q \<le> pReplicaCount p" using assms(4)
    by (auto simp: owned_write_def postData_parse_def Let_def split: option.splits json.splits sum.splits if_splits)
  then have q: "int32 q = q" using assms(3,5) by (intro int32_id) simp_all
  have quorum: "q \<le> count_ok (fanout replicas q) \<or> length (fanout replicas q) = length replicas"
    if fr: "fan_returns replica_write replicas q timedOut (fanout replicas q)" and nt: "\<not> timedOut" for timedOut
  proof -
    obtain s where s: "fan_inv replica_write replicas q s" "fan_final s" "fTimedOut s = timedOut"
      "fan_output s = fanout replicas q" using fan_returns_inv [OF fr] by blast
    show ?thesis using fan_inv_final(3) [OF s(1,2)] s(3,4) nt assms(5)
      by (auto simp: count_ok_success_count q)
  qed
  show ?thesis
    unfolding postData_owned [OF assms(1,4)] i assms(6)
    using quorum by (auto simp: Let_def slice_from_1_def postData_fanout_def post_ok_def)
qed

lemma write_quorum_witness:
  "\<exists>p' r effs. postData no_choices (sample_process 0) [] ''0'' sample_request (DoErr BindError) (\<lambda>_ _. [])
      = (p', Ret (200, PostReply r), effs) \<and> pdIsSuccess r"
proof -
  have o: "owned_write no_choices (sample_process 0) (mislaneous_of [] [''trace'']) ''0'' sample_request
      ''k'' (JStr ''v'') 0 (sample_owner 0)" by (rule sample_owned) simp_all
  have nn: "GetNNode gEndOfKeyRange gState (ring_of no_choices (sample_process 0)) (token_of ''k'')
      (pReplicaCount (sample_process 0) + 1) = Ret (Inr [sample_owner 0])"
    using token_of_less [of "''k''"]
    by (simp add: sample_ring_of GetNNode_def sample_owner_def collect_loop.simps)
  from write_quorum [OF _ _ _ o _ nn, where redirect = "DoErr BindError" and fanout = "\<lambda>_ _. []"]
  show ?thesis by auto
qed

subsection \<open>Reads\<close>

text \<open>
  C21. Read your writes at the owner: after a write the owner answered with 200, a read of the key
  that reaches the same node, with any valid read quorum and whatever order the runtime visits maps
  in, is served from its store and returns the value and the version of that write. This needs a table
  in which no two nodes have the same range end, for with equal ends another order of the map can make
  another node the owner of the key; and a latest version before the write other than 2^64 - 1, after
  which versions start again at 0.
\<close>

theorem read_your_writes_at_owner:
  assumes "store_wf (pStore p)" "table_wf (nGossip (pNode p))" "0 \<le> pReplicaCount p" "pReplicaCount p < 2 ^ 63 - 1"
    and "distinct (map (gEndOfKeyRange \<circ> snd) (gsStore (nGossip (pNode p))))"
    and "owned_write ch p (mislaneous_of include [''trace'']) wq body key val q owner"
    and "\<forall>w m. latest (pStore p) key = Some (w, m) \<longrightarrow> m \<noteq> - 1"
    and "postData ch p include wq body redirect fanout = (p', Ret (200, r), effs)"
    and "getData_parse (pReplicaCount p) (mislaneous_of include' [''trace'']) rq = Inr (rqs, rqi)"
  shows "getData conv ch' p' include' key rq redirect' fanout'
    = (Ret (200, get_ok val (next_version (pStore p) key None)
         \<lparr>mdRedirected = False, mdServicedBy = nId (pNode p), mdOwnedBy = nId (pNode p),
          mdReplicaCount = 1, mdMislaneous = mislaneous_of include' [''trace'']\<rparr>), [])"
proof -
  from postData_success_facts [OF assms(1,3,4,6,7,8)] obtain replicas where
    get: "GetValAndVersion (pStore p') key = Ret (val, next_version (pStore p) key None, None)"
    and nn: "GetNNode gEndOfKeyRange gState (ring_of ch p) (token_of key) (pReplicaCount p + 1)
        = Ret (Inr (owner # replicas))" by blast
  have p': "pNode p' = pNode p" "pReplicaCount p' = pReplicaCount p"
    using postData_owned_store [OF assms(1,6), of redirect fanout] assms(8) by auto
  have i: "int64 (pReplicaCount p + 1) = pReplicaCount p + 1" using assms(3,4) by (intro int64_id) simp_all
  have owner: "gId owner = nId (pNode p)" using assms(6) by (simp add: owned_write_def)
  have "ring_of ch' p = ring_of ch p" by (rule ring_of_unique [OF assms(2) refl assms(5)])
  then have ar: "SortNodeInPlace (chSort ch') NodeGossip_XEndOfKeyRange
      (MapToArr (chArr ch') (Read (chRead ch') (nGossip (pNode p')))) = ring_of ch p"
    using ring_of_getData [of ch' p] by (simp only: p')
  have nn': "GetNNode NodeGossip_XEndOfKeyRange NodeGossip_XState (ring_of ch p) (token_of key)
      (int64 (pReplicaCount p' + 1)) = Ret (Inr (owner # replicas))"
    using nn by (simp add: p' i)
  show ?thesis
    unfolding getData_def ar HashKey_TOTAL_SLOTS bind_outcome.simps nn' Let_def
    using assms(9) get owner by (simp add: p' getData_local_def)
qed

lemma read_your_writes_at_owner_witness:
  "\<exists>p' r effs. postData no_choices (sample_process 0) [] ''0'' sample_request (DoErr BindError) (\<lambda>_ _. [])
      = (p', Ret (200, r), effs)
    \<and> getData (\<lambda>_. 0) no_choices p' [] ''k'' ''0'' (DoErr BindError) (\<lambda>_ _. [])
        = (Ret (200, get_ok (JStr ''v'') 1
             \<lparr>mdRedirected = False, mdServicedBy = ''n1'', mdOwnedBy = ''n1'', mdReplicaCount = 1,
              mdMislaneous = []\<rparr>), [])"
proof -
  let ?mis = "mislaneous_of [] [''trace'']"
  have l: "latest (NewDataStore :: nat DataStore) ''k'' = None" by (simp add: latest_eq_None)
  have o: "owned_write no_choices (sample_process 0) ?mis ''0'' sample_request
      ''k'' (JStr ''v'') 0 (sample_owner 0)" by (rule sample_owned) simp_all
  have a: "Atoi ''0'' = Inr 0" by code_simp
  have g: "getData_parse (pReplicaCount (sample_process 0)) ?mis ''0'' = Inr (''0'', 0)"
    by (simp add: getData_parse_def blank_def Let_def a)
  have d: "distinct (map (gEndOfKeyRange \<circ> snd) (gsStore (nGossip (pNode (sample_process 0)))))"
    "table_wf (nGossip (pNode (sample_process 0)))"
    by (simp_all add: sample_process_def Gossip_Upsert_def NewGossip_def Let_def gossip_wf_def
        NumNodeInState_def count_add_def)
  have i: "nId (pNode (sample_process 0)) = ''n1''" by (simp add: sample_process_def sample_node_def)
  have m: "?mis = []" by (simp add: mislaneous_of_def)
  show ?thesis
    using read_your_writes_at_owner [OF _ d(2) _ _ d(1) o _ sample_success g, where conv = "\<lambda>_. 0"
        and ch' = no_choices and redirect' = "DoErr BindError" and fanout' = "\<lambda>_ _. []"] sample_success
    by (auto simp: l next_version_def i m)
qed

definition answers :: "(GetDataResponse option \<times> error option) list \<Rightarrow> GetDataResponse list" where
  "answers res = concat (map (\<lambda>(r, e). case r of None \<Rightarrow> [] | Some g \<Rightarrow> [g]) res)"

lemma answers_simps [simp]:
  "answers [] = []"
  "answers (r # res) = (case fst r of None \<Rightarrow> [] | Some g \<Rightarrow> [g]) @ answers res"
  "answers (res @ us) = answers res @ answers us"
  by (simp_all add: answers_def case_prod_beta)

text \<open>The loop keeps an answer of the greatest version as a float.\<close>

lemma latest_of_snoc: "latest_of (res @ [r]) = latest_step r (latest_of res)"
  by (simp add: latest_of_def)

lemma latest_of_spec:
  "case snd (latest_of res) of
     None \<Rightarrow> answers res = [] \<and> fst (latest_of res) = JNull
   | Some x \<Rightarrow> \<exists>g \<in> set (answers res). fst (latest_of res) = gdValue g \<and> x = float64_of_u64 (gdVersion g)
       \<and> (\<forall>g' \<in> set (answers res). float64_of_u64 (gdVersion g') \<le> x)"
proof (induction res rule: rev_induct)
  case Nil
  then show ?case by (simp add: latest_of_def)
next
  case (snoc r res)
  show ?case
  proof (cases "fst r")
    case None
    then have "latest_of (res @ [r]) = latest_of res" "answers (res @ [r]) = answers res"
      by (simp_all add: latest_of_snoc latest_step_def)
    with snoc show ?thesis by (simp only:)
  next
    case (Some g)
    with snoc show ?thesis
      by (cases "snd (latest_of res)")
         (auto simp: latest_of_snoc latest_step_def float64_less_def)
  qed
qed

lemma float64_exact: "unat v < 2 ^ 53 \<Longrightarrow> float64_of_u64 v = unat v"
  by (simp add: float64_of_u64_def)

lemma latest_of_answers:
  assumes "\<forall>g \<in> set (answers res). unat (gdVersion g) < 2 ^ 53"
  shows "if answers res = [] then latest_of res = (JNull, None)
    else \<exists>g \<in> set (answers res). latest_of res = (gdValue g, Some (unat (gdVersion g)))
       \<and> (\<forall>g' \<in> set (answers res). gdVersion g' \<le> gdVersion g)"
proof (cases "snd (latest_of res)")
  case None
  with latest_of_spec [of res] show ?thesis by (simp add: prod_eq_iff)
next
  case (Some x)
  with latest_of_spec [of res] obtain g where g: "g \<in> set (answers res)"
    "fst (latest_of res) = gdValue g" "x = float64_of_u64 (gdVersion g)"
    "\<forall>g' \<in> set (answers res). float64_of_u64 (gdVersion g') \<le> x" by auto
  have "latest_of res = (gdValue g, Some (unat (gdVersion g)))"
    using Some g(2,3) assms g(1) by (simp add: prod_eq_iff float64_exact)
  moreover have "\<forall>g' \<in> set (answers res). gdVersion g' \<le> gdVersion g"
    using g assms by (auto simp: float64_exact word_le_nat_alt)
  ultimately show ?thesis using g(1) by auto
qed

text \<open>What a replica is asked: the key, from its own store.\<close>

definition read_request :: "choice \<Rightarrow> NodeGossip \<Rightarrow> string \<Rightarrow> string" where
  "read_request c x key = GetKeyValue_request c x [(''key'', key), (''readquorum'', ''0'')]"

lemma read_from_replicas_facts:
  assumes "getData_parse (pReplicaCount p) (mislaneous_of include [''trace'']) rq = Inr (rqs, rqi)" "0 < rqi"
    and "pReplicaCount p < 2 ^ 63 - 1"
    and "GetNNode gEndOfKeyRange gState (ring_of ch p) (token_of key) (pReplicaCount p + 1) = Ret (Inr (owner # replicas))"
    and "nId (pNode p) \<noteq> gId owner"
    and "\<forall>picked. set picked \<subseteq> set replicas \<longrightarrow> (\<forall>g \<in> set (answers (fanout picked rqi)). unat (gdVersion g) < 2 ^ 53)"
  shows "\<exists>picked rest v n md. getData conv ch p include key rq redirect fanout
        = (Ret (200, get_ok v n md), [ReadReplicas (map (\<lambda>x. read_request (chQuery ch) x key) picked) rqi])
    \<and> mset (picked @ rest) = mset replicas \<and> int (length picked) = rqi
    \<and> mdReplicaCount md = count_ok (fanout picked rqi)
    \<and> (if answers (fanout picked rqi) = [] then v = JNull \<and> n = conv None
       else \<exists>g \<in> set (answers (fanout picked rqi)). v = gdValue g \<and> n = gdVersion g
          \<and> (\<forall>g' \<in> set (answers (fanout picked rqi)). gdVersion g' \<le> gdVersion g))"
proof -
  have rqi: "rqi \<le> pReplicaCount p" using assms(1)
    by (auto simp: getData_parse_def Let_def split: sum.splits if_splits)
  then have i: "int64 (pReplicaCount p + 1) = pReplicaCount p + 1"
    using assms(2,3) by (intro int64_id) simp_all
  have "int (length (owner # replicas)) = pReplicaCount p + 1"
    using GetNNode_Inr [OF assms(4)] rqi assms(2) by simp
  then have "0 \<le> rqi" "rqi \<le> int (length replicas)" using rqi assms(2) by auto
  then obtain picked where pk: "PickNRandom (chPerm ch) replicas rqi = Ret picked"
    by (simp add: PickNRandom_def Let_def)
  from PickNRandom_Ret [OF pk] obtain rest where
    rest: "mset (picked @ rest) = mset replicas" "length picked = nat rqi" by blast
  have n: "int (length picked) = rqi" using rest(2) assms(2) by simp
  have nn: "GetNNode NodeGossip_XEndOfKeyRange NodeGossip_XState (ring_of ch p) (token_of key)
      (int64 (pReplicaCount p + 1)) = Ret (Inr (owner # replicas))"
    using assms(4) by (simp add: i)
  let ?res = "fanout picked rqi"
  have "set (picked @ rest) = set replicas" by (rule mset_eq_setD [OF rest(1)])
  then have "set picked \<subseteq> set replicas" by auto
  with assms(6) have small: "\<forall>g \<in> set (answers ?res). unat (gdVersion g) < 2 ^ 53" by blast
  obtain v x where l: "latest_of ?res = (v, x)" by fastforce
  have eq: "getData conv ch p include key rq redirect fanout
      = (Ret (200, get_ok v (u64_of_float64 conv x)
           \<lparr>mdRedirected = True, mdServicedBy = nId (pNode p), mdOwnedBy = gId owner,
            mdReplicaCount = count_ok ?res,
            mdMislaneous = mislaneous_of include [''trace''] @ mislaneous_of include [''res'']\<rparr>),
         [ReadReplicas (map (\<lambda>x. read_request (chQuery ch) x key) picked) rqi])"
    unfolding read_request_def getData_def ring_of_getData HashKey_TOTAL_SLOTS bind_outcome.simps nn Let_def
    using assms(1,2,5) by (simp add: getData_replicas_def pk n l Let_def)
  have "if answers ?res = [] then v = JNull \<and> u64_of_float64 conv x = conv None
      else \<exists>g \<in> set (answers ?res). v = gdValue g \<and> u64_of_float64 conv x = gdVersion g
          \<and> (\<forall>g' \<in> set (answers ?res). gdVersion g' \<le> gdVersion g)"
    using latest_of_answers [OF small] small unat_less_u64
    by (auto simp: l u64_of_float64_def split: if_splits)
  then show ?thesis using eq rest(1) n by (intro exI conjI) (assumption | simp)+
qed

text \<open>
  C22. A read from replicas: for a read quorum of \<open>r > 0\<close> away from the owner, \<open>r\<close> different
  replicas of the key are asked for it, each for what its own store holds, and the answer is the value
  and version of one of their answers with the greatest version, as long as versions are below 2^53.
  When no replica answered, the reply is still a success: \<open>nil\<close>, with whatever version the platform
  makes of negative infinity.
\<close>

theorem read_from_replicas:
  assumes "getData_parse (pReplicaCount p) (mislaneous_of include [''trace'']) rq = Inr (rqs, rqi)" "0 < rqi"
    and "pReplicaCount p < 2 ^ 63 - 1"
    and "GetNNode gEndOfKeyRange gState (ring_of ch p) (token_of key) (pReplicaCount p + 1) = Ret (Inr (owner # replicas))"
    and "nId (pNode p) \<noteq> gId owner"
    and "\<forall>picked. set picked \<subseteq> set replicas \<longrightarrow> (\<forall>g \<in> set (answers (fanout picked rqi)). unat (gdVersion g) < 2 ^ 53)"
  shows "\<exists>picked rest v n md. getData conv ch p include key rq redirect fanout
        = (Ret (200, get_ok v n md), [ReadReplicas (map (\<lambda>x. read_request (chQuery ch) x key) picked) rqi])
    \<and> mset (picked @ rest) = mset replicas \<and> int (length picked) = rqi
    \<and> mdReplicaCount md = count_ok (fanout picked rqi)
    \<and> (if answers (fanout picked rqi) = [] then v = JNull \<and> n = conv None
       else \<exists>g \<in> set (answers (fanout picked rqi)). v = gdValue g \<and> n = gdVersion g
          \<and> (\<forall>g' \<in> set (answers (fanout picked rqi)). gdVersion g' \<le> gdVersion g))"
  by (rule read_from_replicas_facts [where fanout = fanout, OF assms])

definition sample_reader :: "nat Process" where
  "sample_reader =
     (sample_process 1)\<lparr>pNode := (pNode (sample_process 1))\<lparr>nId := ''x'',
        nGossip := Upsert (nGossip (pNode (sample_process 1))) ''a''
          ((sample_owner 1)\<lparr>gId := ''a'', gEndOfKeyRange := 0\<rparr>)\<rparr>\<rparr>"

definition sample_answer :: GetDataResponse where
  "sample_answer =
     \<lparr>gdIsSuccess = True, gdValue = JStr ''v'', gdVersion = 7, gdMessage = ''OK'', gdMetadata = None,
      gdErr = None\<rparr>"

lemma sample_reader_ring:
  "ring_of no_choices sample_reader = [(sample_owner 1)\<lparr>gId := ''a'', gEndOfKeyRange := 0\<rparr>, sample_owner 1]"
  by (simp add: ring_of_def sorted_members_def sample_reader_def sample_process_def MapToArr_eq
      Gossip_Read_def Gossip_Upsert_def NewGossip_def Let_def sample_owner_def no_choices_def
      sort_slice_def TOTAL_SLOTS_def)

lemma read_from_replicas_witness:
  "\<exists>md urls. getData (\<lambda>_. 0) no_choices sample_reader [] ''k'' ''1'' (DoErr BindError)
        (\<lambda>_ _. [(Some sample_answer, None)])
      = (Ret (200, get_ok (JStr ''v'') 7 md), [ReadReplicas urls 1])"
proof -
  have a: "Atoi ''1'' = Inr 1" by code_simp
  have rc: "pReplicaCount sample_reader = 1" by (simp add: sample_reader_def)
  have g: "getData_parse (pReplicaCount sample_reader) (mislaneous_of [] [''trace'']) ''1'' = Inr (''1'', 1)"
    by (simp add: getData_parse_def blank_def Let_def a rc)
  have nn: "GetNNode gEndOfKeyRange gState (ring_of no_choices sample_reader) (token_of ''k'')
      (pReplicaCount sample_reader + 1)
      = Ret (Inr (sample_owner 1 # [(sample_owner 1)\<lparr>gId := ''a'', gEndOfKeyRange := 0\<rparr>]))"
    using token_of_less [of "''k''"]
    by (simp add: sample_reader_ring rc GetNNode_def collect_loop.simps sample_owner_def)
  have i: "nId (pNode sample_reader) \<noteq> gId (sample_owner 1)"
    by (simp add: sample_reader_def sample_owner_def)
  let ?fan = "\<lambda>_ _. [(Some sample_answer, None)] :: (GetDataResponse option \<times> error option) list"
  have v: "\<forall>picked. set picked \<subseteq> set [(sample_owner 1)\<lparr>gId := ''a'', gEndOfKeyRange := 0\<rparr>]
      \<longrightarrow> (\<forall>g \<in> set (answers (?fan picked 1)). unat (gdVersion g) < 2 ^ 53)"
    by (simp add: sample_answer_def)
  have "pReplicaCount sample_reader < 2 ^ 63 - 1" by (simp add: rc)
  from read_from_replicas [where fanout = ?fan, OF g _ this nn i v, where conv = "\<lambda>_. 0" and redirect = "DoErr BindError"]
  show ?thesis by (auto simp: sample_answer_def)
qed

lemma bit_length_pow: "bit_length (2 ^ n) = Suc n"
  by (induction n) (simp_all add: bit_length.simps)

lemma bit_length_2_53: "bit_length (2 ^ 53) = 54" "bit_length (2 ^ 53 + 1) = 54"
  using bit_length_pow [of 53] bit_length_pow [of 52] bit_length.simps [of "2 ^ 53 + 1"] by simp_all

text \<open>
  Versions from 2^53 on are compared after rounding: of two answers with versions 2^53 and
  2^53 + 1, in that order, the older one is returned.
\<close>

theorem float_versions_lose_a_write:
  "latest_of [(Some (old\<lparr>gdVersion := 2 ^ 53\<rparr>), None), (Some (new\<lparr>gdVersion := 2 ^ 53 + 1\<rparr>), None)]
    = (gdValue old, Some (2 ^ 53))"
proof -
  have "unat (2 ^ 53 + 1 :: u64) = 2 ^ 53 + 1" "unat (2 ^ 53 :: u64) = 2 ^ 53" by simp_all
  then have "float64_of_u64 (2 ^ 53) = 2 ^ 53" "float64_of_u64 (2 ^ 53 + 1) = 2 ^ 53"
    using bit_length_2_53 by (simp_all add: float64_of_u64_def round_to_even_def Let_def)
  then show ?thesis by (simp add: latest_of_def latest_step_def float64_less_def)
qed

end
