(* ===== verification/Peer_Props.thy ===== *)
theory Peer_Props
  imports Data_Props Api_Client_Props
begin

section \<open>Requests between nodes\<close>

text \<open>
  The handlers of several nodes put together: what one node sends is what the handler of another is
  called with, and the answer of the one is the exchange the other reads. Two results: a write that
  is redirected arrives at the owner with its value and its quorum, and a read from replicas
  overlaps every sufficiently confirmed write.

  Delivery is what routing, \<open>c.Query\<close> and the JSON codec make of a request. An answer is decoded by
  the names of its JSON fields, which the two kinds of response share; a panic is answered with an
  empty body of status 500.
\<close>

subsection \<open>Delivery\<close>

definition post_exchange :: "(nat \<times> reply) outcome \<Rightarrow> PostDataResponse exchange" where
  "post_exchange out =
     (case out of
        Panic e \<Rightarrow> Body 500 None
      | Ret (status, r) \<Rightarrow> Body status (Some
          (case r of
             PostReply b \<Rightarrow> b
           | RawReply b \<Rightarrow> b
           | GetReply b \<Rightarrow> \<lparr>pdIsSuccess = gdIsSuccess b, pdMessage = gdMessage b,
                            pdMetadata = gdMetadata b, pdErr = gdErr b\<rparr>)))"

definition get_exchange :: "(nat \<times> reply) outcome \<Rightarrow> GetDataResponse exchange" where
  "get_exchange out =
     (let decode = (\<lambda>b. \<lparr>gdIsSuccess = pdIsSuccess b, gdValue = JNull, gdVersion = 0,
                        gdMessage = pdMessage b, gdMetadata = pdMetadata b, gdErr = pdErr b\<rparr>)
      in case out of
           Panic e \<Rightarrow> Body 500 None
         | Ret (status, r) \<Rightarrow> Body status (Some
             (case r of GetReply b \<Rightarrow> b | PostReply b \<Rightarrow> decode b | RawReply b \<Rightarrow> decode b)))"

definition deliver_post ::
    "choices \<Rightarrow> 'h Process \<Rightarrow> post_request \<Rightarrow> PostDataResponse exchange
      \<Rightarrow> (NodeGossip list \<Rightarrow> int \<Rightarrow> (NodeGossip \<times> error option) list) \<Rightarrow> 'h handled" where
  "deliver_post ch p req redirect fanout =
     postData ch p (Query (prUrl req) ''include'') (Query (prUrl req) ''writequorum'')
       (Some [(''key'', JStr (prKey req)), (''value'', prValue req)]) redirect fanout"

definition deliver_get ::
    "(nat option \<Rightarrow> u64) \<Rightarrow> choices \<Rightarrow> 'h Process \<Rightarrow> string \<Rightarrow> GetDataResponse exchange
      \<Rightarrow> (NodeGossip list \<Rightarrow> int \<Rightarrow> (GetDataResponse option \<times> error option) list)
      \<Rightarrow> (nat \<times> reply) outcome \<times> 'h effect list" where
  "deliver_get conv ch p url redirect fanout =
     getData conv ch p (Query url ''include'') (Query url ''key'') (Query url ''readquorum'') redirect fanout"

text \<open>What \<open>GetKeyValue\<close> makes of the answer of a node that serves the read itself.\<close>

definition replica_answer :: "(nat option \<Rightarrow> u64) \<Rightarrow> choices \<Rightarrow> 'h Process \<Rightarrow> string \<Rightarrow> error + GetDataResponse" where
  "replica_answer conv ch p url =
     GetKeyValue (get_exchange (fst (deliver_get conv ch p url (DoErr BindError) (\<lambda>_ _. []))))"

text \<open>The replicated writes a node receives.\<close>

fun run_replica :: "'h Process \<Rightarrow> (choices \<times> HandlePostRawReq) list \<Rightarrow> 'h Process" where
  "run_replica p [] = p"
| "run_replica p ((ch, b) # bs) = run_replica (fst (postReplicaData ch p (Some b))) bs"

subsection \<open>A redirected write\<close>

lemma Atoi_chars:
  assumes "Atoi s = Inr i"
  shows "\<not> blank s" "hd s \<noteq> CHR ''+'' \<Longrightarrow> url_safe s"
proof -
  obtain c cs where s: "s = c # cs" using assms by (cases s) simp_all
  let ?body = "if c = CHR ''-'' \<or> c = CHR ''+'' then cs else c # cs"
  obtain n where "ParseUint ?body = Inr n"
    using assms by (cases "ParseUint ?body") (simp_all add: Atoi_def s Let_def)
  then have d: "all_digits ?body" using ParseUint_InrD by blast
  have digit: "url_safe [x]" if "digit_of x \<noteq> None" for x
    using that by (auto simp: url_safe_def digit_of_def Let_def split: if_splits)
  have digits: "all_digits xs \<Longrightarrow> url_safe xs" for xs
    using digit by (induction xs) (auto simp: url_safe_def)
  show "\<not> blank s"
  proof (cases "c = CHR ''-'' \<or> c = CHR ''+''")
    case True
    then show ?thesis unfolding s by (rule sign_not_blank)
  next
    case False
    then show ?thesis using d digit_not_blank by (simp add: s)
  qed
  show "url_safe s" if "hd s \<noteq> CHR ''+''"
  proof (cases "c = CHR ''-''")
    case True
    then have "url_safe cs" "url_safe [c]" using d digits by (simp_all add: url_safe_def)
    then show ?thesis using url_safe_append [of "[c]" cs] by (simp add: s)
  next
    case False
    then show ?thesis using d digits that by (simp add: s)
  qed
qed

lemma postData_parse_InrD:
  assumes "postData_parse rc mis body wq = Ret (Inr (key, val, s, q))"
  shows "postData_parse rc mis' (Some [(''key'', JStr key), (''value'', val)]) s = Ret (Inr (key, val, s, q))"
    "\<exists>i. Atoi s = Inr i"
proof -
  obtain i where i: "Atoi s = Inr i" "q = (if i < 0 then rc else i)" "\<not> (q < - 1 \<or> rc < q)"
    using assms by (auto simp: postData_parse_def Let_def split: option.splits json.splits sum.splits if_splits)
  then show "\<exists>i. Atoi s = Inr i" by blast
  show "postData_parse rc mis' (Some [(''key'', JStr key), (''value'', val)]) s = Ret (Inr (key, val, s, q))"
    using i(2,3) by (simp add: postData_parse_def Let_def i(1) Atoi_chars(1) [OF i(1)])
qed


text \<open>
  C7. A redirected write arrives: when node \<open>a\<close> redirects a write to the owner \<open>b\<close>, both take the
  same node for the owner and have the same replica count, and \<open>b\<close> answers 200 to the request it is
  sent, then \<open>a\<close> answers 200 as well and changes nothing itself, the owner's store returns the
  client's value with the next version for the key, and the owner's fan-out has the quorum the client
  asked for. The quorum must not start with a plus sign, which the query string does not preserve.
\<close>

theorem redirected_write_is_stored:
  assumes "postData_parse (pReplicaCount a) (mislaneous_of include [''trace'']) body wq = Ret (Inr (key, val, s, q))"
    and "hd s \<noteq> CHR ''+''" "CHR ''?'' \<notin> set (gHost owner)" "CHR ''#'' \<notin> set (gHost owner)"
    and "GetNode gEndOfKeyRange gState (ring_of cha a) (token_of key) = Inr owner" "gId owner \<noteq> nId (pNode a)"
    and "GetNode gEndOfKeyRange gState (ring_of chb b) (token_of key) = Inr owner'" "gId owner' = nId (pNode b)"
    and "pReplicaCount b = pReplicaCount a" "0 \<le> pReplicaCount a" "pReplicaCount a < 2 ^ 63 - 1"
    and "pReplicaCount b \<le> NumNodeInState (nGossip (pNode b)) AVAILABLE" "store_wf (pStore b)"
    and "\<forall>w m. latest (pStore b) key = Some (w, m) \<longrightarrow> m \<noteq> - 1"
    and "req = PostKeyValue_request (chQuery cha) owner key val [(''writequorum'', s), (''redirected'', ''true'')]"
    and "deliver_post chb b req redirect fanout = (b', Ret (200, r), effs)"
  shows "(\<exists>md. postData cha a include wq body (post_exchange (Ret (200, r))) fanout'
        = (a, Ret (200, post_ok md), [SendPost req]) \<and> mdOwnedBy md = gId owner)
    \<and> GetValAndVersion (pStore b') key = Ret (val, next_version (pStore b) key None, None)
    \<and> (\<exists>reqs. filter (\<lambda>e. \<exists>l m. e = Replicate l m) effs = [Replicate reqs q])"
proof -
  let ?m = "[(''writequorum'', s), (''redirected'', ''true'')]"
  obtain i where i: "Atoi s = Inr i" using postData_parse_InrD(2) [OF assms(1)] by blast
  have safe: "\<forall>(k, v) \<in> set ?m. url_safe k \<and> url_safe v"
    using Atoi_chars(2) [OF i assms(2)] by (simp add: url_safe_def)
  have "distinct (map fst ?m)" by simp
  note Q = Query_request [OF this safe assms(3,4), of "chQuery cha" key val, THEN conjunct1]
  have inc: "Query (prUrl req) ''include'' = []" and wqb: "Query (prUrl req) ''writequorum'' = s"
    by (simp_all add: assms(15) Q)
  let ?body = "Some [(''key'', JStr key), (''value'', val)]"
  have k: "prKey req = key" "prValue req = val" by (simp_all add: assms(15) PostKeyValue_request_def)
  have b: "postData chb b [] s ?body redirect fanout = (b', Ret (200, r), effs)"
    using assms(16) by (simp add: deliver_post_def inc wqb k)
  have "owned_write chb b (mislaneous_of [] [''trace'']) s ?body key val q owner'"
    using postData_parse_InrD(1) [OF assms(1)] assms(7,8,9,12) by (simp add: owned_write_def)
  from postData_success_facts [OF assms(13) _ _ this assms(14) b] assms(9,10,11) obtain n replicas md where
    B: "GetValAndVersion (pStore b') key = Ret (val, n, None)" "n = next_version (pStore b) key None"
      "filter (\<lambda>e. \<exists>l m. e = Replicate l m) effs
        = [Replicate (map (\<lambda>x. PostRawKeyValue_request x key val n) replicas) q]"
      "r = post_ok md" by auto
  have ok: "PostKeyValue (post_exchange (Ret (200, r))) = None"
    by (simp add: post_exchange_def PostKeyValue_def B(4) post_ok_def)
  have "\<exists>md. postData cha a include wq body (post_exchange (Ret (200, r))) fanout'
      = (a, Ret (200, post_ok md), [SendPost req]) \<and> mdOwnedBy md = gId owner"
    using assms(1,5,6)
    by (intro exI [of _ "\<lparr>mdRedirected = True, mdServicedBy = nId (pNode a), mdOwnedBy = gId owner,
          mdReplicaCount = 0, mdMislaneous = mislaneous_of include [''trace'']\<rparr>"])
      (simp add: postData_def postData_redirect_def ring_of_def ok assms(15) Let_def)
  then show ?thesis using B by blast
qed


definition sample_client :: "nat Process" where
  "sample_client = (sample_process 0)\<lparr>pNode := (pNode (sample_process 0))\<lparr>nId := ''x''\<rparr>\<rparr>"

definition sample_redirect :: post_request where
  "sample_redirect = PostKeyValue_request [] (sample_owner 0) ''k'' (JStr ''v'')
     [(''writequorum'', ''0''), (''redirected'', ''true'')]"

lemma sample_redirect_params:
  "Query (prUrl sample_redirect) ''include'' = []" "Query (prUrl sample_redirect) ''writequorum'' = ''0''"
  by code_simp+

lemma redirected_write_is_stored_witness:
  "\<exists>b' r effs. deliver_post no_choices (sample_process 0) sample_redirect (DoErr BindError) (\<lambda>_ _. [])
        = (b', Ret (200, r), effs)
    \<and> GetValAndVersion (pStore b') ''k'' = Ret (JStr ''v'', 1, None)"
proof -
  obtain b' r effs where "postData no_choices (sample_process 0) [] ''0'' sample_request (DoErr BindError) (\<lambda>_ _. [])
      = (b', Ret (200, r), effs)" using sample_success by blast
  then have d: "deliver_post no_choices (sample_process 0) sample_redirect (DoErr BindError) (\<lambda>_ _. [])
      = (b', Ret (200, r), effs)"
    by (simp add: deliver_post_def sample_redirect_params sample_request_def)
      (simp add: sample_redirect_def PostKeyValue_request_def)
  have ring: "ring_of no_choices sample_client = [sample_owner 0]"
    using sample_ring_of [of no_choices 0] by (simp add: ring_of_def sample_client_def)
  have p: "postData_parse (pReplicaCount sample_client) (mislaneous_of [] [''trace'']) sample_request ''0''
      = Ret (Inr (''k'', JStr ''v'', ''0'', 0))"
    by (simp add: sample_client_def sample_parse)
  have o: "GetNode gEndOfKeyRange gState (ring_of no_choices sample_client) (token_of ''k'') = Inr (sample_owner 0)"
    "GetNode gEndOfKeyRange gState (ring_of no_choices (sample_process 0)) (token_of ''k'') = Inr (sample_owner 0)"
    by (simp_all only: ring sample_ring_of sample_GetNode)
  have i: "gId (sample_owner 0) \<noteq> nId (pNode sample_client)" "gId (sample_owner 0) = nId (pNode (sample_process 0))"
    "CHR ''?'' \<notin> set (gHost (sample_owner 0))" "CHR ''#'' \<notin> set (gHost (sample_owner 0))"
    by (simp_all add: sample_owner_def sample_client_def sample_process_def sample_node_def)
  have n: "pReplicaCount (sample_process 0) = pReplicaCount sample_client" "0 \<le> pReplicaCount sample_client"
    "pReplicaCount sample_client < 2 ^ 63 - 1" by (simp_all add: sample_client_def)
  have av: "pReplicaCount (sample_process 0) \<le> NumNodeInState (nGossip (pNode (sample_process 0))) AVAILABLE"
    using sample_owned [of 0 no_choices] by (simp add: owned_write_def)
  have "latest (pStore (sample_process 0)) ''k'' = None" by (simp add: latest_eq_None)
  then have l: "\<forall>w m. latest (pStore (sample_process 0)) ''k'' = Some (w, m) \<longrightarrow> m \<noteq> - 1"
    "next_version (pStore (sample_process 0)) ''k'' None = 1" by (simp_all add: next_version_def)
  have st: "hd ''0'' \<noteq> CHR ''+''" "store_wf (pStore (sample_process 0))" by simp_all
  have "sample_redirect = PostKeyValue_request (chQuery no_choices) (sample_owner 0) ''k'' (JStr ''v'')
      [(''writequorum'', ''0''), (''redirected'', ''true'')]"
    by (simp add: sample_redirect_def no_choices_def)
  from redirected_write_is_stored [OF p st(1) i(3,4) o(1) i(1) o(2) i(2) n av st(2) l(1) this d]
  have "GetValAndVersion (pStore b') ''k'' = Ret (JStr ''v'', 1, None)"
    unfolding l(2) by blast
  then show ?thesis using d by blast
qed


subsection \<open>Confirmed writes and reads from replicas\<close>

lemma postReplicaData_eq:
  assumes "store_wf (pStore p)"
  shows "fst (postReplicaData ch p (Some b)) =
    p\<lparr>pStore := written (chStore ch) (pStore p) (rqKey b) (rqValue b) (Some (rqVersion b)) True\<rparr>"
  by (simp add: postReplicaData_def PutRaw_eq [OF assms])

text \<open>A replicated write never lowers the version that is read, nor leaves it below its own.\<close>

lemma latest_replicated:
  assumes "store_wf d" "latest d key = Some (w, m)"
  shows "\<exists>w' m'. latest (written c d k v (Some n) r) key = Some (w', m') \<and> m \<le> m' \<and> (k = key \<longrightarrow> n \<le> m')"
proof (cases "k = key")
  case True
  let ?es = "history d key @ [new_entry d key v (Some n) r]"
  have h: "history d key \<noteq> []" "m = eVersion (last (history d key))" using assms(2) by (simp_all add: latest_eq_Some)
  have "new_entry d key v (Some n) r = \<lparr>eValue = v, eVersion = n, eIsReplica = r\<rparr>"
    using assms(2) by (simp add: new_entry_def next_version_def)
  then have "m \<le> eVersion (last (sort_slice c eVersion ?es))" "n \<le> eVersion (last (sort_slice c eVersion ?es))"
    using last_sort_slice_max [of ?es c eVersion] h by auto
  then show ?thesis by (auto simp: True latest_eq_Some history_written)
next
  case False
  then show ?thesis using assms(2) by (simp add: latest_written_other)
qed

lemma run_replica_latest:
  assumes "store_wf (pStore p)" "latest (pStore p) key = Some (w, m)"
  shows "store_wf (pStore (run_replica p bs)) \<and> pNode (run_replica p bs) = pNode p
    \<and> pReplicaCount (run_replica p bs) = pReplicaCount p
    \<and> (\<exists>w' m'. latest (pStore (run_replica p bs)) key = Some (w', m') \<and> m \<le> m'
        \<and> (\<forall>(ch, b) \<in> set bs. rqKey b = key \<longrightarrow> rqVersion b \<le> m'))"
  using assms
proof (induction bs arbitrary: p w m)
  case (Cons cb bs)
  obtain ch b where cb: "cb = (ch, b)" by force
  let ?p = "p\<lparr>pStore := written (chStore ch) (pStore p) (rqKey b) (rqValue b) (Some (rqVersion b)) True\<rparr>"
  from latest_replicated [OF Cons.prems, of "chStore ch" "rqKey b" "rqValue b" "rqVersion b" True]
  obtain w1 m1 where 1: "latest (pStore ?p) key = Some (w1, m1)" "m \<le> m1" "rqKey b = key \<longrightarrow> rqVersion b \<le> m1"
    by auto
  have r: "run_replica p (cb # bs) = run_replica ?p bs" by (simp add: cb postReplicaData_eq [OF Cons.prems(1)])
  have "store_wf (pStore ?p)" using Cons.prems(1) by (simp add: store_wf_written)
  note IH = Cons.IH [OF this 1(1)]
  then obtain w' m' where 2: "latest (pStore (run_replica ?p bs)) key = Some (w', m')" "m1 \<le> m'"
    "\<forall>(ch, b) \<in> set bs. rqKey b = key \<longrightarrow> rqVersion b \<le> m'" by blast
  have "m \<le> m'" "rqKey b = key \<longrightarrow> rqVersion b \<le> m'" using 1(2,3) 2(2) by (auto intro: order_trans)
  then have "\<forall>(ch, b) \<in> set (cb # bs). rqKey b = key \<longrightarrow> rqVersion b \<le> m'" using 2(3) by (simp add: cb)
  then show ?case unfolding r using IH 2(1) \<open>m \<le> m'\<close> by simp
qed simp

text \<open>
  A replica whose versions of the key are below 2^53; its answer to a read is what it holds, or, if it
  cannot make out the replicas of the key, a 500, which the reader takes for no value with version 0.
  \<open>serves\<close> adds that it can.
\<close>

definition small_versions :: "'h Process \<Rightarrow> string \<Rightarrow> bool" where
  "small_versions p key \<longleftrightarrow>
     store_wf (pStore p) \<and> 0 \<le> pReplicaCount p \<and> pReplicaCount p < 2 ^ 63 - 1
   \<and> (\<forall>v m. latest (pStore p) key = Some (v, m) \<longrightarrow> unat m < 2 ^ 53)"

definition serves :: "choices \<Rightarrow> 'h Process \<Rightarrow> string \<Rightarrow> bool" where
  "serves ch p key \<longleftrightarrow>
     (\<exists>o1 rs. GetNNode gEndOfKeyRange gState (ring_of ch p) (token_of key) (pReplicaCount p + 1)
        = Ret (Inr (o1 # rs)))"

lemma replica_answer_cases:
  assumes "small_versions p key" "url_safe key" "CHR ''?'' \<notin> set (gHost x)" "CHR ''#'' \<notin> set (gHost x)"
  shows "\<exists>g. replica_answer conv ch p (read_request c x key) = Inr g
    \<and> ((gdValue g, gdVersion g) = (case latest (pStore p) key of None \<Rightarrow> (JNull, 0) | Some (v, m) \<Rightarrow> (v, m))
       \<or> \<not> serves ch p key \<and> (gdValue g, gdVersion g) = (JNull, 0))"
proof -
  let ?m = "[(''key'', key), (''readquorum'', ''0'')]"
  have safe: "\<forall>(k, v) \<in> set ?m. url_safe k \<and> url_safe v" using assms(2) by (simp add: url_safe_def)
  have "distinct (map fst ?m)" by simp
  note Q = Query_request [OF this safe assms(3,4), of c, THEN conjunct2]
  have q: "Query (read_request c x key) ''include'' = []" "Query (read_request c x key) ''key'' = key"
    "Query (read_request c x key) ''readquorum'' = ''0''"
    by (simp_all add: read_request_def Q)
  have a: "Atoi ''0'' = Inr 0" "\<not> blank ''0''" by code_simp+
  have s: "store_wf (pStore p)" "0 \<le> pReplicaCount p" "pReplicaCount p < 2 ^ 63 - 1"
    using assms(1) by (simp_all add: small_versions_def)
  have i: "int64 (pReplicaCount p + 1) = pReplicaCount p + 1" using s(2,3) by (intro int64_id) simp_all
  obtain res where n: "GetNNode gEndOfKeyRange gState (ring_of ch p) (token_of key) (pReplicaCount p + 1) = Ret res"
    using GetNNode_returns [OF s(2,3), of gEndOfKeyRange gState "ring_of ch p" "token_of key"] by (auto simp: i)
  note G = deliver_get_def q getData_def ring_of_getData HashKey_TOTAL_SLOTS
  show ?thesis
  proof (cases res)
    case (Inl e)
    then have "\<not> serves ch p key" using n by (simp add: serves_def)
    moreover have "deliver_get conv ch p (read_request c x key) (DoErr BindError) (\<lambda>_ _. [])
        = (Ret (500, post_error (Some (mislaneous_of [] [''trace''])) ''err in fetching replicas'' e), [])"
      using s(2) n unfolding G by (simp add: getData_parse_def a i Inl Let_def)
    ultimately show ?thesis by (simp add: replica_answer_def get_exchange_def GetKeyValue_def post_error_def)
  next
    case (Inr xs)
    then have "xs \<noteq> []" using replicas_Ret(2) [OF _ s(2,3)] n i by metis
    then obtain o1 rs where xs: "xs = o1 # rs" by (cases xs) simp_all
    have "deliver_get conv ch p (read_request c x key) (DoErr BindError) (\<lambda>_ _. [])
        = (getData_local p (mislaneous_of [] [''trace'']) o1 key, [])"
      using s(2) n unfolding G by (simp add: getData_parse_def a i Inr xs Let_def)
    then show ?thesis
      by (auto simp: replica_answer_def getData_local_def GetValAndVersion_eq [OF s(1)] get_exchange_def
          GetKeyValue_def get_ok_def split: option.splits)
  qed
qed

lemma set_answers: "set (answers res) = {g. \<exists>e. (Some g, e) \<in> set res}"
  by (auto simp: answers_def split: option.splits)

text \<open>The results when every replica that is asked answers in time.\<close>

definition replica_results ::
    "(nat option \<Rightarrow> u64) \<Rightarrow> (NodeGossip \<Rightarrow> choices) \<Rightarrow> (NodeGossip \<Rightarrow> 'h Process) \<Rightarrow> choice \<Rightarrow> string
      \<Rightarrow> NodeGossip list \<Rightarrow> (GetDataResponse option \<times> error option) list" where
  "replica_results conv chs proc c key picked =
     map (\<lambda>x. case replica_answer conv (chs x) (proc x) (read_request c x key) of
                Inl e \<Rightarrow> (None, Some e) | Inr g \<Rightarrow> (Some g, None)) picked"

lemma answers_replica_results:
  assumes "\<forall>x \<in> set picked. \<exists>g. replica_answer conv (chs x) (proc x) (read_request c x key) = Inr g"
  shows "set (answers (replica_results conv chs proc c key picked))
    = {g. \<exists>x \<in> set picked. replica_answer conv (chs x) (proc x) (read_request c x key) = Inr g}"
  using assms by (force simp: set_answers replica_results_def split: sum.splits)

lemma quorums_meet:
  assumes "distinct replicas" "mset (picked @ rest) = mset replicas" "W \<subseteq> set replicas"
    "length replicas < card W + length picked"
  shows "\<exists>x. x \<in> W \<and> x \<in> set picked"
proof (rule ccontr)
  assume "\<not> ?thesis"
  then have "W \<inter> set picked = {}" by blast
  moreover have "set (picked @ rest) = set replicas" "distinct (picked @ rest)"
    using assms(1,2) mset_eq_setD mset_eq_imp_distinct_iff by blast+
  then have "set picked \<subseteq> set replicas" "card (set picked) = length picked"
    by (auto simp: distinct_card)
  moreover have "finite W" using assms(3) finite_subset by blast
  ultimately have "card W + length picked \<le> card (set replicas)"
    using card_Un_disjoint [of W "set picked"] card_mono [of "set replicas" "W \<union> set picked"] assms(3) by simp
  then show False using assms(1,4) by (simp add: distinct_card)
qed

text \<open>
  C6. Quorums meet: if the replicas in \<open>W\<close> have each received the owner's write of version \<open>n\<close> (in any
  order with other replicated writes, and on a store that already held the key), a later read with
  read quorum \<open>r\<close> asks \<open>r\<close> different replicas, each with the request that \<open>GetKeyValue\<close> builds, and if
  every one of these requests is delivered and answered, the client gets a version of at least \<open>n\<close>, as
  soon as \<open>W\<close> and \<open>r\<close> together exceed the number of replicas; and the value is one that some replica
  holds under that version. Every replica's latest version of the key must be below 2^53, for versions
  are compared as \<open>float64\<close>, and the replicas in \<open>W\<close> must see enough nodes to look up the replicas of the
  key themselves; one that cannot answers 500, which counts as an answer with version 0, and that is
  allowed of the replicas outside \<open>W\<close>. The reader's replicas are different nodes, whose hosts contain no
  question mark or hash sign, and the key consists of characters that need no escaping.
\<close>

theorem read_meets_confirmed_write:
  assumes "getData_parse (pReplicaCount p) (mislaneous_of include [''trace'']) rq = Inr (rqs, rqi)" "0 < rqi"
    and "pReplicaCount p < 2 ^ 63 - 1" "nId (pNode p) \<noteq> gId owner"
    and "GetNNode gEndOfKeyRange gState (ring_of ch p) (token_of key) (pReplicaCount p + 1) = Ret (Inr (owner # replicas))"
    and "distinct replicas" "url_safe key" "0 < n"
    and "\<forall>x \<in> set replicas. small_versions (proc x) key \<and> CHR ''?'' \<notin> set (gHost x) \<and> CHR ''#'' \<notin> set (gHost x)"
    and "\<forall>x \<in> W. serves (chs x) (proc x) key"
    and "\<forall>picked. mset (fanout picked rqi) = mset (replica_results conv chs proc (chQuery ch) key picked)"
    and "W \<subseteq> set replicas" "length replicas < card W + nat rqi"
    and "\<forall>x \<in> W. \<exists>p0 bs chx. proc x = run_replica p0 bs \<and> store_wf (pStore p0)
          \<and> latest (pStore p0) key \<noteq> None \<and> (chx, snd (PostRawKeyValue_request x key val n)) \<in> set bs"
  shows "\<exists>v m md picked. getData conv ch p include key rq redirect fanout
        = (Ret (200, get_ok v m md), [ReadReplicas (map (\<lambda>x. read_request (chQuery ch) x key) picked) rqi])
    \<and> set picked \<subseteq> set replicas \<and> distinct picked \<and> int (length picked) = rqi
    \<and> n \<le> m \<and> (\<exists>x \<in> set picked. latest (pStore (proc x)) key = Some (v, m))"
proof -
  let ?ans = "\<lambda>x. replica_answer conv (chs x) (proc x) (read_request (chQuery ch) x key)"
  have ans: "\<exists>g. ?ans x = Inr g
    \<and> ((gdValue g, gdVersion g) = (case latest (pStore (proc x)) key of None \<Rightarrow> (JNull, 0) | Some (v, m) \<Rightarrow> (v, m))
       \<or> \<not> serves (chs x) (proc x) key \<and> (gdValue g, gdVersion g) = (JNull, 0))" if "x \<in> set replicas" for x
    using that assms(7,9) by (intro replica_answer_cases) auto
  have fan: "set (answers (fanout picked rqi)) = {g. \<exists>x \<in> set picked. ?ans x = Inr g}"
    if "set picked \<subseteq> set replicas" for picked
  proof -
    have "set (fanout picked rqi) = set (replica_results conv chs proc (chQuery ch) key picked)"
      using assms(11) mset_eq_setD by blast
    then have "set (answers (fanout picked rqi)) = set (answers (replica_results conv chs proc (chQuery ch) key picked))"
      by (simp add: set_answers)
    also have "\<dots> = {g. \<exists>x \<in> set picked. ?ans x = Inr g}"
      by (rule answers_replica_results) (use ans that in blast)
    finally show ?thesis .
  qed
  have small: "unat (gdVersion g) < 2 ^ 53" if x: "x \<in> set replicas" and g: "?ans x = Inr g" for x g
  proof (cases "latest (pStore (proc x)) key")
    case None
    then show ?thesis using ans [OF x] g by auto
  next
    case (Some vm)
    then show ?thesis using ans [OF x] g assms(9) x by (cases vm) (auto simp: small_versions_def)
  qed
  then have "\<forall>picked. set picked \<subseteq> set replicas \<longrightarrow> (\<forall>g \<in> set (answers (fanout picked rqi)). unat (gdVersion g) < 2 ^ 53)"
    using fan by blast
  from read_from_replicas_facts [where fanout = fanout and conv = conv and redirect = redirect, OF assms(1-3,5,4) this]
  obtain picked rest v m md where
    R: "getData conv ch p include key rq redirect fanout
        = (Ret (200, get_ok v m md), [ReadReplicas (map (\<lambda>x. read_request (chQuery ch) x key) picked) rqi])"
      "mset (picked @ rest) = mset replicas" "int (length picked) = rqi"
      "if answers (fanout picked rqi) = [] then v = JNull \<and> m = conv None
       else \<exists>g \<in> set (answers (fanout picked rqi)). v = gdValue g \<and> m = gdVersion g
          \<and> (\<forall>g' \<in> set (answers (fanout picked rqi)). gdVersion g' \<le> gdVersion g)"
    by blast
  have "length replicas < card W + length picked" using R(3) assms(13) by simp
  from quorums_meet [OF assms(6) R(2) assms(12) this] obtain x where x: "x \<in> W" "x \<in> set picked" by blast
  have sub: "set picked \<subseteq> set replicas" "distinct picked"
    using mset_eq_setD [OF R(2)] mset_eq_imp_distinct_iff [OF R(2)] assms(6) by auto
  obtain p0 bs chx where w: "proc x = run_replica p0 bs" "store_wf (pStore p0)" "latest (pStore p0) key \<noteq> None"
    "(chx, snd (PostRawKeyValue_request x key val n)) \<in> set bs" using assms(14) x(1) by blast
  then obtain w0 m0 where "latest (pStore p0) key = Some (w0, m0)" by fastforce
  from run_replica_latest [OF w(2) this, of bs] w(1,4) obtain wx mx where
    l: "latest (pStore (proc x)) key = Some (wx, mx)" "n \<le> mx"
    by (fastforce simp: PostRawKeyValue_request_def)
  obtain gx where gx: "?ans x = Inr gx" "gdVersion gx = mx"
    using ans [of x] x sub(1) l(1) assms(10) by auto
  then have "gx \<in> set (answers (fanout picked rqi))" using x(2) by (auto simp: fan [OF sub(1)])
  then obtain g where g: "g \<in> set (answers (fanout picked rqi))" "v = gdValue g" "m = gdVersion g" "mx \<le> m"
    using R(4) gx(2) by (metis (no_types) empty_iff list.set(1))
  then obtain y where y: "y \<in> set picked" "?ans y = Inr g" by (auto simp: fan [OF sub(1)])
  have "n \<le> m" using l(2) g(4) by simp
  moreover have "m \<noteq> 0" using \<open>n \<le> m\<close> assms(8) by auto
  moreover have "y \<in> set replicas" using y(1) sub(1) by blast
  ultimately have "latest (pStore (proc y)) key = Some (v, m)"
    using ans [of y] y(2) g(2,3) by (auto split: option.splits)
  then show ?thesis using R(1,3) y(1) sub \<open>n \<le> m\<close> by blast
qed


definition sample_replica :: NodeGossip where
  "sample_replica = (sample_owner 1)\<lparr>gId := ''a'', gEndOfKeyRange := 0\<rparr>"

definition sample_replica_before :: "nat Process" where
  "sample_replica_before =
     sample_reader\<lparr>pStore := \<lparr>dsStore = [(''k'', [\<lparr>eValue = JStr ''old'', eVersion = 1, eIsReplica = True\<rparr>])],
                            dsHook = None\<rparr>\<rparr>"

definition sample_replica_writes :: "(choices \<times> HandlePostRawReq) list" where
  "sample_replica_writes =
     [(no_choices, snd (PostRawKeyValue_request sample_replica ''k'' (JStr ''new'') 2))]"

lemma sample_reader_GetNNode:
  assumes "pNode p = pNode sample_reader" "pReplicaCount p = 1"
  shows "GetNNode gEndOfKeyRange gState (ring_of no_choices p) (token_of ''k'') (pReplicaCount p + 1)
    = Ret (Inr (sample_owner 1 # [sample_replica]))"
proof -
  have "ring_of no_choices p = [sample_replica, sample_owner 1]"
    using sample_reader_ring assms(1) by (simp add: ring_of_def sample_replica_def)
  then show ?thesis using token_of_less [of "''k''"] assms(2)
    by (simp add: GetNNode_def collect_loop.simps sample_owner_def sample_replica_def)
qed

lemma sample_replica_latest:
  "store_wf (pStore sample_replica_before)" "latest (pStore sample_replica_before) ''k'' = Some (JStr ''old'', 1)"
  "latest (pStore (run_replica sample_replica_before sample_replica_writes)) ''k'' = Some (JStr ''new'', 2)"
proof -
  show wf: "store_wf (pStore sample_replica_before)"
    by (simp add: sample_replica_before_def store_wf_def entries_wf_def)
  show l: "latest (pStore sample_replica_before) ''k'' = Some (JStr ''old'', 1)"
    by (simp add: sample_replica_before_def latest_def history_def)
  show "latest (pStore (run_replica sample_replica_before sample_replica_writes)) ''k'' = Some (JStr ''new'', 2)"
    using latest_written_above [OF wf, of "''k''" "Some 2" "chStore no_choices" "JStr ''new''" True]
    by (simp add: sample_replica_writes_def postReplicaData_eq [OF wf] PostRawKeyValue_request_def l next_version_def)
qed

lemma read_meets_confirmed_write_witness:
  "\<exists>v m md. getData (\<lambda>_. 0) no_choices sample_reader [] ''k'' ''1'' (DoErr BindError)
        (\<lambda>picked _. replica_results (\<lambda>_. 0) (\<lambda>_. no_choices)
           (\<lambda>_. run_replica sample_replica_before sample_replica_writes) [] ''k'' picked)
      = (Ret (200, get_ok v m md), [ReadReplicas [read_request [] sample_replica ''k''] 1]) \<and> 2 \<le> m"
proof -
  let ?after = "run_replica sample_replica_before sample_replica_writes"
  let ?fan = "\<lambda>picked (q :: int). replica_results (\<lambda>_. 0) (\<lambda>_. no_choices) (\<lambda>_. ?after) [] ''k'' picked"
  have a: "Atoi ''1'' = Inr 1" by code_simp
  have rc: "pReplicaCount sample_reader = 1" by (simp add: sample_reader_def)
  have g: "getData_parse (pReplicaCount sample_reader) (mislaneous_of [] [''trace'']) ''1'' = Inr (''1'', 1)"
    by (simp add: getData_parse_def blank_def Let_def a rc)
  have R: "store_wf (pStore ?after)" "pNode ?after = pNode sample_reader" "pReplicaCount ?after = 1"
    using run_replica_latest [OF sample_replica_latest(1,2), of sample_replica_writes]
    by (simp_all add: sample_replica_before_def rc)
  have s: "serves no_choices ?after ''k''" "small_versions ?after ''k''"
    using R sample_reader_GetNNode [OF R(2,3)] sample_replica_latest(3) by (simp_all add: serves_def small_versions_def)
  have i: "nId (pNode sample_reader) \<noteq> gId (sample_owner 1)"
    by (simp add: sample_reader_def sample_owner_def)
  have k: "url_safe ''k''" by (simp add: url_safe_def)
  have hosts: "\<forall>x \<in> set [sample_replica]. small_versions ?after ''k''
      \<and> CHR ''?'' \<notin> set (gHost x) \<and> CHR ''#'' \<notin> set (gHost x)"
    using s by (simp add: sample_replica_def sample_owner_def)
  have sv: "\<forall>x \<in> {sample_replica}. serves no_choices ?after ''k''" using s by simp
  have w: "\<forall>x \<in> {sample_replica}. \<exists>p0 bs chx. ?after = run_replica p0 bs \<and> store_wf (pStore p0)
      \<and> latest (pStore p0) ''k'' \<noteq> None
      \<and> (chx, snd (PostRawKeyValue_request x ''k'' (JStr ''new'') 2)) \<in> set bs"
    using sample_replica_latest(1,2)
    by (intro ballI exI [of _ sample_replica_before] exI [of _ sample_replica_writes] exI [of _ no_choices])
      (simp add: sample_replica_writes_def)
  have fan: "\<forall>picked. mset (?fan picked 1)
      = mset (replica_results (\<lambda>_. 0) (\<lambda>_. no_choices) (\<lambda>_. ?after) (chQuery no_choices) ''k'' picked)"
    by (simp add: no_choices_def)
  have small: "(0 :: int) < 1" "pReplicaCount sample_reader < 2 ^ 63 - 1" "distinct [sample_replica]"
    "(0 :: u64) < 2" "{sample_replica} \<subseteq> set [sample_replica]"
    "length [sample_replica] < card {sample_replica} + nat 1" by (simp_all add: rc)
  from read_meets_confirmed_write [where proc = "\<lambda>_. ?after" and chs = "\<lambda>_. no_choices" and fanout = ?fan,
      OF g small(1,2) i sample_reader_GetNNode [OF refl rc] small(3) k small(4) hosts sv fan small(5,6) w]
  obtain v m md picked where
    G: "getData (\<lambda>_. 0) no_choices sample_reader [] ''k'' ''1'' (DoErr BindError) ?fan
        = (Ret (200, get_ok v m md), [ReadReplicas (map (\<lambda>x. read_request (chQuery no_choices) x ''k'') picked) 1])"
      "set picked \<subseteq> set [sample_replica]" "int (length picked) = 1" "2 \<le> m" by blast
  have "picked = [sample_replica]" using G(2,3) by (cases picked) auto
  then show ?thesis using G(1,4) by (auto simp: no_choices_def)
qed

end
