(* ===== verification/Node_Bootstrap.thy ===== *)
theory Node_Bootstrap
  imports Node_Data
begin

section \<open>Bootstrapping: the receiving side\<close>

text \<open>
  \<open>handleBootstrapping\<close> of \<open>nodes/main.go\<close>, the reading of the stream in \<open>RequestSnapshot\<close>
  (\<open>nodes/api_client/api_client.go\<close>), and the debugging endpoint \<open>getSnapShot\<close>. The new node finds
  the node to its right, asks it for its snapshot, and applies the events of the stream one by one:
  the versions of a key, a live write, the end of the snapshot, which makes it available.

  The body of the answer is a list of lines; decoding the JSON of one is the parameter \<open>decode\<close>.
  Every write takes the choice of its sort from a list, one per version.
\<close>

subsection \<open>The stream\<close>

text \<open>
  What the three \<open>json.Unmarshal\<close> calls make of the text of one line: the event type, and the event
  read as either kind; \<open>None\<close> when the text does not decode.
\<close>

record decoder =
  dcHeader :: "string \<Rightarrow> ReplicationEventType option"
  dcLive :: "string \<Rightarrow> LiveMutationReplicationEvent option"
  dcSnapshot :: "string \<Rightarrow> SnapshotReplicationEvent option"

definition zeroLive :: LiveMutationReplicationEvent where
  "zeroLive = \<lparr>lmEtype = [], lmKey = [], lmValue = JNull, lmVersion = 0\<rparr>"

definition zeroSnapshot :: SnapshotReplicationEvent where
  "zeroSnapshot = \<lparr>srEtype = [], srKey = [], srValues = []\<rparr>"

definition data_prefix :: string where
  "data_prefix = ''data:''"

definition line_event :: "decoder \<Rightarrow> string \<Rightarrow> ReplicationStream option" where
  "line_event dc line =
     (if take (length data_prefix) line \<noteq> data_prefix then None
      else (let data = drop (length data_prefix) line
            in case dcHeader dc data of
                 None \<Rightarrow> None
               | Some etype \<Rightarrow>
                   if etype = LiveMutationReplicationEType \<or> etype = LiveMutationReplicationCompleteEType
                   then map_option (\<lambda>event. \<lparr>rsEType = lmEtype event, rsSnapshot = zeroSnapshot, rsLive = event\<rparr>)
                          (dcLive dc data)
                   else if etype = SnapshotReplicationEType \<or> etype = SnapshotReplicationCompleteEType
                   then map_option (\<lambda>event. \<lparr>rsEType = srEtype event, rsSnapshot = event, rsLive = zeroLive\<rparr>)
                          (dcSnapshot dc data)
                   else None))"

fun stream_events :: "decoder \<Rightarrow> string list \<Rightarrow> ReplicationStream list" where
  "stream_events dc [] = []"
| "stream_events dc (line # lines) =
     (case line_event dc line of
        None \<Rightarrow> stream_events dc lines
      | Some e \<Rightarrow> e # stream_events dc lines)"

text \<open>The answer to the request: an error of the transport, or the lines of the body.\<close>

definition RequestSnapshot_url :: "string \<Rightarrow> string \<Rightarrow> string" where
  "RequestSnapshot_url host sourceid = host @ V1_SNAPSHOT_STREAM @ ''?sourceid='' @ sourceid"

definition RequestSnapshot :: "decoder \<Rightarrow> error + string list \<Rightarrow> error + ReplicationStream list" where
  "RequestSnapshot dc resp =
     (case resp of
        Inl gerr \<Rightarrow> Inl (Joined ErrRequestingReplica gerr)
      | Inr lines \<Rightarrow> Inr (stream_events dc lines))"

subsection \<open>Applying events\<close>

definition first_choice :: "choice list \<Rightarrow> choice" where
  "first_choice cs = (case cs of [] \<Rightarrow> [] | c # _ \<Rightarrow> c)"

fun put_values ::
    "choice list \<Rightarrow> 'h DataStore \<Rightarrow> string \<Rightarrow> StoreEntry list \<Rightarrow> ('h DataStore \<times> 'h hook_call list) outcome" where
  "put_values cs d key [] = Ret (d, [])"
| "put_values cs d key (v # vs) =
     bind_outcome (PutRaw (first_choice cs) d key (eValue v) (Some (eVersion v)) False)
       (\<lambda>(d', n, e, calls).
          bind_outcome (put_values (tl cs) d' key vs) (\<lambda>(d'', calls'). Ret (d'', calls @ calls')))"

definition apply_event ::
    "choice list \<Rightarrow> 'h Process \<Rightarrow> ReplicationStream \<Rightarrow> ('h Process \<times> 'h hook_call list) outcome" where
  "apply_event cs p ch =
     (if rsEType ch = SnapshotReplicationEType
      then bind_outcome (put_values cs (pStore p) (srKey (rsSnapshot ch)) (srValues (rsSnapshot ch)))
             (\<lambda>(d, calls). Ret (p\<lparr>pStore := d\<rparr>, calls))
      else if rsEType ch = SnapshotReplicationCompleteEType
      then Ret (p\<lparr>pNode := (pNode p)\<lparr>nState := AVAILABLE\<rparr>\<rparr>, [])
      else if rsEType ch = LiveMutationReplicationEType
      then bind_outcome (PutRaw (first_choice cs) (pStore p) (lmKey (rsLive ch)) (lmValue (rsLive ch))
                           (Some (lmVersion (rsLive ch))) False)
             (\<lambda>(d, n, e, calls). Ret (p\<lparr>pStore := d\<rparr>, calls))
      else Ret (p, []))"

fun apply_events ::
    "'h Process \<Rightarrow> (choice list \<times> ReplicationStream) list \<Rightarrow> ('h Process \<times> 'h hook_call list) outcome" where
  "apply_events p [] = Ret (p, [])"
| "apply_events p ((cs, ch) # chs) =
     bind_outcome (apply_event cs p ch)
       (\<lambda>(p', calls). bind_outcome (apply_events p' chs) (\<lambda>(p'', calls'). Ret (p'', calls @ calls')))"

text \<open>
  The node asked for the snapshot: the first one in the unsorted array that is available and whose
  range ends at or above \<open>n.EndOfKeyRange + 1\<close>, which wraps around.
\<close>

definition bootstrap_source :: "choices \<Rightarrow> Node \<Rightarrow> error + NodeGossip" where
  "bootstrap_source ch n =
     (let gossipNodes = MapToArr (chArr ch) (Read (chRead ch) (nGossip n))
      in GetNodeByToken NodeGossip_XEndOfKeyRange NodeGossip_XState gossipNodes (nEndOfKeyRange n + 1))"

text \<open>
  \<open>resp\<close> is the answer of the chosen node. The result is the process when the stream has ended, the
  request that was sent, if any, and the calls of the write hook.
\<close>

definition handleBootstrapping ::
    "decoder \<Rightarrow> choices \<Rightarrow> choice list list \<Rightarrow> 'h Process \<Rightarrow> (NodeGossip \<Rightarrow> error + string list)
      \<Rightarrow> ('h Process \<times> string list \<times> 'h hook_call list) outcome" where
  "handleBootstrapping dc ch css p resp =
     (case bootstrap_source ch (pNode p) of
        Inl e \<Rightarrow> Ret (p, [], [])
      | Inr nextNode \<Rightarrow>
          (let url = RequestSnapshot_url (gHost nextNode) (nId (pNode p))
           in case RequestSnapshot dc (resp nextNode) of
                Inl e \<Rightarrow> Ret (p, [url], [])
              | Inr events \<Rightarrow>
                  bind_outcome (apply_events p (zip (css @ replicate (length events) []) events))
                    (\<lambda>(p', calls). Ret (p', [url], calls))))"

text \<open>The debugging endpoint: a snapshot of everything, and then the hook is reset.\<close>

definition getSnapShot :: "choice \<Rightarrow> 'h Process \<Rightarrow> 'h Process \<times> nat \<times> (string \<times> StoreEntry list) list" where
  "getSnapShot c p =
     (let (d, snapshot) = Snapshot c AllKeys [] (pStore p)
      in (p\<lparr>pStore := resetPostWriteHook d\<rparr>, 200, snapshot))"

subsection \<open>Replaying a snapshot\<close>

definition snapshot_events :: "(string \<times> StoreEntry list) list \<Rightarrow> ReplicationStream list" where
  "snapshot_events snap =
     map (\<lambda>(k, vs). \<lparr>rsEType = SnapshotReplicationEType,
                     rsSnapshot = \<lparr>srEtype = SnapshotReplicationEType, srKey = k, srValues = vs\<rparr>,
                     rsLive = zeroLive\<rparr>) snap"

definition complete_event :: ReplicationStream where
  "complete_event =
     \<lparr>rsEType = SnapshotReplicationCompleteEType, rsSnapshot = SnapshotReplicationCompleteEvent,
      rsLive = zeroLive\<rparr>"

text \<open>A history as an owner writes it: versions 1, 2, ... increasing, none a replica.\<close>

definition replayable :: "StoreEntry list \<Rightarrow> bool" where
  "replayable es \<longleftrightarrow>
     es \<noteq> [] \<and> sorted (map eVersion es) \<and> distinct (map eVersion es) \<and> eVersion (hd es) = 1
     \<and> (\<forall>e \<in> set es. \<not> eIsReplica e)"

lemma replay_snoc:
  assumes "store_wf d" "history d key = es" "es \<noteq> []" "sorted (map eVersion (es @ [v]))"
    "distinct (map eVersion (es @ [v]))" "\<not> eIsReplica v"
  shows "\<exists>d' calls. PutRaw c d key (eValue v) (Some (eVersion v)) False = Ret (d', eVersion v, None, calls)
    \<and> store_wf d' \<and> history d' key = es @ [v] \<and> (\<forall>k. k \<noteq> key \<longrightarrow> history d' k = history d k)
    \<and> dsHook d' = dsHook d"
proof -
  obtain w n where l: "latest d key = Some (w, n)"
    using assms(2,3) by (cases "latest d key") (auto simp: latest_eq_None)
  then have n: "next_version d key (Some (eVersion v)) = eVersion v" by (simp add: next_version_def)
  then have "new_entry d key (eValue v) (Some (eVersion v)) False = v"
    using assms(6) by (simp add: new_entry_def)
  moreover have "sort_slice c eVersion (es @ [v]) = es @ [v]"
    using assms(4,5) by (intro sort_slice_unique) simp_all
  ultimately have "history (written c d key (eValue v) (Some (eVersion v)) False) key = es @ [v]"
    by (simp add: history_written assms(2))
  then show ?thesis
    by (simp add: PutRaw_eq [OF assms(1)] n store_wf_written assms(1)) (simp add: history_written)
qed

lemma put_values_extend:
  assumes "store_wf d" "history d key = es" "es \<noteq> []" "sorted (map eVersion (es @ vs))"
    "distinct (map eVersion (es @ vs))" "\<forall>v \<in> set vs. \<not> eIsReplica v"
  shows "\<exists>d' calls. put_values cs d key vs = Ret (d', calls) \<and> store_wf d' \<and> history d' key = es @ vs
    \<and> (\<forall>k. k \<noteq> key \<longrightarrow> history d' k = history d k) \<and> dsHook d' = dsHook d"
  using assms
proof (induction vs arbitrary: cs d es)
  case (Cons v vs)
  have "sorted (map eVersion (es @ [v]))" "distinct (map eVersion (es @ [v]))" "\<not> eIsReplica v"
    using Cons.prems by (auto simp: sorted_append)
  from replay_snoc [OF Cons.prems(1-3) this, of "first_choice cs"] obtain d1 calls where
    1: "PutRaw (first_choice cs) d key (eValue v) (Some (eVersion v)) False = Ret (d1, eVersion v, None, calls)"
      "store_wf d1" "history d1 key = es @ [v]" "\<forall>k. k \<noteq> key \<longrightarrow> history d1 k = history d k"
      "dsHook d1 = dsHook d" by blast
  from Cons.IH [OF 1(2,3), of "tl cs"] Cons.prems obtain d2 calls2 where
    "put_values (tl cs) d1 key vs = Ret (d2, calls2)" "store_wf d2" "history d2 key = es @ v # vs"
    "\<forall>k. k \<noteq> key \<longrightarrow> history d2 k = history d1 k" "dsHook d2 = dsHook d1" by auto
  with 1 show ?case by auto
qed auto

lemma put_values_new:
  assumes "store_wf d" "history d key = []" "replayable vs"
  shows "\<exists>d' calls. put_values cs d key vs = Ret (d', calls) \<and> store_wf d' \<and> history d' key = vs
    \<and> (\<forall>k. k \<noteq> key \<longrightarrow> history d' k = history d k) \<and> dsHook d' = dsHook d"
proof -
  obtain v vs' where vs: "vs = v # vs'" using assms(3) by (cases vs) (auto simp: replayable_def)
  have v: "eVersion v = 1" "\<not> eIsReplica v" using assms(3) by (auto simp: vs replayable_def)
  let ?d1 = "written (first_choice cs) d key (eValue v) (Some 1) False"
  have n: "next_version d key (Some 1) = 1" using assms(2) by (simp add: next_version_def latest_def)
  have e: "new_entry d key (eValue v) (Some 1) False = v" using v by (simp add: new_entry_def n)
  have 1: "PutRaw (first_choice cs) d key (eValue v) (Some (eVersion v)) False
      = Ret (?d1, 1, None, case dsHook d of None \<Rightarrow> [] | Some h \<Rightarrow> [(h, key, eValue v, 1)])"
    by (simp add: PutRaw_eq [OF assms(1)] v n split: option.splits)
  have wf: "store_wf ?d1" by (rule store_wf_written [OF assms(1)])
  have h: "history ?d1 key = [v]" by (simp add: history_written assms(2) e)
  have "\<exists>d' calls. put_values (tl cs) ?d1 key vs' = Ret (d', calls) \<and> store_wf d' \<and> history d' key = [v] @ vs'
    \<and> (\<forall>k. k \<noteq> key \<longrightarrow> history d' k = history ?d1 k) \<and> dsHook d' = dsHook ?d1"
    by (rule put_values_extend [OF wf h]) (use assms(3) in \<open>auto simp: vs replayable_def\<close>)
  then obtain d' calls where "put_values (tl cs) ?d1 key vs' = Ret (d', calls)" "store_wf d'"
    "history d' key = v # vs'" "\<forall>k. k \<noteq> key \<longrightarrow> history d' k = history ?d1 k" "dsHook d' = dsHook d" by auto
  with 1 show ?thesis by (auto simp: vs history_written)
qed

lemma apply_snapshot_events:
  assumes "store_wf (pStore p)" "distinct (map fst snap)" "\<forall>(k, vs) \<in> set snap. replayable vs \<and> history (pStore p) k = []"
    "length css = length snap"
  shows "\<exists>p' calls. apply_events p (zip css (snapshot_events snap)) = Ret (p', calls)
    \<and> pNode p' = pNode p \<and> pReplicaCount p' = pReplicaCount p \<and> store_wf (pStore p')
    \<and> (\<forall>k. history (pStore p') k = (case map_of snap k of Some vs \<Rightarrow> vs | None \<Rightarrow> history (pStore p) k))"
  using assms
proof (induction snap arbitrary: p css)
  case Nil
  then show ?case by (simp add: snapshot_events_def)
next
  case (Cons kv snap)
  obtain k vs where kv: "kv = (k, vs)" by force
  obtain cs css' where css: "css = cs # css'" using Cons.prems(4) by (cases css) auto
  from put_values_new [OF Cons.prems(1), of k vs cs] Cons.prems(3) obtain d calls where
    d: "put_values cs (pStore p) k vs = Ret (d, calls)" "store_wf d" "history d k = vs"
      "\<forall>k'. k' \<noteq> k \<longrightarrow> history d k' = history (pStore p) k'" by (auto simp: kv)
  let ?p = "p\<lparr>pStore := d\<rparr>"
  have k: "k \<notin> fst ` set snap" "distinct (map fst snap)" using Cons.prems(2) by (simp_all add: kv)
  have "\<forall>(k', vs) \<in> set snap. replayable vs \<and> history (pStore ?p) k' = []"
  proof (clarify)
    fix k' vs' assume m: "(k', vs') \<in> set snap"
    then have "k' \<noteq> k" using k(1) by force
    then show "replayable vs' \<and> history (pStore ?p) k' = []" using Cons.prems(3) d(4) m by auto
  qed
  moreover have st: "pStore ?p = d" "pNode ?p = pNode p" "pReplicaCount ?p = pReplicaCount p" by simp_all
  moreover have "length css' = length snap" using Cons.prems(4) by (simp add: css)
  ultimately obtain p' calls' where
    p': "apply_events ?p (zip css' (snapshot_events snap)) = Ret (p', calls')" "pNode p' = pNode p"
      "pReplicaCount p' = pReplicaCount p" "store_wf (pStore p')"
      "\<forall>k. history (pStore p') k = (case map_of snap k of Some vs \<Rightarrow> vs | None \<Rightarrow> history d k)"
    using Cons.IH [of ?p css'] k(2) d(2) unfolding st by blast
  have "apply_events p (zip css (snapshot_events (kv # snap))) = Ret (p', calls @ calls')"
    using p'(1) d(1) by (simp add: css kv snapshot_events_def apply_event_def)
  moreover have "map_of snap k = None" using k(1) by (simp add: map_of_eq_None_iff)
  ultimately show ?case using p' d(3,4) by (auto simp: kv split: option.splits)
qed

lemma apply_events_append:
  "apply_events p (xs @ ys) = bind_outcome (apply_events p xs)
     (\<lambda>(p', calls). bind_outcome (apply_events p' ys) (\<lambda>(p'', calls'). Ret (p'', calls @ calls')))"
proof (induction xs arbitrary: p)
  case Nil
  show ?case by (cases "apply_events p ys") (auto split: prod.splits)
next
  case (Cons x xs)
  obtain cs ch where x: "x = (cs, ch)" by force
  show ?case
  proof (cases "apply_event cs p ch")
    case (Ret r)
    obtain p1 calls where r: "r = (p1, calls)" by force
    show ?thesis
    proof (cases "apply_events p1 xs")
      case (Ret r2)
      obtain p2 calls2 where r2: "r2 = (p2, calls2)" by force
      show ?thesis
        by (cases "apply_events p2 ys")
           (auto simp: x \<open>apply_event cs p ch = Ret r\<close> r Cons.IH Ret r2 split: prod.splits)
    qed (simp add: x Ret r Cons.IH)
  qed (simp add: x)
qed

end
