(* ===== verification/Snapshot_Stream.thy ===== *)
theory Snapshot_Stream
  imports Node_Bootstrap "HOL-Library.Sublist"
begin

section \<open>Bootstrapping: the sending side\<close>

text \<open>
  \<open>getSnapshotStream\<close> of \<open>nodes/main.go\<close> as a state machine: the handler's loop in \<open>c.Stream\<close>, the
  goroutine that takes and sends the snapshot, the ticker that ends the live replication, the
  writers of the store, whose hook sends on an unbuffered channel, and the gossip table, which
  others change at any time. A step is one critical section of the store, one rendezvous on a
  channel, or one tick; the scheduler's choice is which step comes next.

  The store has one hook, and other requests touch it too: another snapshot stream installs its own
  in place of this one's, \<open>GET /v1/snapshot\<close> and the end of another stream take away whatever is
  installed. \<open>other_hook\<close> and \<open>other_reset\<close> are these, at any time.

  In the source the requesting (new) node is called the source node. \<open>ssLimit\<close> is its range end, once
  the goroutine has looked it up.
\<close>

subsection \<open>State\<close>

datatype reset_fn = ResetNil | ResetNoop | ResetStore

datatype sender =
    SnapStart
  | SnapHooked
  | SnapSending "(string \<times> StoreEntry list) list"
  | SnapClosed

datatype ticker = TkRunning | TkClosed | TkStopped

datatype sse = SseSnapshot SnapshotReplicationEvent | SseLive LiveMutationReplicationEvent

text \<open>The closure in the hook of the store: this stream's, with its range end, or another stream's.\<close>

datatype hook = ThisStream u64 | OtherStream

type_synonym mutation = "string \<times> any \<times> u64"

record stream =
  ssSourceId :: string
  ssLimit :: u64
  ssSender :: sender
  ssReset :: reset_fn
  ssTicker :: ticker
  ssSnapNil :: bool
  ssLiveClosed :: bool
  ssLiveNil :: bool
  ssSnapDone :: bool
  ssLiveDone :: bool
  ssOpen :: bool
  ssOut :: "sse list"
  ssInflight :: "mutation list"
  ssPending :: "mutation list"
  ssStore :: "hook DataStore"
  ssTable :: table
  ssPanic :: "panic option"

text \<open>The handler starts: no goroutine has run yet.\<close>

definition stream_init :: "string \<Rightarrow> hook DataStore \<Rightarrow> table \<Rightarrow> stream" where
  "stream_init sourceId d t =
     \<lparr>ssSourceId = sourceId, ssLimit = 0, ssSender = SnapStart, ssReset = ResetNil, ssTicker = TkRunning,
      ssSnapNil = False, ssLiveClosed = False, ssLiveNil = False, ssSnapDone = False,
      ssLiveDone = False, ssOpen = True, ssOut = [], ssInflight = [], ssPending = [], ssStore = d,
      ssTable = t, ssPanic = None\<rparr>"

definition key_filter :: "u64 \<Rightarrow> string \<Rightarrow> bool" where
  "key_filter limit key \<longleftrightarrow> token_of key \<le> limit"

definition snapshot_body :: "string \<times> StoreEntry list \<Rightarrow> sse" where
  "snapshot_body kv = SseSnapshot \<lparr>srEtype = SnapshotReplicationEType, srKey = fst kv, srValues = snd kv\<rparr>"

definition live_body :: "mutation \<Rightarrow> sse" where
  "live_body m =
     (case m of (key, val, version) \<Rightarrow>
        SseLive \<lparr>lmEtype = LiveMutationReplicationEType, lmKey = key, lmValue = val, lmVersion = version\<rparr>)"

text \<open>
  The call of the hook, by the writer that has stored \<open>m\<close>: the closure sends on the live channel if its
  filter accepts the key. \<open>ssPending\<close> holds the writers that are blocked in that send. A send on the
  closed channel panics; once the handler has set the channel to \<open>nil\<close> a send blocks forever (no step
  receives what is pending then). Another stream's closure sends on a channel of its own.
\<close>

definition call_hook :: "stream \<Rightarrow> mutation \<Rightarrow> stream" where
  "call_hook s m =
     (case dsHook (ssStore s) of
        None \<Rightarrow> s\<lparr>ssPanic := Some NilFunctionCall\<rparr>
      | Some OtherStream \<Rightarrow> s
      | Some (ThisStream limit) \<Rightarrow>
          if key_filter limit (fst m)
          then if ssLiveClosed s \<and> \<not> ssLiveNil s then s\<lparr>ssPanic := Some SendOnClosedChannel\<rparr>
               else s\<lparr>ssPending := ssPending s @ [m]\<rparr>
          else s)"

text \<open>The ticker's end, first half: it closes the channel; senders that are blocked on it panic.\<close>

definition close_live :: "stream \<Rightarrow> stream" where
  "close_live s =
     s\<lparr>ssLiveClosed := True, ssTicker := TkClosed, ssPending := [],
       ssPanic := if ssPending s = [] then ssPanic s else Some SendOnClosedChannel\<rparr>"

text \<open>Second half: it calls the reset function and stops.\<close>

definition call_reset :: "stream \<Rightarrow> stream" where
  "call_reset s =
     (case ssReset s of
        ResetNil \<Rightarrow> s\<lparr>ssTicker := TkStopped, ssPanic := Some NilFunctionCall\<rparr>
      | ResetNoop \<Rightarrow> s\<lparr>ssTicker := TkStopped\<rparr>
      | ResetStore \<Rightarrow> s\<lparr>ssTicker := TkStopped, ssStore := resetPostWriteHook (ssStore s)\<rparr>)"

lemma call_hook_same [simp]:
  "ssStore (call_hook s m) = ssStore s" "ssReset (call_hook s m) = ssReset s" "ssLimit (call_hook s m) = ssLimit s"
  "ssSnapDone (call_hook s m) = ssSnapDone s" "ssSnapNil (call_hook s m) = ssSnapNil s"
  "ssLiveClosed (call_hook s m) = ssLiveClosed s" "ssLiveNil (call_hook s m) = ssLiveNil s"
  "ssOut (call_hook s m) = ssOut s" "ssOpen (call_hook s m) = ssOpen s" "ssTicker (call_hook s m) = ssTicker s"
  "ssInflight (call_hook s m) = ssInflight s" "ssSender (call_hook s m) = ssSender s"
  by (simp_all add: call_hook_def split: option.splits hook.splits)

lemma sender_unchanged [simp]:
  "ssSender (close_live s) = ssSender s" "ssSender (call_reset s) = ssSender s"
  by (simp_all add: close_live_def call_reset_def split: reset_fn.splits)

subsection \<open>Steps\<close>

inductive stream_step :: "stream \<Rightarrow> stream \<Rightarrow> bool" where
  snap_empty:
    "ssSender s = SnapStart \<Longrightarrow> Size (ssStore s) = 0 \<Longrightarrow>
     stream_step s (s\<lparr>ssReset := ResetNoop, ssSender := SnapClosed\<rparr>)"
| snap_unknown:
    "ssSender s = SnapStart \<Longrightarrow> Size (ssStore s) \<noteq> 0 \<Longrightarrow> Gossip_Get (ssTable s) (ssSourceId s) = None \<Longrightarrow>
     stream_step s (s\<lparr>ssSender := SnapClosed\<rparr>)"
| snap_hook:
    "ssSender s = SnapStart \<Longrightarrow> Size (ssStore s) \<noteq> 0 \<Longrightarrow> Gossip_Get (ssTable s) (ssSourceId s) = Some g \<Longrightarrow>
     stream_step s (s\<lparr>ssLimit := gEndOfKeyRange g, ssSender := SnapHooked,
       ssStore := Snapshot_opts [WithPostWriteHook (ThisStream (gEndOfKeyRange g))] (ssStore s)\<rparr>)"
| snap_copy:
    "ssSender s = SnapHooked \<Longrightarrow>
     stream_step s (s\<lparr>ssReset := ResetStore,
       ssSender := SnapSending (permute c' (Snapshot_copy c (key_filter (ssLimit s)) (ssStore s)))\<rparr>)"
| snap_send:
    "ssSender s = SnapSending (kv # rest) \<Longrightarrow> ssOpen s \<Longrightarrow> \<not> ssSnapNil s \<Longrightarrow>
     stream_step s (s\<lparr>ssSender := SnapSending rest, ssOut := ssOut s @ [snapshot_body kv]\<rparr>)"
| snap_close:
    "ssSender s = SnapSending [] \<Longrightarrow> stream_step s (s\<lparr>ssSender := SnapClosed\<rparr>)"
| recv_snap_closed:
    "ssSender s = SnapClosed \<Longrightarrow> ssOpen s \<Longrightarrow> \<not> ssSnapNil s \<Longrightarrow>
     stream_step s (s\<lparr>ssSnapNil := True, ssSnapDone := True,
       ssOut := ssOut s @ (if ssSnapDone s then [] else [SseSnapshot SnapshotReplicationCompleteEvent])\<rparr>)"
| store_write:
    "PutRaw_locked c (ssStore s) key val version isReplica = Ret (d, n, hook) \<Longrightarrow>
     stream_step s (s\<lparr>ssStore := d,
       ssInflight := ssInflight s @ (if hook = None then [] else [(key, val, n)])\<rparr>)"
| hook_call:
    "ssInflight s = xs @ m # ys \<Longrightarrow>
     stream_step s (call_hook (s\<lparr>ssInflight := xs @ ys\<rparr>) m)"
| live_send:
    "ssPending s = xs @ m # ys \<Longrightarrow> ssOpen s \<Longrightarrow> \<not> ssLiveNil s \<Longrightarrow> \<not> ssLiveClosed s \<Longrightarrow>
     stream_step s (s\<lparr>ssPending := xs @ ys, ssOut := ssOut s @ [live_body m]\<rparr>)"
| tick:
    "ssTicker s = TkRunning \<Longrightarrow> Gossip_Get (ssTable s) (ssSourceId s) = Some g \<Longrightarrow> ssSnapDone s \<Longrightarrow>
     gState g = AVAILABLE \<Longrightarrow> stream_step s (close_live s)"
| tick_reset:
    "ssTicker s = TkClosed \<Longrightarrow> stream_step s (call_reset s)"
| recv_live_closed:
    "ssLiveClosed s \<Longrightarrow> ssOpen s \<Longrightarrow> \<not> ssLiveNil s \<Longrightarrow>
     stream_step s (s\<lparr>ssLiveNil := True, ssLiveDone := True,
       ssOut := ssOut s @ (if ssLiveDone s then [] else [SseLive LiveMutationReplicationCompleteEvent])\<rparr>)"
| stream_end:
    "ssOpen s \<Longrightarrow> ssSnapDone s \<Longrightarrow> ssLiveDone s \<Longrightarrow> stream_step s (s\<lparr>ssOpen := False\<rparr>)"
| disconnect:
    "ssOpen s \<Longrightarrow> stream_step s (s\<lparr>ssOpen := False\<rparr>)"
| gossip_change:
    "stream_step s (s\<lparr>ssTable := t\<rparr>)"
| other_hook:
    "stream_step s (s\<lparr>ssStore := Snapshot_opts [WithPostWriteHook OtherStream] (ssStore s)\<rparr>)"
| other_reset:
    "stream_step s (s\<lparr>ssStore := resetPostWriteHook (ssStore s)\<rparr>)"

inductive stream_steps :: "stream \<Rightarrow> stream \<Rightarrow> bool" for s0 where
  stream_refl: "stream_steps s0 s0"
| stream_next: "stream_steps s0 s \<Longrightarrow> stream_step s s' \<Longrightarrow> stream_steps s0 s'"

subsection \<open>Nothing is lost while the hook is installed\<close>

text \<open>Where a version of a key can be: in the snapshot, sent or to be sent, or on the live path.\<close>

definition to_send :: "stream \<Rightarrow> (string \<times> StoreEntry list) list" where
  "to_send s = (case ssSender s of SnapSending kvs \<Rightarrow> kvs | _ \<Rightarrow> [])"

definition in_transit :: "stream \<Rightarrow> string \<Rightarrow> StoreEntry \<Rightarrow> bool" where
  "in_transit s k e \<longleftrightarrow>
     (\<exists>vs. (k, vs) \<in> set (to_send s) \<and> e \<in> set vs)
   \<or> (\<exists>vs. snapshot_body (k, vs) \<in> set (ssOut s) \<and> e \<in> set vs)
   \<or> (k, eValue e, eVersion e) \<in> set (ssInflight s) \<union> set (ssPending s)
   \<or> live_body (k, eValue e, eVersion e) \<in> set (ssOut s)"

text \<open>The hook of the store is this stream's closure.\<close>

definition hooked :: "hook DataStore \<Rightarrow> bool" where
  "hooked d \<longleftrightarrow> (case dsHook d of Some (ThisStream limit) \<Rightarrow> True | _ \<Rightarrow> False)"

lemma hooked_Some: "hooked d \<longleftrightarrow> (\<exists>limit. dsHook d = Some (ThisStream limit))"
  by (auto simp: hooked_def split: option.splits hook.splits)

definition stream_inv :: "stream \<Rightarrow> bool" where
  "stream_inv s \<longleftrightarrow>
     store_wf (ssStore s)
   \<and> (ssTicker s = TkClosed \<longrightarrow> ssLiveClosed s)
   \<and> (ssLiveClosed s \<or> ssTicker s \<noteq> TkRunning \<longrightarrow> ssSnapDone s)
   \<and> (hooked (ssStore s) \<longrightarrow> dsHook (ssStore s) = Some (ThisStream (ssLimit s)) \<and> ssSender s \<noteq> SnapStart)
   \<and> (case ssSender s of
        SnapStart \<Rightarrow> ssReset s = ResetNil \<and> \<not> ssSnapDone s
      | SnapHooked \<Rightarrow> ssReset s = ResetNil \<and> \<not> ssSnapDone s
      | SnapSending kvs \<Rightarrow> ssReset s = ResetStore \<and> \<not> ssSnapDone s
      | SnapClosed \<Rightarrow> True)
   \<and> (ssReset s = ResetStore \<and> \<not> ssLiveClosed s \<and> hooked (ssStore s) \<longrightarrow>
        (\<forall>k e. key_filter (ssLimit s) k \<longrightarrow> e \<in> set (history (ssStore s) k) \<longrightarrow> in_transit s k e))"

lemma hooked_simps [simp]:
  "hooked (d\<lparr>dsHook := h\<rparr>) = (\<exists>limit. h = Some (ThisStream limit))"
  "hooked (resetPostWriteHook d) = False" "hooked (written c d key val version r) = hooked d"
  by (simp_all add: hooked_Some resetPostWriteHook_def)

lemma resetPostWriteHook_simps [simp]:
  "dsHook (resetPostWriteHook d) = None" "store_wf (resetPostWriteHook d) = store_wf d"
  "history (resetPostWriteHook d) = history d"
  by (simp_all add: resetPostWriteHook_def)

lemma PutRaw_locked_Ret:
  assumes "store_wf d" "PutRaw_locked c d key val version r = Ret (d', n, hook)"
  shows "store_wf d'" "dsHook d' = dsHook d" "hook = dsHook d" "hooked d' = hooked d"
    "set (history d' k) \<subseteq> (if k = key then insert \<lparr>eValue = val, eVersion = n, eIsReplica = r\<rparr> (set (history d k))
                          else set (history d k))"
  using assms by (auto simp: PutRaw_locked_eq store_wf_written history_written new_entry_def)

lemma in_transit_mono:
  assumes "in_transit s k e" "set (to_send s) \<subseteq> set (to_send s') \<union> {kv. snapshot_body kv \<in> set (ssOut s')}"
    "set (ssOut s) \<subseteq> set (ssOut s')"
    "(k, eValue e, eVersion e) \<in> set (ssInflight s) \<union> set (ssPending s) \<Longrightarrow>
       (k, eValue e, eVersion e) \<in> set (ssInflight s') \<union> set (ssPending s')
       \<or> live_body (k, eValue e, eVersion e) \<in> set (ssOut s')"
  shows "in_transit s' k e"
  using assms unfolding in_transit_def by blast

lemma stream_inv_init:
  "store_wf d \<Longrightarrow> \<not> hooked d \<Longrightarrow> stream_inv (stream_init sid d t)"
  by (simp add: stream_inv_def stream_init_def)

lemma call_hook_inv:
  assumes "stream_inv s" "ssInflight s = xs @ m # ys"
  shows "stream_inv (call_hook (s\<lparr>ssInflight := xs @ ys\<rparr>) m)"
proof -
  let ?s = "s\<lparr>ssInflight := xs @ ys\<rparr>"
  let ?t = "call_hook ?s m"
  have "in_transit ?t k e"
    if live: "\<not> ssLiveClosed s" "dsHook (ssStore s) = Some (ThisStream (ssLimit s))"
      and k: "key_filter (ssLimit s) k" and tr: "in_transit s k e" for k e
  proof (rule in_transit_mono [OF tr])
    show "(k, eValue e, eVersion e) \<in> set (ssInflight ?t) \<union> set (ssPending ?t)
       \<or> live_body (k, eValue e, eVersion e) \<in> set (ssOut ?t)"
      if "(k, eValue e, eVersion e) \<in> set (ssInflight s) \<union> set (ssPending s)"
      using that k live by (auto simp: assms(2) call_hook_def)
  qed (simp_all add: to_send_def)
  then show ?thesis using assms(1) by (simp add: stream_inv_def split: sender.splits)
qed

lemma stream_inv_step [inv_intros]:
  assumes "stream_step s s'" "stream_inv s"
  shows "stream_inv s'"
  using assms(1)
proof (cases rule: stream_step.cases)
  case (hook_call xs m ys)
  then show ?thesis using call_hook_inv [OF assms(2)] by simp
next
  case (store_write c key val version isReplica d n hook)
  have wf: "store_wf (ssStore s)" using assms(2) by (simp add: stream_inv_def)
  note P = PutRaw_locked_Ret [OF wf store_write(2)]
  have "in_transit s' k e" if l: "ssReset s = ResetStore" "\<not> ssLiveClosed s" "hooked (ssStore s)"
    and k: "key_filter (ssLimit s) k" and e: "e \<in> set (history d k)" for k e
  proof (cases "e \<in> set (history (ssStore s) k)")
    case True
    then have "in_transit s k e" using assms(2) l k by (simp add: stream_inv_def)
    then show ?thesis by (rule in_transit_mono) (auto simp: store_write(1) to_send_def)
  next
    case False
    then have "k = key" "e = \<lparr>eValue = val, eVersion = n, eIsReplica = isReplica\<rparr>"
      using e P(5) [of k] by (auto split: if_splits)
    moreover have "hook \<noteq> None" using l(3) P(3) by (auto simp: hooked_Some)
    ultimately show ?thesis by (auto simp: in_transit_def store_write(1))
  qed
  then show ?thesis using assms(2) P(1-4)
    by (simp add: stream_inv_def store_write(1) split: sender.splits)
next
  case (snap_copy c' c)
  have wf: "store_wf (ssStore s)" using assms(2) by (simp add: stream_inv_def)
  have h: "\<not> ssSnapDone s" "\<not> ssLiveClosed s" "ssTicker s = TkRunning"
    "hooked (ssStore s) \<longrightarrow> dsHook (ssStore s) = Some (ThisStream (ssLimit s))"
    using assms(2) snap_copy(2) by (auto simp: stream_inv_def)
  have "in_transit s' k e" if "key_filter (ssLimit s) k" "e \<in> set (history (ssStore s) k)" for k e
  proof -
    have "(k, history (ssStore s) k) \<in> set (Snapshot_copy c (key_filter (ssLimit s)) (ssStore s))"
      using that by (auto simp: set_Snapshot_copy [OF wf])
    then show ?thesis using that(2) by (auto simp: in_transit_def to_send_def snap_copy(1))
  qed
  then show ?thesis using wf h by (simp add: stream_inv_def snap_copy(1))
next
  case (snap_send kv rest)
  have "in_transit s' k e" if "in_transit s k e" for k e
    using that by (rule in_transit_mono) (auto simp: snap_send(1,2) to_send_def)
  then show ?thesis using assms(2) snap_send(2) by (auto simp: stream_inv_def snap_send(1))
next
  case (live_send xs m ys)
  have "in_transit s' k e" if "in_transit s k e" for k e
    using that by (rule in_transit_mono) (auto simp: live_send(1,2) to_send_def)
  then show ?thesis using assms(2) by (auto simp: stream_inv_def live_send(1) split: sender.splits)
next
  case (tick g)
  then have "ssSender s = SnapClosed" using assms(2) by (cases "ssSender s") (simp_all add: stream_inv_def)
  then show ?thesis using assms(2) tick(4) by (simp add: tick(1) stream_inv_def close_live_def)
next
  case tick_reset
  then have "ssSender s = SnapClosed" "ssLiveClosed s"
    using assms(2) by (cases "ssSender s"; simp add: stream_inv_def)+
  then show ?thesis using assms(2)
    by (simp add: tick_reset(1) stream_inv_def call_reset_def split: reset_fn.splits)
next
  case recv_snap_closed
  have "in_transit s' k e" if "in_transit s k e" for k e
    using that by (rule in_transit_mono) (auto simp: recv_snap_closed(1) to_send_def)
  then show ?thesis using assms(2) recv_snap_closed(2) by (auto simp: stream_inv_def recv_snap_closed(1))
next
  case recv_live_closed
  then show ?thesis using assms(2) by (cases "ssSender s") (auto simp: stream_inv_def)
next
  case snap_close
  have "in_transit s' k e" if "in_transit s k e" for k e
    using that by (rule in_transit_mono) (auto simp: snap_close to_send_def)
  then show ?thesis using assms(2) by (auto simp: stream_inv_def snap_close split: sender.splits)
next
  case stream_end
  have "in_transit s' k e" if "in_transit s k e" for k e
    using that by (rule in_transit_mono) (auto simp: stream_end(1) to_send_def)
  then show ?thesis using assms(2) by (simp add: stream_inv_def stream_end(1) split: sender.splits)
next
  case disconnect
  have "in_transit s' k e" if "in_transit s k e" for k e
    using that by (rule in_transit_mono) (auto simp: disconnect(1) to_send_def)
  then show ?thesis using assms(2) by (simp add: stream_inv_def disconnect(1) split: sender.splits)
next
  case (gossip_change t)
  have "in_transit s' k e" if "in_transit s k e" for k e
    using that by (rule in_transit_mono) (auto simp: gossip_change(1) to_send_def)
  then show ?thesis using assms(2) by (simp add: stream_inv_def gossip_change(1) split: sender.splits)
next
  case (snap_hook g)
  then show ?thesis using assms(2) by (auto simp: stream_inv_def)
next
  case other_hook
  then show ?thesis using assms(2) by (simp add: stream_inv_def split: sender.splits)
next
  case other_reset
  then show ?thesis using assms(2) by (simp add: stream_inv_def split: sender.splits)
qed (use assms(2) in \<open>auto simp: stream_inv_def\<close>)

lemma stream_inv_steps:
  "stream_steps s0 s \<Longrightarrow> stream_inv s0 \<Longrightarrow> stream_inv s"
  by (induction rule: stream_steps.induct) (auto intro: stream_inv_step)


lemma stream_steps_trans: "stream_steps s1 s2 \<Longrightarrow> stream_steps s0 s1 \<Longrightarrow> stream_steps s0 s2"
  by (induction rule: stream_steps.induct) (auto intro: stream_next)

subsection \<open>The stream only moves forward\<close>

text \<open>The phases of the ticker, in the order it goes through them.\<close>

primrec ticker_phase :: "ticker \<Rightarrow> nat" where
  "ticker_phase TkRunning = 0"
| "ticker_phase TkClosed = 1"
| "ticker_phase TkStopped = 2"

lemma ticker_phase_inj: "ticker_phase a = ticker_phase b \<Longrightarrow> a = b"
  by (cases a; cases b) simp_all

instantiation ticker :: linorder
begin

definition less_eq_ticker :: "ticker \<Rightarrow> ticker \<Rightarrow> bool" where
  "less_eq_ticker a b \<longleftrightarrow> ticker_phase a \<le> ticker_phase b"

definition less_ticker :: "ticker \<Rightarrow> ticker \<Rightarrow> bool" where
  "less_ticker a b \<longleftrightarrow> ticker_phase a < ticker_phase b"

instance
  by standard (auto simp: less_eq_ticker_def less_ticker_def intro: ticker_phase_inj)

end

text \<open>What has been written stays written, and no phase and no flag goes back.\<close>

definition forward :: "stream \<Rightarrow> stream \<Rightarrow> bool" where
  "forward s s' \<longleftrightarrow>
     prefix (ssOut s) (ssOut s') \<and> ssTicker s \<le> ssTicker s'
   \<and> (ssSnapDone s \<longrightarrow> ssSnapDone s') \<and> (ssLiveClosed s \<longrightarrow> ssLiveClosed s') \<and> (ssOpen s' \<longrightarrow> ssOpen s)"

lemma forward_step: "stream_step s s' \<Longrightarrow> forward s s'"
  by (cases rule: stream_step.cases, assumption)
    (auto simp: forward_def close_live_def call_reset_def less_eq_ticker_def split: reset_fn.splits)

lemma forward_steps: "stream_steps s s' \<Longrightarrow> forward s s'"
proof (induction rule: stream_steps.induct)
  case (stream_next s1 s2)
  then show ?case using forward_step [OF stream_next.hyps(2)]
    by (auto simp: forward_def intro: prefix_order.trans order_trans)
qed (simp add: forward_def)

subsection \<open>The end of the snapshot\<close>

abbreviation sse_complete :: sse where
  "sse_complete \<equiv> SseSnapshot SnapshotReplicationCompleteEvent"

text \<open>The end marker is sent once, when the sender has finished, and only live events follow it.\<close>

definition order_inv :: "stream \<Rightarrow> bool" where
  "order_inv s \<longleftrightarrow>
     ssSnapNil s = ssSnapDone s
   \<and> (ssSnapDone s \<longrightarrow> ssSender s = SnapClosed)
   \<and> (if ssSnapDone s
      then \<exists>pre post. ssOut s = pre @ sse_complete # post \<and> sse_complete \<notin> set pre
             \<and> (\<forall>e \<in> set post. \<exists>l. e = SseLive l)
      else sse_complete \<notin> set (ssOut s))"

lemma snapshot_body_not_complete [simp]: "snapshot_body kv \<noteq> sse_complete" "sse_complete \<noteq> snapshot_body kv"
  by (simp_all add: snapshot_body_def SnapshotReplicationCompleteEvent_def)

lemma order_inv_live:
  assumes "order_inv s" "ssSnapNil s' = ssSnapNil s" "ssSnapDone s' = ssSnapDone s" "ssSender s' = ssSender s"
    "ssOut s' = ssOut s @ map SseLive ls"
  shows "order_inv s'"
proof (cases "ssSnapDone s")
  case True
  then obtain pre post where "ssOut s' = pre @ sse_complete # (post @ map SseLive ls)" "sse_complete \<notin> set pre"
    "\<forall>e \<in> set (post @ map SseLive ls). \<exists>l. e = SseLive l"
    using assms(1,5) by (auto simp: order_inv_def)
  then have "\<exists>pre post. ssOut s' = pre @ sse_complete # post \<and> sse_complete \<notin> set pre
      \<and> (\<forall>e \<in> set post. \<exists>l. e = SseLive l)" by blast
  then show ?thesis using assms(1-4) True by (simp add: order_inv_def)
next
  case False
  then show ?thesis using assms by (auto simp: order_inv_def)
qed

lemma live_body_eq: "\<exists>l. live_body m = SseLive l"
  by (cases m) (simp add: live_body_def)

lemma order_inv_step:
  assumes "stream_step s s'" "order_inv s"
  shows "order_inv s'"
  using assms(1)
proof (cases rule: stream_step.cases)
  case (live_send xs m ys)
  obtain l where "live_body m = SseLive l" using live_body_eq by blast
  then show ?thesis using order_inv_live [OF assms(2), of s' "[l]"] by (simp add: live_send(1))
next
  case recv_live_closed
  then show ?thesis
    using order_inv_live [OF assms(2), of s' "[]"]
      order_inv_live [OF assms(2), of s' "[LiveMutationReplicationCompleteEvent]"]
    by (cases "ssLiveDone s") simp_all
next
  case recv_snap_closed
  then have "\<not> ssSnapDone s" using assms(2) by (simp add: order_inv_def)
  then have "ssOut s' = ssOut s @ sse_complete # []" "sse_complete \<notin> set (ssOut s)"
    using assms(2) by (simp_all add: recv_snap_closed(1) order_inv_def)
  then have "\<exists>pre post. ssOut s' = pre @ sse_complete # post \<and> sse_complete \<notin> set pre
      \<and> (\<forall>e \<in> set post. \<exists>l. e = SseLive l)"
    by (intro exI [of _ "ssOut s"] exI [of _ "[]"]) simp
  then show ?thesis using recv_snap_closed(2) by (simp add: order_inv_def recv_snap_closed(1))
next
  case (hook_call xs m ys)
  then show ?thesis using order_inv_live [OF assms(2), of s' "[]"]
    by (simp add: call_hook_def split: option.splits hook.splits)
next
  case (tick g)
  then show ?thesis using order_inv_live [OF assms(2), of s' "[]"] by (simp add: close_live_def)
next
  case tick_reset
  then show ?thesis using order_inv_live [OF assms(2), of s' "[]"]
    by (simp add: call_reset_def split: reset_fn.splits)
qed (use assms(2) in \<open>auto simp: order_inv_def split: if_splits\<close>)

lemma order_inv_steps: "stream_steps s s' \<Longrightarrow> order_inv s \<Longrightarrow> order_inv s'"
  by (induction rule: stream_steps.induct) (auto intro: order_inv_step)

lemma order_inv_init: "order_inv (stream_init sid d t)"
  by (simp add: order_inv_def stream_init_def)

text \<open>What the sender still has to send, and what it has sent of a given list.\<close>

definition sent_of :: "(string \<times> StoreEntry list) list \<Rightarrow> stream \<Rightarrow> bool" where
  "sent_of kvs s \<longleftrightarrow>
     (\<exists>sent rest. kvs = sent @ rest \<and> snapshot_body ` set sent \<subseteq> set (ssOut s)
        \<and> (ssSender s = SnapSending rest \<or> rest = [] \<and> ssSender s = SnapClosed))"

lemma sent_of_step:
  assumes "stream_step s s'" "sent_of kvs s"
  shows "sent_of kvs s'"
proof -
  obtain sent rest where k: "kvs = sent @ rest" "snapshot_body ` set sent \<subseteq> set (ssOut s)"
    "ssSender s = SnapSending rest \<or> rest = [] \<and> ssSender s = SnapClosed"
    using assms(2) by (auto simp: sent_of_def)
  have out: "set (ssOut s) \<subseteq> set (ssOut s')"
    using forward_step [OF assms(1)] by (simp add: forward_def set_mono_prefix)
  show ?thesis
  proof (cases "ssSender s' = ssSender s")
    case True
    then show ?thesis using k out unfolding sent_of_def by (intro exI [of _ sent] exI [of _ rest]) auto
  next
    case False
    from assms(1) False k(3) consider
        kv rest' where "rest = kv # rest'" "ssSender s' = SnapSending rest'" "ssOut s' = ssOut s @ [snapshot_body kv]"
      | "rest = []" "ssSender s' = SnapClosed"
      by (cases rule: stream_step.cases) auto
    then show ?thesis
    proof cases
      case 1
      then show ?thesis using k(1,2) unfolding sent_of_def
        by (intro exI [of _ "sent @ [kv]"] exI [of _ rest']) auto
    next
      case 2
      then show ?thesis using k(1,2) out unfolding sent_of_def by (intro exI [of _ sent] exI [of _ "[]"]) auto
    qed
  qed
qed

lemma sent_of_steps: "stream_steps s s' \<Longrightarrow> sent_of kvs s \<Longrightarrow> sent_of kvs s'"
  by (induction rule: stream_steps.induct) (auto intro: sent_of_step)

end
