(* ===== verification/Bootstrap_Props.thy ===== *)
theory Bootstrap_Props
  imports Snapshot_Stream Data_Props
begin

section \<open>Properties of bootstrapping\<close>

text \<open>
  Both ends of a bootstrap. The sending side: no write is lost between the snapshot and the live path,
  and the end marker comes after the whole snapshot. The receiving side: a snapshot replayed on a new
  node reproduces the histories of the owner. And four ways in which it goes wrong: a client that
  disconnects early blocks the writers, a request from an unknown node makes the ticker call a \<open>nil\<close>
  function, a write that meets the end of the live path panics (what its client sees is the matter of
  \<open>write_meets_stream\<close> in \<open>Server_Props\<close>), and a live write that overtakes the snapshot of its key is
  lost.
\<close>

subsection \<open>The sending side\<close>

text \<open>
  C8. No write is lost while a bootstrap runs: from the moment the snapshot has been copied until the
  live channel is closed, in every state the interleaving of the handler, the goroutines, the writers
  and other requests can reach in which the stream's hook is still installed, every version of every
  key up to the new node's range end is in the snapshot (sent or to be sent) or on the live path
  (sent, in the channel, or on its way to the hook). So when nothing is waiting, all of them have been
  written to the stream. The hook stays installed unless another request replaces or resets it: a
  second snapshot stream, or \<open>GET /v1/snapshot\<close>.
\<close>

theorem bootstrap_loses_no_write:
  assumes "store_wf d" "\<not> hooked d" "stream_steps (stream_init sid d t) s"
    and "ssReset s = ResetStore" "\<not> ssLiveClosed s" "hooked (ssStore s)"
    and "key_filter (ssLimit s) k" "e \<in> set (history (ssStore s) k)"
  shows "in_transit s k e
    \<and> (to_send s = [] \<and> ssInflight s = [] \<and> ssPending s = [] \<longrightarrow>
         live_body (k, eValue e, eVersion e) \<in> set (ssOut s)
         \<or> (\<exists>vs. snapshot_body (k, vs) \<in> set (ssOut s) \<and> e \<in> set vs))"
proof -
  have "stream_inv s" by (rule stream_inv_steps [OF assms(3) stream_inv_init [OF assms(1,2)]])
  then have "in_transit s k e" using assms(4-8) by (simp add: stream_inv_def)
  then show ?thesis by (auto simp: in_transit_def)
qed

definition sample_store :: "hook DataStore" where
  "sample_store =
     \<lparr>dsStore = [(''k'', [\<lparr>eValue = JStr ''old'', eVersion = 1, eIsReplica = False\<rparr>])], dsHook = None\<rparr>"

definition sample_new_node :: "NodeState \<Rightarrow> NodeGossip" where
  "sample_new_node st =
     \<lparr>gId = ''n2'', gHost = ''h2'', gEndOfKeyRange = TOTAL_SLOTS, gLastUpdate = 1, gState = st,
      gReplicaCount = 2\<rparr>"

definition sample_gossip :: "NodeState \<Rightarrow> table" where
  "sample_gossip st = Upsert NewGossip ''n2'' (sample_new_node st)"

lemma sample_store_facts:
  "store_wf sample_store" "\<not> hooked sample_store" "Size sample_store \<noteq> 0"
  by (simp_all add: sample_store_def store_wf_def entries_wf_def Size_def hooked_def)

text \<open>The first steps of a bootstrap of the sample store: the hook is installed, the snapshot taken.\<close>

definition sample_copied :: stream where
  "sample_copied = (stream_init ''n2'' sample_store (sample_gossip BOOTSTRAPPING))
     \<lparr>ssLimit := TOTAL_SLOTS, ssReset := ResetStore,
      ssSender := SnapSending [(''k'', [\<lparr>eValue = JStr ''old'', eVersion = 1, eIsReplica = False\<rparr>])],
      ssStore := sample_store\<lparr>dsHook := Some (ThisStream TOTAL_SLOTS)\<rparr>\<rparr>"

lemma sample_copied_steps:
  "stream_steps (stream_init ''n2'' sample_store (sample_gossip BOOTSTRAPPING)) sample_copied"
proof -
  let ?s0 = "stream_init ''n2'' sample_store (sample_gossip BOOTSTRAPPING)"
  let ?s1 = "?s0\<lparr>ssLimit := TOTAL_SLOTS, ssSender := SnapHooked,
    ssStore := sample_store\<lparr>dsHook := Some (ThisStream TOTAL_SLOTS)\<rparr>\<rparr>"
  have g: "Gossip_Get (ssTable ?s0) (ssSourceId ?s0) = Some (sample_new_node BOOTSTRAPPING)"
    by (simp add: stream_init_def sample_gossip_def)
  have "Size (ssStore ?s0) \<noteq> 0" using sample_store_facts(3) by (simp add: stream_init_def)
  from snap_hook [OF _ this g] have 1: "stream_step ?s0 ?s1"
    by (simp add: stream_init_def sample_new_node_def WithPostWriteHook_def)
  have k: "key_filter TOTAL_SLOTS ''k''" by (simp add: key_filter_def TOTAL_SLOTS_max)
  have "Snapshot_copy [] (key_filter TOTAL_SLOTS) (sample_store\<lparr>dsHook := Some (ThisStream TOTAL_SLOTS)\<rparr>)
      = [(''k'', [\<lparr>eValue = JStr ''old'', eVersion = 1, eIsReplica = False\<rparr>])]"
    by (simp add: Snapshot_copy_def sample_store_def k)
  then have "stream_step ?s1 sample_copied"
    using snap_copy [of ?s1 "[]" "[]"] by (simp add: sample_copied_def stream_init_def)
  from stream_next [OF stream_next [OF stream_refl 1] this] show ?thesis .
qed

lemma bootstrap_loses_no_write_witness:
  "in_transit sample_copied ''k'' \<lparr>eValue = JStr ''old'', eVersion = 1, eIsReplica = False\<rparr>"
proof -
  have "\<not> ssLiveClosed sample_copied" "ssReset sample_copied = ResetStore" "hooked (ssStore sample_copied)"
    "key_filter (ssLimit sample_copied) ''k''"
    "\<lparr>eValue = JStr ''old'', eVersion = 1, eIsReplica = False\<rparr> \<in> set (history (ssStore sample_copied) ''k'')"
    by (simp_all add: sample_copied_def stream_init_def key_filter_def TOTAL_SLOTS_max sample_store_def history_def
        hooked_def)
  from bootstrap_loses_no_write [OF sample_store_facts(1,2) sample_copied_steps this(2,1,3,4,5)]
  show ?thesis by blast
qed

text \<open>
  C32. The end marker means what it says: once the snapshot has been copied (\<open>kvs\<close>), if the marker has
  been written to the stream, then it was written once, after every key of the snapshot with all its
  versions, and only live writes and their own end marker come after it.
\<close>

theorem complete_event_ends_snapshot:
  assumes "stream_steps (stream_init sid d t) s0" "ssSender s0 = SnapSending kvs"
    and "stream_steps s0 s" "sse_complete \<in> set (ssOut s)"
  shows "\<exists>pre post. ssOut s = pre @ sse_complete # post \<and> sse_complete \<notin> set pre
    \<and> snapshot_body ` set kvs \<subseteq> set pre \<and> (\<forall>e \<in> set post. \<exists>l. e = SseLive l)"
proof -
  have "order_inv s"
    by (rule order_inv_steps [OF stream_steps_trans [OF assms(3,1)] order_inv_init])
  then obtain pre post where out: "ssOut s = pre @ sse_complete # post" "sse_complete \<notin> set pre"
      "\<forall>e \<in> set post. \<exists>l. e = SseLive l" and closed: "ssSender s = SnapClosed"
    using assms(4) by (auto simp: order_inv_def split: if_splits)
  have "sent_of kvs s0" using assms(2) unfolding sent_of_def by (intro exI [of _ "[]"] exI [of _ kvs]) simp
  then have "sent_of kvs s" by (rule sent_of_steps [OF assms(3)])
  then have "snapshot_body ` set kvs \<subseteq> set (ssOut s)" using closed by (auto simp: sent_of_def)
  moreover have "snapshot_body kv \<notin> set post" for kv using out(3) by (auto simp: snapshot_body_def)
  ultimately have "snapshot_body ` set kvs \<subseteq> set pre" by (auto simp: out(1))
  then show ?thesis using out by blast
qed

text \<open>The sample bootstrap up to its end marker.\<close>

definition sample_completed :: stream where
  "sample_completed = sample_copied
     \<lparr>ssSender := SnapClosed, ssSnapNil := True, ssSnapDone := True,
      ssOut := [snapshot_body (''k'', [\<lparr>eValue = JStr ''old'', eVersion = 1, eIsReplica = False\<rparr>]), sse_complete]\<rparr>"

lemma sample_completed_steps: "stream_steps sample_copied sample_completed"
proof -
  let ?kv = "(''k'', [\<lparr>eValue = JStr ''old'', eVersion = 1, eIsReplica = False\<rparr>])"
  let ?s1 = "sample_copied\<lparr>ssSender := SnapSending [], ssOut := [snapshot_body ?kv]\<rparr>"
  let ?s2 = "?s1\<lparr>ssSender := SnapClosed\<rparr>"
  have 1: "stream_step sample_copied ?s1"
    using snap_send [of sample_copied ?kv "[]"] by (simp add: sample_copied_def stream_init_def)
  have 2: "stream_step ?s1 ?s2" by (rule snap_close) simp
  have "stream_step ?s2 sample_completed"
    using recv_snap_closed [of ?s2] by (simp add: sample_completed_def sample_copied_def stream_init_def)
  from stream_next [OF stream_next [OF stream_next [OF stream_refl 1] 2] this] show ?thesis .
qed

lemma complete_event_ends_snapshot_witness:
  "\<exists>pre post. ssOut sample_completed = pre @ sse_complete # post
    \<and> snapshot_body (''k'', [\<lparr>eValue = JStr ''old'', eVersion = 1, eIsReplica = False\<rparr>]) \<in> set pre"
proof -
  have "ssSender sample_copied = SnapSending [(''k'', [\<lparr>eValue = JStr ''old'', eVersion = 1, eIsReplica = False\<rparr>])]"
    "sse_complete \<in> set (ssOut sample_completed)"
    by (simp_all add: sample_copied_def sample_completed_def)
  from complete_event_ends_snapshot [OF sample_copied_steps this(1) sample_completed_steps this(2)]
  show ?thesis by auto
qed

text \<open>A stream whose client has gone before the completion flag was set.\<close>

definition abandoned :: "stream \<Rightarrow> bool" where
  "abandoned s \<longleftrightarrow> stream_inv s \<and> \<not> ssOpen s \<and> \<not> ssSnapDone s \<and> ssSender s \<noteq> SnapStart"

lemma abandonedD:
  assumes "abandoned s"
  shows "stream_inv s" "store_wf (ssStore s)" "\<not> ssOpen s" "\<not> ssSnapDone s" "\<not> ssLiveClosed s"
    "ssTicker s = TkRunning" "hooked (ssStore s) \<Longrightarrow> dsHook (ssStore s) = Some (ThisStream (ssLimit s))"
  using assms by (auto simp: abandoned_def stream_inv_def)

lemma call_hook_prefix: "prefix (ssPending s) (ssPending (call_hook s m))"
  by (simp add: call_hook_def split: option.splits hook.splits)

lemma abandoned_step:
  assumes "stream_step s s'" "abandoned s"
  shows "abandoned s'" "ssOut s' = ssOut s" "prefix (ssPending s) (ssPending s')"
    "dsHook (ssStore s') = dsHook (ssStore s) \<or> ssStore s' = WithPostWriteHook OtherStream (ssStore s)
      \<or> ssStore s' = resetPostWriteHook (ssStore s)"
proof -
  note s = abandonedD [OF assms(2)]
  have start: "ssSender s \<noteq> SnapStart" using assms(2) by (simp add: abandoned_def)
  have *: "\<not> ssOpen s' \<and> \<not> ssSnapDone s' \<and> ssSender s' \<noteq> SnapStart \<and> ssOut s' = ssOut s
    \<and> prefix (ssPending s) (ssPending s')
    \<and> (dsHook (ssStore s') = dsHook (ssStore s) \<or> ssStore s' = WithPostWriteHook OtherStream (ssStore s)
      \<or> ssStore s' = resetPostWriteHook (ssStore s))"
    using assms(1)
  proof (cases rule: stream_step.cases)
    case (store_write c key val version isReplica d n hook)
    then show ?thesis using s start PutRaw_locked_Ret(2) [OF s(2)] by simp
  next
    case (hook_call xs m ys)
    then show ?thesis using s start call_hook_prefix [of "s\<lparr>ssInflight := xs @ ys\<rparr>" m] by simp
  qed (use s start in \<open>auto simp: WithPostWriteHook_def\<close>)
  then show "ssOut s' = ssOut s" "prefix (ssPending s) (ssPending s')"
    "dsHook (ssStore s') = dsHook (ssStore s) \<or> ssStore s' = WithPostWriteHook OtherStream (ssStore s)
      \<or> ssStore s' = resetPostWriteHook (ssStore s)" by blast+
  have "stream_inv s'" using stream_inv_step [OF assms(1)] assms(2) by (simp add: abandoned_def)
  with * show "abandoned s'" by (simp add: abandoned_def)
qed

lemma abandoned_steps:
  "stream_steps s s' \<Longrightarrow> abandoned s \<Longrightarrow>
   abandoned s' \<and> ssOut s' = ssOut s \<and> prefix (ssPending s) (ssPending s')"
proof (induction rule: stream_steps.induct)
  case (stream_next s1 s2)
  then have 1: "abandoned s1" "ssOut s1 = ssOut s" "prefix (ssPending s) (ssPending s1)" by simp_all
  show ?case using abandoned_step(1-3) [OF stream_next.hyps(2) 1(1)] 1(2,3) prefix_order.trans by metis
qed simp

text \<open>The next write of a key in the range: it is stored, its hook call blocks, and stays blocked.\<close>

lemma abandoned_write_blocks:
  assumes "abandoned s" "hooked (ssStore s)" "key_filter (ssLimit s) key"
  shows "\<exists>d n. PutRaw_locked c (ssStore s) key val version r = Ret (d, n, dsHook (ssStore s))
    \<and> stream_steps s (call_hook (s\<lparr>ssStore := d\<rparr>) (key, val, n))
    \<and> (\<forall>s'. stream_steps (call_hook (s\<lparr>ssStore := d\<rparr>) (key, val, n)) s' \<longrightarrow> (key, val, n) \<in> set (ssPending s'))"
proof -
  note a = abandonedD [OF assms(1)]
  let ?d = "written c (ssStore s) key val version r" and ?n = "next_version (ssStore s) key version"
  let ?m = "(key, val, ?n)" and ?s = "s\<lparr>ssStore := ?d\<rparr>"
  note P = PutRaw_locked_eq [OF a(2), of c key val version r]
  have h: "dsHook (ssStore s) = Some (ThisStream (ssLimit s))" by (rule a(7) [OF assms(2)])
  have 1: "stream_step s (?s\<lparr>ssInflight := ssInflight s @ [?m]\<rparr>)"
    using store_write [OF P] h by simp
  have "stream_step (?s\<lparr>ssInflight := ssInflight s @ [?m]\<rparr>) (call_hook (?s\<lparr>ssInflight := ssInflight s @ []\<rparr>) ?m)"
    using hook_call [of "?s\<lparr>ssInflight := ssInflight s @ [?m]\<rparr>" "ssInflight s" ?m "[]"] by simp
  then have run: "stream_steps s (call_hook ?s ?m)"
    using stream_next [OF stream_next [OF stream_refl 1]] by simp
  have "?m \<in> set (ssPending (call_hook ?s ?m))"
    using assms(3) a(5) h by (simp add: call_hook_def)
  moreover have "abandoned (call_hook ?s ?m)" using abandoned_steps [OF run assms(1)] by blast
  ultimately have "?m \<in> set (ssPending s')" if "stream_steps (call_hook ?s ?m) s'" for s'
    using abandoned_steps [OF that] set_mono_prefix by blast
  then show ?thesis using P run by blast
qed

text \<open>
  C33. A client that disconnects after the stream's hook was installed and before the end of the
  snapshot blocks the writers for good. From then on, whatever happens, the completion flag stays
  unset, the ticker goes on waiting, so it neither closes the channel nor resets the hook, and nothing
  more is sent; a writer that is blocked on the channel is never released; and as long as the hook is
  the stream's, every write of a key in the range is stored and then blocks in its hook call, in every
  later state. The hook goes away only if another request replaces or resets it, which releases none
  of the writers that are blocked.
\<close>

theorem early_disconnect_blocks_writers:
  assumes "store_wf d" "\<not> hooked d" "stream_steps (stream_init sid d t) s"
    and "hooked (ssStore s)" "\<not> ssOpen s" "\<not> ssSnapDone s" "stream_steps s s1"
  shows "\<not> ssSnapDone s1 \<and> ssTicker s1 = TkRunning \<and> ssOut s1 = ssOut s \<and> prefix (ssPending s) (ssPending s1)
    \<and> (\<forall>s2. stream_step s1 s2 \<longrightarrow>
          dsHook (ssStore s2) = dsHook (ssStore s1) \<or> ssStore s2 = WithPostWriteHook OtherStream (ssStore s1)
          \<or> ssStore s2 = resetPostWriteHook (ssStore s1))
    \<and> (hooked (ssStore s1) \<longrightarrow> (\<forall>c key val version r. key_filter (ssLimit s1) key \<longrightarrow>
          (\<exists>d' n. PutRaw_locked c (ssStore s1) key val version r = Ret (d', n, dsHook (ssStore s1))
            \<and> stream_steps s1 (call_hook (s1\<lparr>ssStore := d'\<rparr>) (key, val, n))
            \<and> (\<forall>s2. stream_steps (call_hook (s1\<lparr>ssStore := d'\<rparr>) (key, val, n)) s2 \<longrightarrow>
                  (key, val, n) \<in> set (ssPending s2)))))"
proof -
  have "stream_inv s" by (rule stream_inv_steps [OF assms(3) stream_inv_init [OF assms(1,2)]])
  then have "abandoned s" using assms(4-6) by (simp add: abandoned_def stream_inv_def)
  note A = abandoned_steps [OF assms(7) this]
  then have s1: "abandoned s1" by blast
  show ?thesis
    using A abandonedD(4,6) [OF s1] abandoned_step(4) [OF _ s1] abandoned_write_blocks [OF s1] by blast
qed

lemma early_disconnect_blocks_writers_witness:
  "\<exists>d n. PutRaw_locked [] (ssStore sample_copied) ''k'' (JStr ''new'') None False = Ret (d, n, Some (ThisStream TOTAL_SLOTS))
    \<and> (\<forall>s. stream_steps (call_hook (sample_copied\<lparr>ssOpen := False, ssStore := d\<rparr>) (''k'', JStr ''new'', n)) s
          \<longrightarrow> (''k'', JStr ''new'', n) \<in> set (ssPending s))"
proof -
  let ?s = "sample_copied\<lparr>ssOpen := False\<rparr>"
  have "ssOpen sample_copied" by (simp add: sample_copied_def stream_init_def)
  from stream_next [OF sample_copied_steps disconnect [OF this]]
  have 1: "stream_steps (stream_init ''n2'' sample_store (sample_gossip BOOTSTRAPPING)) ?s" .
  have 2: "hooked (ssStore ?s)" "\<not> ssOpen ?s" "\<not> ssSnapDone ?s" "dsHook (ssStore ?s) = Some (ThisStream TOTAL_SLOTS)"
    "key_filter (ssLimit ?s) ''k''"
    by (simp_all add: sample_copied_def stream_init_def key_filter_def TOTAL_SLOTS_max)
  from early_disconnect_blocks_writers [OF sample_store_facts(1,2) 1 2(1-3) stream_refl] 2(1,5)
  have "\<exists>d n. PutRaw_locked [] (ssStore ?s) ''k'' (JStr ''new'') None False = Ret (d, n, dsHook (ssStore ?s))
    \<and> (\<forall>s. stream_steps (call_hook (?s\<lparr>ssStore := d\<rparr>) (''k'', JStr ''new'', n)) s
          \<longrightarrow> (''k'', JStr ''new'', n) \<in> set (ssPending s))" by blast
  then show ?thesis using 2(4) by simp
qed

text \<open>
  A request from a node the owner does not know yet, on a store that is not empty, ends in a call of
  a \<open>nil\<close> function: no hook is installed, the snapshot is reported complete, and when gossip later
  says the node is available, the ticker calls the reset function that was never set.
\<close>

theorem unknown_node_panics:
  assumes "Size d \<noteq> 0" "Gossip_Get t sid = None"
  shows "\<exists>s. stream_steps (stream_init sid d t) s \<and> ssPanic s = Some NilFunctionCall
    \<and> dsHook (ssStore s) = dsHook d"
proof -
  let ?g = "(sample_new_node AVAILABLE)"
  let ?s0 = "stream_init sid d t"
  let ?s1 = "?s0\<lparr>ssSender := SnapClosed\<rparr>"
  let ?s2 = "?s1\<lparr>ssSnapNil := True, ssSnapDone := True, ssOut := [SseSnapshot SnapshotReplicationCompleteEvent]\<rparr>"
  let ?s3 = "?s2\<lparr>ssTable := Upsert t sid ?g\<rparr>"
  have 1: "stream_step ?s0 ?s1" using assms by (intro snap_unknown) (simp_all add: stream_init_def)
  have 2: "stream_step ?s1 ?s2" using recv_snap_closed [of ?s1] by (simp add: stream_init_def)
  have 3: "stream_step ?s2 ?s3" by (rule gossip_change)
  have 4: "stream_step ?s3 (close_live ?s3)"
    by (rule tick [of _ ?g]) (simp_all add: stream_init_def sample_new_node_def)
  let ?s4 = "close_live ?s3"
  have 5: "stream_step ?s4 (call_reset ?s4)" by (rule tick_reset) (simp add: close_live_def)
  have "ssPanic (call_reset ?s4) = Some NilFunctionCall" "dsHook (ssStore (call_reset ?s4)) = dsHook d"
    by (simp_all add: close_live_def call_reset_def stream_init_def)
  moreover have "stream_steps ?s0 (call_reset ?s4)"
    by (rule stream_next [OF stream_next [OF stream_next [OF stream_next [OF stream_next [OF stream_refl 1] 2] 3] 4] 5])
  ultimately show ?thesis by blast
qed


text \<open>
  The ticker closes the channel before it resets the hook. A write that reaches the hook in between
  sends on a closed channel, and the goroutine of the writer panics: in a handler gin recovers it, so the
  client gets an empty 500 for a value that is stored, and in a goroutine without recovery (a node that
  is itself replaying a bootstrap) the process ends.
\<close>

definition sample_closing :: stream where
  "sample_closing =
     (stream_init ''n2'' sample_store (sample_gossip AVAILABLE))
       \<lparr>ssLimit := TOTAL_SLOTS, ssSender := SnapClosed, ssReset := ResetStore, ssSnapNil := True,
        ssSnapDone := True, ssStore := sample_store\<lparr>dsHook := Some (ThisStream TOTAL_SLOTS)\<rparr>,
        ssInflight := [(''k'', JStr ''new'', 2)]\<rparr>"

theorem write_at_the_end_panics:
  "\<exists>s. stream_steps sample_closing s \<and> ssPanic sample_closing = None \<and> ssPanic s = Some SendOnClosedChannel"
proof -
  let ?s = "close_live sample_closing"
  have 1: "stream_step sample_closing ?s"
    by (rule tick [of _ "sample_new_node AVAILABLE"])
      (simp_all add: sample_closing_def stream_init_def sample_gossip_def sample_new_node_def)
  have 2: "stream_step ?s (call_hook (?s\<lparr>ssInflight := [] @ []\<rparr>) (''k'', JStr ''new'', 2))"
    by (rule hook_call) (simp add: close_live_def sample_closing_def)
  have "ssPanic (call_hook (?s\<lparr>ssInflight := [] @ []\<rparr>) (''k'', JStr ''new'', 2)) = Some SendOnClosedChannel"
    by (simp add: call_hook_def close_live_def sample_closing_def stream_init_def key_filter_def TOTAL_SLOTS_max)
  moreover have "ssPanic sample_closing = None" by (simp add: sample_closing_def stream_init_def)
  ultimately show ?thesis using stream_next [OF stream_next [OF stream_refl 1] 2] by blast
qed

subsection \<open>The receiving side\<close>

lemma replayable_owner_history:
  assumes "length vs < 2 ^ 64" "vs \<noteq> []"
  shows "replayable (owner_history vs)"
proof -
  have "eVersion (hd (owner_history vs)) = 1"
    using assms(2) by (cases vs) (simp_all add: owner_history_def)
  moreover have "\<forall>e \<in> set (owner_history vs). \<not> eIsReplica e"
    by (auto simp: owner_history_def)
  ultimately show ?thesis
    using owner_history_strict [OF assms(1)] assms(2) by (simp add: replayable_def)
qed

lemma replay_snapshot:
  fixes p :: "'h Process"
  assumes snap: "\<And>k vs. (k, vs) \<in> set snap \<Longrightarrow> replayable vs" "distinct (map fst snap)"
    and fresh: "store_wf (pStore p)" "\<And>k. history (pStore p) k = []"
  shows "\<exists>p' calls. apply_events p (zip (css @ replicate (length snap + 1) []) (snapshot_events snap @ [complete_event]))
      = Ret (p', calls) \<and> pNode p' = (pNode p)\<lparr>nState := AVAILABLE\<rparr> \<and> store_wf (pStore p')
    \<and> (\<forall>k. history (pStore p') k = (case map_of snap k of Some vs \<Rightarrow> vs | None \<Rightarrow> []))"
proof -
  let ?cs = "css @ replicate (length snap + 1) []"
  have l: "length (snapshot_events snap) = length snap" by (simp add: snapshot_events_def)
  obtain c1 c where split: "drop (length snap) ?cs = c1 # c" by (cases "drop (length snap) ?cs") auto
  have "\<forall>(k, vs) \<in> set snap. replayable vs \<and> history (pStore p) k = []" using snap(1) fresh(2) by auto
  moreover have "length (take (length snap) ?cs) = length snap" by simp
  ultimately obtain p1 calls where
    1: "apply_events p (zip (take (length snap) ?cs) (snapshot_events snap)) = Ret (p1, calls)"
      "pNode p1 = pNode p" "store_wf (pStore p1)"
      "\<forall>k. history (pStore p1) k = (case map_of snap k of Some vs \<Rightarrow> vs | None \<Rightarrow> history (pStore p) k)"
    using apply_snapshot_events [OF fresh(1) snap(2)] by blast
  have "zip ?cs (snapshot_events snap @ [complete_event])
      = zip (take (length snap) ?cs) (snapshot_events snap) @ [(c1, complete_event)]"
    unfolding zip_append2 l split by simp
  moreover have "history (pStore p1) k = (case map_of snap k of Some vs \<Rightarrow> vs | None \<Rightarrow> [])" for k
    using 1(4) fresh(2) by (simp split: option.split)
  ultimately show ?thesis using 1(1-3)
    by (simp add: apply_events_append apply_event_def complete_event_def SnapshotReplicationCompleteEvent_def)
qed

text \<open>
  C9. A bootstrap copies the owner: when a node with an empty store asks the owner that has served
  the writes \<open>ws\<close>, and the answer is the stream of the owner's snapshot for the new node's range in
  any map order followed by the end marker, then \<open>handleBootstrapping\<close> never panics, makes the node
  available, and leaves for every key in the range exactly the owner's history (all versions, in
  order, none marked a replica), and nothing for the other keys.
\<close>

theorem bootstrap_copies_owner:
  fixes p :: "'h Process"
  assumes "length ws < 2 ^ 64" "run_writes Put (NewDataStore :: 'g DataStore) ws = Ret owner"
    and "store_wf (pStore p)" "\<And>k. history (pStore p) k = []"
    and "bootstrap_source ch (pNode p) = Inr source" "resp source = Inr lines"
    and "stream_events dc lines
      = snapshot_events (permute c' (Snapshot_copy c (key_filter limit) owner)) @ [complete_event]"
  shows "\<exists>p' calls. handleBootstrapping dc ch css p resp
      = Ret (p', [RequestSnapshot_url (gHost source) (nId (pNode p))], calls)
    \<and> nState (pNode p') = AVAILABLE
    \<and> (\<forall>k. history (pStore p') k = (if key_filter limit k then owner_history (writes_to k ws) else []))"
proof -
  let ?copy = "Snapshot_copy c (key_filter limit) owner"
  let ?snap = "permute c' ?copy"
  have owner: "store_wf owner" "\<And>k. history owner k = owner_history (writes_to k ws)"
    using run_Puts_history [OF assms(1), where ?'h = 'g] assms(2) by auto
  have mem: "(k, vs) \<in> set ?snap \<longleftrightarrow> key_filter limit k \<and> vs \<noteq> [] \<and> history owner k = vs" for k vs
    by (simp add: set_Snapshot_copy [OF owner(1)])
  have "replayable vs" if "(k, vs) \<in> set ?snap" for k vs
  proof -
    have "vs \<noteq> []" "vs = owner_history (writes_to k ws)" using that unfolding mem by (simp_all add: owner(2))
    then show ?thesis
      using replayable_owner_history [of "writes_to k ws"] length_writes_to [of k ws] assms(1) by simp
  qed
  moreover have d: "distinct (map fst ?snap)"
    by (metis distinct_Snapshot_copy mset_map mset_permute mset_eq_imp_distinct_iff)
  ultimately obtain p' calls where
    p': "apply_events p (zip (css @ replicate (length ?snap + 1) []) (snapshot_events ?snap @ [complete_event]))
        = Ret (p', calls)" "pNode p' = (pNode p)\<lparr>nState := AVAILABLE\<rparr>"
      "\<forall>k. history (pStore p') k = (case map_of ?snap k of Some vs \<Rightarrow> vs | None \<Rightarrow> [])"
    using replay_snapshot [where snap = ?snap and p = p and css = css] assms(3,4) by blast
  have "history (pStore p') k = (if key_filter limit k then owner_history (writes_to k ws) else [])" for k
  proof (cases "map_of ?snap k")
    case None
    then have "\<not> (key_filter limit k \<and> history owner k \<noteq> [])"
      using mem [of k "history owner k"] by (auto simp: map_of_eq_None_iff image_iff)
    then show ?thesis using p'(3) None by (auto simp: owner(2))
  next
    case (Some vs)
    then show ?thesis using p'(3) mem [of k vs] map_of_SomeD [OF Some] by (simp add: owner(2))
  qed
  moreover have "length (snapshot_events ?snap @ [complete_event]) = length ?snap + 1"
    by (simp add: snapshot_events_def)
  ultimately show ?thesis
    using p'(1,2) assms(5,6,7) by (simp add: handleBootstrapping_def RequestSnapshot_def Let_def)
qed


definition sample_new_process :: "nat Process" where
  "sample_new_process =
     \<lparr>pNode = (sample_node BOOTSTRAPPING)\<lparr>nId := ''n2'', nEndOfKeyRange := 10,
        nGossip := Upsert NewGossip ''n1'' (sample_owner 1)\<rparr>,
      pStore = NewDataStore, pReplicaCount = 1\<rparr>"

definition sample_writes :: "client_write list" where
  "sample_writes = [([], ''k'', JStr ''a''), ([], ''k'', JStr ''b'')]"

definition sample_decoder :: decoder where
  "sample_decoder =
     \<lparr>dcHeader = (\<lambda>l. Some (if l = ''end'' then SnapshotReplicationCompleteEType else SnapshotReplicationEType)),
      dcLive = (\<lambda>l. None),
      dcSnapshot = (\<lambda>l. Some (if l = ''end'' then SnapshotReplicationCompleteEvent
        else \<lparr>srEtype = SnapshotReplicationEType, srKey = ''k'',
              srValues = owner_history [JStr ''a'', JStr ''b'']\<rparr>))\<rparr>"

lemma sample_bootstrap_source: "bootstrap_source no_choices (pNode sample_new_process) = Inr (sample_owner 1)"
proof -
  have "gState (sample_owner 1) = AVAILABLE \<and> 11 \<le> gEndOfKeyRange (sample_owner 1)"
    by (simp add: sample_owner_def TOTAL_SLOTS_max)
  then show ?thesis
    by (simp add: bootstrap_source_def sample_new_process_def MapToArr_eq Gossip_Read_def
        Gossip_Upsert_def NewGossip_def Let_def no_choices_def sample_owner_def)
qed

lemma distinct_set_single: "distinct xs \<Longrightarrow> set xs = {x} \<Longrightarrow> xs = [x]"
proof (cases xs)
  case (Cons y ys)
  assume "distinct xs" "set xs = {x}"
  then show ?thesis using Cons by (cases ys) auto
qed simp

lemma bootstrap_copies_owner_witness:
  "\<exists>p' calls. handleBootstrapping sample_decoder no_choices [] sample_new_process
      (\<lambda>g. Inr [''data:values'', ''event:message'', ''data:end''])
      = Ret (p', [RequestSnapshot_url ''h1'' ''n2''], calls)
    \<and> nState (pNode p') = AVAILABLE \<and> history (pStore p') ''k'' = owner_history [JStr ''a'', JStr ''b'']"
proof -
  let ?lines = "[''data:values'', ''event:message'', ''data:end'']"
  have l: "length sample_writes < 2 ^ 64" by (simp add: sample_writes_def)
  from run_Puts_history [OF l, where ?'h = nat] obtain owner :: "nat DataStore" where
    o: "run_writes Put NewDataStore sample_writes = Ret owner" "store_wf owner"
      "\<And>k. history owner k = owner_history (writes_to k sample_writes)" by auto
  let ?snap = "Snapshot_copy [] (key_filter TOTAL_SLOTS) owner"
  have f: "key_filter TOTAL_SLOTS k" for k by (simp add: key_filter_def TOTAL_SLOTS_max)
  have "(k, es) \<in> set ?snap \<longleftrightarrow> (k, es) = (''k'', owner_history [JStr ''a'', JStr ''b''])" for k es
    by (auto simp: set_Snapshot_copy [OF o(2)] o(3) sample_writes_def f)
  then have "set ?snap = {(''k'', owner_history [JStr ''a'', JStr ''b''])}" by auto
  moreover have "distinct ?snap" using distinct_Snapshot_copy [of "[]" "key_filter TOTAL_SLOTS" owner] by (simp add: distinct_map)
  ultimately have snap: "permute [] ?snap = [(''k'', owner_history [JStr ''a'', JStr ''b''])]"
    by (simp add: distinct_set_single)
  have ev: "stream_events sample_decoder ?lines = snapshot_events (permute [] ?snap) @ [complete_event]"
    unfolding snap
    by (simp add: line_event_def data_prefix_def sample_decoder_def snapshot_events_def complete_event_def
        SnapshotReplicationCompleteEvent_def)
  have p: "store_wf (pStore sample_new_process)" "\<And>k. history (pStore sample_new_process) k = []"
    by (simp_all add: sample_new_process_def)
  from bootstrap_copies_owner [OF l o(1) p sample_bootstrap_source, where resp = "\<lambda>g. Inr ?lines"
      and lines = ?lines and css = "[]", OF refl ev]
  show ?thesis
    by (auto simp: f sample_writes_def sample_owner_def sample_new_process_def)
qed

subsection \<open>A live write that overtakes the snapshot\<close>

lemma put_values_latest:
  assumes "store_wf d" "latest d key = Some (w, n)" "sorted_wrt (<) (n # map eVersion vs)"
  shows "\<exists>d' calls. put_values cs d key vs = Ret (d', calls)
    \<and> latest d' key = Some (if vs = [] then (w, n) else (eValue (last vs), eVersion (last vs)))"
  using assms
proof (induction vs arbitrary: cs d w n)
  case (Cons v vs)
  let ?d = "written (first_choice cs) d key (eValue v) (Some (eVersion v)) False"
  have n: "next_version d key (Some (eVersion v)) = eVersion v" using Cons.prems(2) by (simp add: next_version_def)
  have "latest ?d key = Some (eValue v, eVersion v)"
    using latest_written_above [OF Cons.prems(1)] Cons.prems(2,3) by (simp add: n)
  from Cons.IH [OF store_wf_written [OF Cons.prems(1)] this, of "tl cs"] Cons.prems(3)
  obtain d' calls where "put_values (tl cs) ?d key vs = Ret (d', calls)"
    "latest d' key = Some (if vs = [] then (eValue v, eVersion v) else (eValue (last vs), eVersion (last vs)))"
    by auto
  then show ?case by (simp add: PutRaw_eq [OF Cons.prems(1)] n)
qed simp

definition live_event :: "mutation \<Rightarrow> ReplicationStream" where
  "live_event m =
     (case m of (key, val, version) \<Rightarrow>
        \<lparr>rsEType = LiveMutationReplicationEType, rsSnapshot = zeroSnapshot,
         rsLive = \<lparr>lmEtype = LiveMutationReplicationEType, lmKey = key, lmValue = val, lmVersion = version\<rparr>\<rparr>)"

text \<open>
  C34. A live write that reaches the new node before the snapshot of its key is lost: it is stored as
  version 1 of the key, whatever its version, so when the owner's versions \<open>vs\<close> arrive (two or more)
  a read at the new node returns the older value.
\<close>

theorem live_write_before_snapshot_is_lost:
  assumes "store_wf (pStore p)" "history (pStore p) key = []" "2 \<le> length vs" "length vs < 2 ^ 64"
  shows "\<exists>p' calls. apply_events p [(cs, live_event (key, v, n)),
        (cs', hd (snapshot_events [(key, owner_history vs)]))] = Ret (p', calls)
    \<and> latest (pStore p') key = Some (last vs, of_nat (length vs))"
proof -
  let ?d = "pStore p"
  let ?d1 = "written (first_choice cs) ?d key v (Some n) False"
  let ?es = "owner_history vs"
  have n1: "next_version ?d key (Some n) = 1" using assms(2) by (simp add: next_version_def latest_def)
  have h1: "history ?d1 key = [\<lparr>eValue = v, eVersion = 1, eIsReplica = False\<rparr>]"
    by (simp add: history_written assms(2) new_entry_def n1 sort_slice_single)
  have wf1: "store_wf ?d1" by (rule store_wf_written [OF assms(1)])
  obtain e es where es: "?es = e # es" "es \<noteq> []"
    using assms(3) length_owner_history [of vs] by (cases ?es rule: list.exhaust; cases "tl ?es") auto
  have r: "replayable ?es" by (rule replayable_owner_history) (use assms(3,4) in auto)
  then have e: "eVersion e = 1" by (simp add: replayable_def es(1))
  let ?d2 = "written (first_choice cs') ?d1 key (eValue e) (Some 1) False"
  have n2: "next_version ?d1 key (Some 1) = 1" by (simp add: next_version_def latest_simps h1)
  have "eVersion x = 1" if "x \<in> set (history ?d2 key)" for x
    using that unfolding history_written [of _ ?d1] h1 by (auto simp: new_entry_def n2)
  moreover have "history ?d2 key \<noteq> []" by (simp add: history_written)
  ultimately obtain w where l2: "latest ?d2 key = Some (w, 1)"
    by (metis last_in_set latest_eq_Some)
  have wf2: "store_wf ?d2" by (rule store_wf_written [OF wf1])
  have "sorted_wrt (<) (map eVersion ?es)"
    using r by (simp add: replayable_def strict_sorted_iff)
  then have "sorted_wrt (<) (1 # map eVersion es)" using e by (simp add: es(1))
  from put_values_latest [OF wf2 l2 this, of "tl cs'"] obtain d' calls where
    d': "put_values (tl cs') ?d2 key es = Ret (d', calls)"
      "latest d' key = Some (eValue (last es), eVersion (last es))" using es(2) by auto
  have "last es = last ?es" using es by simp
  then have "latest d' key = Some (last vs, of_nat (length vs))"
    using d'(2) assms(3) by (cases vs rule: rev_cases) auto
  moreover have "\<exists>calls. put_values cs' ?d1 key ?es = Ret (d', calls)"
    using d'(1) by (simp add: es(1) e PutRaw_eq [OF wf1] n2)
  ultimately show ?thesis
    by (auto simp: apply_event_def live_event_def snapshot_events_def PutRaw_eq [OF assms(1)])
qed

lemma live_write_before_snapshot_is_lost_witness:
  "\<exists>p' calls. apply_events sample_new_process [([], live_event (''k'', JStr ''new'', 3)),
        ([], hd (snapshot_events [(''k'', owner_history [JStr ''a'', JStr ''b''])]))] = Ret (p', calls)
    \<and> latest (pStore p') ''k'' = Some (JStr ''b'', 2)"
  using live_write_before_snapshot_is_lost [where p = sample_new_process and key = "''k''"
      and vs = "[JStr ''a'', JStr ''b'']" and cs = "[]" and cs' = "[]" and v = "JStr ''new''" and n = 3]
  by (simp add: sample_new_process_def)

end
