(* ===== verification/Node_Start.thy ===== *)
theory Node_Start
  imports Node_Data
begin

section \<open>Starting a node: flags, seeds, NewNode\<close>

text \<open>
  The start of \<open>nodes/main.go\<close>: \<open>init\<close> turns the command-line flags into the globals, \<open>NewNode\<close> asks
  every seed node for its metadata (\<open>GetNodeMeta\<close>, answered by \<open>getMetaDataNode\<close>) and builds the
  node. \<open>os.Exit(1)\<close> is \<open>Inl 1\<close>, a failed type assertion a panic.

  The metadata travels as JSON. Printing and parsing of times are the parameters \<open>fmt\<close> and \<open>parse\<close>;
  a JSON number is decoded to a \<open>float64\<close>, which \<open>decode_any\<close> does to every number of the body:
  naturals below 2^64 are rounded to 53 bits, other numbers by the parameter \<open>fl\<close>.
\<close>

subsection \<open>Flags\<close>

record flags =
  fPort :: int
  fHost :: string
  fEndOfKeyRange :: string
  fSeedNodes :: string
  fReplicaCount :: string

record globals =
  GVar_PORT :: int
  GVar_Host :: string
  GVar_SeedNodes :: "string list"
  GVar_ReplicaCount :: int
  GVar_EndOfKeyRange :: u64

definition init_flags :: "flags \<Rightarrow> nat + globals" where
  "init_flags f =
     (if fHost f = [] then Inl 1
      else (let seeds = (if fSeedNodes f = [] then [] else Split (CHR '','') (fSeedNodes f));
                trimmed = Trim_spaces (fReplicaCount f)
            in if 0 < length seeds \<and> 0 < length trimmed then Inl 1
               else if length seeds = 0 \<and> length trimmed = 0 then Inl 1
               else (case (if length seeds = 0 then Atoi (fReplicaCount f) else Inr 0) of
                       Inl err \<Rightarrow> Inl 1
                     | Inr iVal \<Rightarrow>
                         if fEndOfKeyRange f = [] then Inl 1
                         else (case StrToUInt64 (fEndOfKeyRange f) of
                                 Inl err \<Rightarrow> Inl 1
                               | Inr endOfKeyRange \<Rightarrow>
                                   Inr \<lparr>GVar_PORT = fPort f, GVar_Host = fHost f, GVar_SeedNodes = seeds,
                                        GVar_ReplicaCount = iVal, GVar_EndOfKeyRange = endOfKeyRange\<rparr>))))"

subsection \<open>Metadata of a node\<close>

definition gossip_json :: "(time \<Rightarrow> string) \<Rightarrow> NodeGossip \<Rightarrow> json" where
  "gossip_json fmt g =
     JObj [(''Id'', JStr (gId g)), (''Host'', JStr (gHost g)),
           (''EndOfKeyRange'', JNum (of_int (uint (gEndOfKeyRange g)))),
           (''LastUpdate'', JStr (fmt (gLastUpdate g))), (''State'', JStr (gState g)),
           (''ReplicaCount'', JNum (of_int (gReplicaCount g)))]"

definition getMetaDataNode :: "(time \<Rightarrow> string) \<Rightarrow> choice \<Rightarrow> Node \<Rightarrow> nat \<times> (string \<times> json) list" where
  "getMetaDataNode fmt c n =
     (200, [(''Id'', JStr (nId n)), (''Host'', JStr (nHost n)),
            (''Gossip'', JObj (map (\<lambda>(id, g). (id, gossip_json fmt g)) (Read c (nGossip n)))),
            (''EndOfKeyRange'', JNum (of_int (uint (nEndOfKeyRange n)))),
            (''LastUpdate'', JStr (fmt (nLastUpdate n))), (''State'', JStr (nState n)),
            (''ReplicaCount'', JNum (of_int (nReplicaCount n)))])"

definition float64_of_rat :: "(rat \<Rightarrow> rat) \<Rightarrow> rat \<Rightarrow> rat" where
  "float64_of_rat fl x =
     (let i = \<lfloor>x\<rfloor>
      in if x = of_int i \<and> \<bar>i\<bar> < 2 ^ 53 then x
         else if x = of_int i \<and> 0 \<le> i \<and> i < 2 ^ 64 then of_nat (float64_of_u64 (of_int i))
         else fl x)"

primrec decode_any :: "(rat \<Rightarrow> rat) \<Rightarrow> json \<Rightarrow> json" where
  "decode_any fl JNull = JNull"
| "decode_any fl (JBool b) = JBool b"
| "decode_any fl (JNum x) = JNum (float64_of_rat fl x)"
| "decode_any fl (JStr s) = JStr s"
| "decode_any fl (JArr xs) = JArr (map (decode_any fl) xs)"
| "decode_any fl (JObj kvs) = JObj (map (map_prod id (decode_any fl)) kvs)"

text \<open>
  The error of \<open>json.Unmarshal\<close> is ignored: a body that is not a JSON object leaves the map empty.
\<close>

definition GetNodeMeta_url :: "string \<Rightarrow> string" where
  "GetNodeMeta_url host = host @ V1_METADATA_NODE"

definition GetNodeMeta ::
    "(rat \<Rightarrow> rat) \<Rightarrow> (string \<times> json) list exchange \<Rightarrow> error + (string \<times> json) list" where
  "GetNodeMeta fl resp =
     (case resp of
        RequestErr e \<Rightarrow> Inl e
      | DoErr e \<Rightarrow> Inl e
      | ReadErr e \<Rightarrow> Inl e
      | Body status b \<Rightarrow>
          (case b of None \<Rightarrow> Inr [] | Some m \<Rightarrow> Inr (map (map_prod id (decode_any fl)) m)))"

subsection \<open>NewNode\<close>

text \<open>\<open>int(x)\<close> of a \<open>float64\<close>: towards zero, outside the range of an \<open>int\<close> the platform's \<open>iconv\<close>.\<close>

definition int_of_float :: "(rat \<Rightarrow> int) \<Rightarrow> rat \<Rightarrow> int" where
  "int_of_float iconv x =
     (if - (2 ^ 63) - 1 < x \<and> x < 2 ^ 63 then (if 0 \<le> x then \<lfloor>x\<rfloor> else \<lceil>x\<rceil>) else iconv x)"

record platform =
  pfUint :: "rat \<Rightarrow> u64"
  pfInt :: "rat \<Rightarrow> int"
  pfFloat :: "rat \<Rightarrow> rat"
  pfParse :: "string \<Rightarrow> time option"

text \<open>The body of the loop over the seeds; \<open>None\<close> when the time does not parse.\<close>

definition seed_entry :: "platform \<Rightarrow> (string \<times> json) list \<Rightarrow> NodeGossip option outcome" where
  "seed_entry pf nodeMeta =
     bind_outcome (assert_float (body_field (Some nodeMeta) ''EndOfKeyRange'')) (\<lambda>e.
     bind_outcome (assert_string (body_field (Some nodeMeta) ''LastUpdate'')) (\<lambda>lu.
       case pfParse pf lu of
         None \<Rightarrow> Ret None
       | Some t \<Rightarrow>
           bind_outcome (assert_string (body_field (Some nodeMeta) ''Id'')) (\<lambda>id.
           bind_outcome (assert_string (body_field (Some nodeMeta) ''Host'')) (\<lambda>host.
           bind_outcome (assert_float (body_field (Some nodeMeta) ''ReplicaCount'')) (\<lambda>rc.
           bind_outcome (assert_string (body_field (Some nodeMeta) ''State'')) (\<lambda>state.
             Ret (Some \<lparr>gId = id, gHost = host, gEndOfKeyRange = uint64_of_float (pfUint pf) e,
                        gLastUpdate = t, gState = state, gReplicaCount = int_of_float (pfInt pf) rc\<rparr>)))))))"

fun seed_loop ::
    "platform \<Rightarrow> (string \<Rightarrow> (string \<times> json) list exchange) \<Rightarrow> string list \<Rightarrow> table \<Rightarrow> int
      \<Rightarrow> (nat + table \<times> int) outcome" where
  "seed_loop pf ask [] g replicas = Ret (Inr (g, replicas))"
| "seed_loop pf ask (sNode # ss) g replicas =
     (case GetNodeMeta (pfFloat pf) (ask sNode) of
        Inl err \<Rightarrow> seed_loop pf ask ss g replicas
      | Inr nodeMeta \<Rightarrow>
          bind_outcome (seed_entry pf nodeMeta) (\<lambda>r.
            case r of
              None \<Rightarrow> seed_loop pf ask ss g replicas
            | Some a \<Rightarrow>
                (let g' = Upsert g (gId a) a; replicaCount = gReplicaCount a
                 in if replicas = 0 then seed_loop pf ask ss g' replicaCount
                    else if 0 < replicas \<and> replicas \<noteq> replicaCount then Ret (Inl 1)
                    else seed_loop pf ask ss g' replicas)))"

text \<open>\<open>uuid\<close> is the id drawn, \<open>t1\<close> and \<open>t2\<close> are the two readings of the clock.\<close>

definition NewNode ::
    "platform \<Rightarrow> (string \<Rightarrow> (string \<times> json) list exchange) \<Rightarrow> string \<Rightarrow> time \<Rightarrow> time \<Rightarrow> globals
      \<Rightarrow> (nat + 'h Process) outcome" where
  "NewNode pf ask uuid t1 t2 gv =
     bind_outcome (seed_loop pf ask (GVar_SeedNodes gv) NewGossip (GVar_ReplicaCount gv)) (\<lambda>r.
       case r of
         Inl code \<Rightarrow> Ret (Inl code)
       | Inr (gossipNodes, replicas) \<Rightarrow>
           (let nodeState = (if Gossip_Size gossipNodes = 0 then AVAILABLE else JOINING);
                node = \<lparr>nId = uuid, nHost = GVar_Host gv, nEndOfKeyRange = GVar_EndOfKeyRange gv,
                        nGossip = gossipNodes, nLastUpdate = t1, nState = nodeState,
                        nReplicaCount = replicas, nGossipMeta = []\<rparr>;
                node1 = node\<lparr>nGossip := Upsert gossipNodes uuid (own_entry t2 node)\<rparr>
            in Ret (Inr \<lparr>pNode = node1, pStore = NewDataStore, pReplicaCount = replicas\<rparr>)))"

subsection \<open>What the seeds leave in the table\<close>


text \<open>The entry a seed contributes, if it answers with one.\<close>

definition learned :: "platform \<Rightarrow> (string \<Rightarrow> (string \<times> json) list exchange) \<Rightarrow> string \<Rightarrow> NodeGossip option" where
  "learned pf ask sNode =
     (case GetNodeMeta (pfFloat pf) (ask sNode) of
        Inl e \<Rightarrow> None
      | Inr m \<Rightarrow> (case seed_entry pf m of Ret r \<Rightarrow> r | Panic p \<Rightarrow> None))"

text \<open>
  A replica count that is not negative is that of every seed in the table, except seeds that were
  asked while it was 0 and reported 0.
\<close>

definition counts_agree :: "table \<Rightarrow> int \<Rightarrow> bool" where
  "counts_agree g replicas \<longleftrightarrow>
     0 \<le> replicas \<longrightarrow> (\<forall>id a. Gossip_Get g id = Some a \<longrightarrow> gReplicaCount a \<in> {0, replicas})"

lemma counts_agree_Upsert:
  assumes "counts_agree g replicas" "replicas = 0 \<and> r = gReplicaCount a \<or> replicas < 0 \<and> r = replicas
    \<or> r = replicas \<and> gReplicaCount a = replicas"
  shows "counts_agree (Upsert g key a) r"
  using assms by (auto simp: counts_agree_def NodeGossip_Clone_def)

lemma seed_loop_spec:
  "seed_loop pf ask ss g replicas = Ret (Inr (g', replicas')) \<Longrightarrow> table_wf g \<Longrightarrow> counts_agree g replicas \<Longrightarrow>
   table_wf g' \<and> counts_agree g' replicas'
   \<and> (\<forall>id. Gossip_Get g' id \<noteq> None \<longleftrightarrow>
        Gossip_Get g id \<noteq> None \<or> (\<exists>s \<in> set ss. \<exists>a. learned pf ask s = Some a \<and> gId a = id))"
proof (induction pf ask ss g replicas rule: seed_loop.induct)
  case (2 pf ask s ss g replicas)
  show ?case
  proof (cases "GetNodeMeta (pfFloat pf) (ask s)")
    case (Inl e)
    then show ?thesis using 2 by (simp add: learned_def)
  next
    case (Inr m)
    obtain r where r: "seed_entry pf m = Ret r" using "2.prems"(1) Inr by (cases "seed_entry pf m") auto
    show ?thesis
    proof (cases r)
      case None
      then show ?thesis using "2.IH"(2) [OF Inr] "2.prems" Inr r by (simp add: learned_def)
    next
      case (Some a)
      have l: "learned pf ask s = Some a" by (simp add: learned_def Inr r Some)
      have wf: "table_wf (Upsert g (gId a) a)" by (rule gossip_wf_Upsert [OF "2.prems"(2)])
      consider "replicas = 0" | "replicas \<noteq> 0" "\<not> (0 < replicas \<and> replicas \<noteq> gReplicaCount a)"
        using "2.prems"(1) by (auto simp: Inr r Some Let_def split: if_splits)
      then show ?thesis
      proof cases
        case 1
        have "counts_agree (Upsert g (gId a) a) (gReplicaCount a)"
          by (rule counts_agree_Upsert [OF "2.prems"(3)]) (simp add: 1)
        then show ?thesis
          using "2.IH"(3) [OF Inr refl refl 1] "2.prems"(1) wf l 1
          by (auto simp: Inr r Some Let_def)
      next
        case 2
        have "counts_agree (Upsert g (gId a) a) replicas"
          by (rule counts_agree_Upsert [OF "2.prems"(3)]) (use 2 in auto)
        then show ?thesis
          using "2.IH"(4) [OF Inr refl refl 2] "2.prems"(1) wf l 2
          by (auto simp: Inr r Some Let_def)
      qed
    qed
  qed
qed simp

subsection \<open>The answer of a seed\<close>

lemma float64_of_rat_u64: "float64_of_rat fl (of_int (uint e)) = of_nat (float64_of_u64 e)"
  for e :: u64
proof -
  have u: "(of_int (uint e) :: rat) = of_nat (unat e)" by (metis of_int_of_nat_eq uint_nat)
  have w: "(of_int (uint e) :: u64) = e" by (rule word_of_int_uint)
  have l: "uint e < 2 ^ 53 \<longleftrightarrow> unat e < 2 ^ 53" by (simp only: uint_nat of_nat_less_numeral_power_cancel_iff)
  have r: "0 \<le> uint e" "uint e < 2 ^ 64" using uint_lt2p [of e] by simp_all
  show ?thesis
  proof (cases "unat e < 2 ^ 53")
    case True
    then have "float64_of_u64 e = unat e" by (simp add: float64_of_u64_def)
    moreover have "float64_of_rat fl (of_int (uint e)) = of_int (uint e)"
      using True l by (simp only: float64_of_rat_def floor_of_int Let_def r(1) abs_of_nonneg simp_thms if_True)
    ultimately show ?thesis by (simp only: u)
  next
    case False
    then show ?thesis using l r by (simp only: float64_of_rat_def floor_of_int Let_def w abs_of_nonneg simp_thms if_True if_False)
  qed
qed

lemma float64_of_rat_int: "\<bar>i\<bar> < 2 ^ 53 \<Longrightarrow> float64_of_rat fl (of_int i) = of_int i"
  by (simp add: float64_of_rat_def)

lemma int_of_float_exact: "\<bar>i\<bar> < 2 ^ 53 \<Longrightarrow> int_of_float iconv (of_int i) = i"
proof -
  assume i: "\<bar>i\<bar> < 2 ^ 53"
  then have "(of_int (- (2 ^ 63) - 1) :: rat) < of_int i" "(of_int i :: rat) < of_int (2 ^ 63)"
    unfolding of_int_less_iff by simp_all
  then have "- (2 ^ 63) - 1 < (of_int i :: rat)" "(of_int i :: rat) < 2 ^ 63" by simp_all
  then show ?thesis by (simp add: int_of_float_def)
qed

lemma uint64_of_float_nat:
  "uint64_of_float conv (of_nat n) = (if n < 2 ^ 64 then of_nat n else conv (of_nat n))"
proof -
  have "(of_nat n :: rat) < 2 ^ 64 \<longleftrightarrow> n < 2 ^ 64" by (metis of_nat_less_iff of_nat_numeral of_nat_power)
  then show ?thesis by (simp add: uint64_of_float_def)
qed

end
