(* ===== verification/Start_Props.thy ===== *)
theory Start_Props
  imports Node_Start Data_Props
begin

section \<open>Properties of the start of a node\<close>

text \<open>
  Which flags are accepted and what they mean, what a new node knows and in which state it starts,
  and what it learns of a seed: everything but the end of the key range exactly, and that rounded to
  a \<open>float64\<close>.
\<close>

text \<open>
  The flags are accepted exactly when there is a host, the range end is a decimal number below
  2^64, and either seeds are given and the replica count is blank, or no seeds are given and the
  replica count is an integer; the globals are then these values, the seeds split at commas.
\<close>

theorem init_flags_exact:
  "init_flags f = Inr gv \<longleftrightarrow>
     fHost f \<noteq> []
   \<and> fEndOfKeyRange f \<noteq> [] \<and> all_digits (fEndOfKeyRange f) \<and> digits_value 0 (fEndOfKeyRange f) < 2 ^ 64
   \<and> (if fSeedNodes f = [] then Atoi (fReplicaCount f) = Inr (GVar_ReplicaCount gv)
      else set (fReplicaCount f) \<subseteq> {CHR '' ''} \<and> GVar_ReplicaCount gv = 0)
   \<and> GVar_SeedNodes gv = (if fSeedNodes f = [] then [] else Split (CHR '','') (fSeedNodes f))
   \<and> GVar_PORT gv = fPort f \<and> GVar_Host gv = fHost f
   \<and> GVar_EndOfKeyRange gv = of_nat (digits_value 0 (fEndOfKeyRange f))"
proof -
  let ?s = "fEndOfKeyRange f"
  let ?P = "?s \<noteq> [] \<and> all_digits ?s \<and> digits_value 0 ?s < 2 ^ 64"
  obtain err where E: "StrToUInt64 ?s = (if ?P then Inr (of_nat (digits_value 0 ?s)) else Inl err)"
  proof (cases "?s \<noteq> [] \<and> all_digits ?s")
    case True
    then show ?thesis using that [of ErrRange] by (simp add: StrToUInt64_def ParseUint_digits)
  next
    case False
    then show ?thesis using ParseUint_bad [of ?s] that by (auto simp: StrToUInt64_def)
  qed
  have eq: "gv = \<lparr>GVar_PORT = a, GVar_Host = b, GVar_SeedNodes = c, GVar_ReplicaCount = d, GVar_EndOfKeyRange = e\<rparr>
      \<longleftrightarrow> GVar_PORT gv = a \<and> GVar_Host gv = b \<and> GVar_SeedNodes gv = c \<and> GVar_ReplicaCount gv = d
        \<and> GVar_EndOfKeyRange gv = e" for a b c d e
    by (cases gv) auto
  show ?thesis
  proof (cases "fSeedNodes f = []")
    case True
    show ?thesis
    proof (cases "Atoi (fReplicaCount f)")
      case (Inl e)
      then show ?thesis using True by (simp add: init_flags_def)
    next
      case (Inr i)
      then have "Trim_spaces (fReplicaCount f) \<noteq> []"
        using Atoi_spaces [of "fReplicaCount f"] by (auto simp: Trim_spaces_eq_Nil)
      then show ?thesis
        by (simp add: init_flags_def Inr True E eq_commute [of _ gv] eq del: of_nat_power) blast
    qed
  next
    case False
    show ?thesis
    proof (cases "Trim_spaces (fReplicaCount f) = []")
      case True
      then show ?thesis using False Trim_spaces_eq_Nil [of "fReplicaCount f"]
        by (simp add: subset_eq init_flags_def E eq_commute [of _ gv] eq) blast
    next
      case notblank: False
      then show ?thesis using False Trim_spaces_eq_Nil [of "fReplicaCount f"]
        by (simp add: subset_eq init_flags_def Let_def)
    qed
  qed
qed


text \<open>
  C36. A node that starts has a well-formed table with its own entry and one entry per id learned of a
  seed, and nothing else; it is available exactly when it learned of no seed, joining otherwise; its
  store is empty; its replica count is the one the whole process uses, and, if it is not negative,
  every seed reported that count, or 0.
\<close>

theorem NewNode_contract:
  fixes p :: "'h Process"
  assumes "NewNode pf ask uuid t1 t2 gv = Ret (Inr p)"
  shows "table_wf (nGossip (pNode p))
    \<and> Gossip_Get (nGossip (pNode p)) uuid = Some (own_entry t2 (pNode p)) \<and> nId (pNode p) = uuid
    \<and> (\<forall>id. Gossip_Get (nGossip (pNode p)) id \<noteq> None \<longleftrightarrow>
          id = uuid \<or> (\<exists>s \<in> set (GVar_SeedNodes gv). \<exists>a. learned pf ask s = Some a \<and> gId a = id))
    \<and> nState (pNode p) = (if (\<exists>s \<in> set (GVar_SeedNodes gv). learned pf ask s \<noteq> None) then JOINING else AVAILABLE)
    \<and> pStore p = NewDataStore \<and> nReplicaCount (pNode p) = pReplicaCount p
    \<and> (0 \<le> pReplicaCount p \<longrightarrow> (\<forall>id a. Gossip_Get (nGossip (pNode p)) id = Some a \<longrightarrow>
          gReplicaCount a \<in> {0, pReplicaCount p}))"
proof -
  obtain g r where l: "seed_loop pf ask (GVar_SeedNodes gv) NewGossip (GVar_ReplicaCount gv) = Ret (Inr (g, r))"
    using assms by (cases "seed_loop pf ask (GVar_SeedNodes gv) NewGossip (GVar_ReplicaCount gv)")
      (auto simp: NewNode_def split: sum.splits)
  have S: "table_wf g" "counts_agree g r" "\<And>id. Gossip_Get g id \<noteq> None \<longleftrightarrow>
      (\<exists>s \<in> set (GVar_SeedNodes gv). \<exists>a. learned pf ask s = Some a \<and> gId a = id)"
    using seed_loop_spec [OF l] by (simp_all add: gossip_wf_New counts_agree_def)
  have size: "Gossip_Size g = 0 \<longleftrightarrow> (\<forall>id. Gossip_Get g id = None)" by (rule Size_zero)
  let ?st = "if Gossip_Size g = 0 then AVAILABLE else JOINING"
  let ?n = "\<lparr>nId = uuid, nHost = GVar_Host gv, nEndOfKeyRange = GVar_EndOfKeyRange gv, nGossip = g,
    nLastUpdate = t1, nState = ?st, nReplicaCount = r, nGossipMeta = []\<rparr>"
  have p: "p = \<lparr>pNode = ?n\<lparr>nGossip := Upsert g uuid (own_entry t2 ?n)\<rparr>, pStore = NewDataStore, pReplicaCount = r\<rparr>"
    using assms by (simp add: NewNode_def l Let_def)
  have own: "own_entry t2 (pNode p) = own_entry t2 ?n" by (simp add: p own_entry_def)
  have st: "?st = (if (\<exists>s \<in> set (GVar_SeedNodes gv). learned pf ask s \<noteq> None) then JOINING else AVAILABLE)"
  proof (cases "\<exists>s \<in> set (GVar_SeedNodes gv). learned pf ask s \<noteq> None")
    case True
    then have "\<exists>id. Gossip_Get g id \<noteq> None" using S(3) by (metis not_None_eq)
    then show ?thesis using True by (simp add: size)
  next
    case False
    then have "\<forall>id. Gossip_Get g id = None" using S(3) by (metis option.distinct(1))
    then show ?thesis using False by (simp add: size)
  qed
  have "counts_agree (Upsert g uuid (own_entry t2 ?n)) r"
    using S(2) by (auto simp: counts_agree_def NodeGossip_Clone_def own_entry_def)
  moreover have "nGossip (pNode p) = Upsert g uuid (own_entry t2 ?n)" "nId (pNode p) = uuid"
    "nState (pNode p) = ?st" "pStore p = NewDataStore" "nReplicaCount (pNode p) = r" "pReplicaCount p = r"
    by (simp_all add: p)
  ultimately show ?thesis
    unfolding own st using S(1,3) gossip_wf_Upsert [OF S(1)]
    by (simp add: counts_agree_def NodeGossip_Clone_def del: NodeGossip_accessors)
qed


definition sample_platform :: platform where
  "sample_platform =
     \<lparr>pfUint = (\<lambda>x. 0), pfInt = (\<lambda>x. 0), pfFloat = (\<lambda>x. x), pfParse = (\<lambda>s. Some 3)\<rparr>"

definition sample_globals :: globals where
  "sample_globals =
     \<lparr>GVar_PORT = 7770, GVar_Host = ''h9'', GVar_SeedNodes = [''h1'', ''down''], GVar_ReplicaCount = 0,
      GVar_EndOfKeyRange = 5\<rparr>"

definition sample_seed :: Node where
  "sample_seed = (sample_node AVAILABLE)\<lparr>nLastUpdate := 3, nReplicaCount := 2, nEndOfKeyRange := 9\<rparr>"

definition sample_ask :: "string \<Rightarrow> (string \<times> json) list exchange" where
  "sample_ask host =
     (if host = ''h1'' then Body 200 (Some (snd (getMetaDataNode (\<lambda>t. ''now'') [] sample_seed)))
      else DoErr (TransportError ''refused''))"

lemma sample_seed_entry:
  "GetNodeMeta (pfFloat sample_platform) (sample_ask ''h1'') = Inr m \<Longrightarrow>
   seed_entry sample_platform m = Ret (Some (own_entry 3 sample_seed))"
  "\<exists>m. GetNodeMeta (pfFloat sample_platform) (sample_ask ''h1'') = Inr m"
  by (auto simp: GetNodeMeta_def sample_ask_def getMetaDataNode_def sample_seed_def sample_node_def seed_entry_def
      body_field_def assert_float_def assert_string_def sample_platform_def own_entry_def
      float64_of_rat_def uint64_of_float_def int_of_float_def)

lemma sample_start:
  "\<exists>p. NewNode sample_platform sample_ask ''id9'' 4 5 sample_globals = Ret (Inr (p :: nat Process))
    \<and> pReplicaCount p = 2"
proof -
  obtain m where m: "GetNodeMeta (pfFloat sample_platform) (sample_ask ''h1'') = Inr m"
    using sample_seed_entry(2) by blast
  have d: "GetNodeMeta (pfFloat sample_platform) (sample_ask ''down'') = Inl (TransportError ''refused'')"
    by (simp add: GetNodeMeta_def sample_ask_def)
  have "gReplicaCount (own_entry 3 sample_seed) = 2" by (simp add: own_entry_def sample_seed_def)
  then show ?thesis
    by (simp add: NewNode_def sample_globals_def m d sample_seed_entry(1) [OF m] Let_def)
qed

lemma NewNode_contract_witness:
  "\<exists>p :: nat Process. NewNode sample_platform sample_ask ''id9'' 4 5 sample_globals = Ret (Inr p)
    \<and> nState (pNode p) = JOINING \<and> table_wf (nGossip (pNode p))"
proof -
  obtain p :: "nat Process" where
    p: "NewNode sample_platform sample_ask ''id9'' 4 5 sample_globals = Ret (Inr p)"
    using sample_start by blast
  have "learned sample_platform sample_ask ''h1'' \<noteq> None" "''h1'' \<in> set (GVar_SeedNodes sample_globals)"
    using sample_seed_entry by (auto simp: learned_def sample_globals_def)
  then show ?thesis using NewNode_contract [OF p] p by auto
qed

lemma float64_TOTAL_SLOTS: "float64_of_u64 TOTAL_SLOTS = 2 ^ 64"
proof -
  have "bit_length (2 ^ 64 - 1) = 64" by (simp add: bit_length.simps)
  moreover have "unat TOTAL_SLOTS = 2 ^ 64 - 1" by (simp add: TOTAL_SLOTS_def)
  ultimately show ?thesis by (simp add: float64_of_u64_def round_to_even_def Let_def)
qed

text \<open>
  C37. What a new node learns of a seed: the seed's own description of itself, as of its last
  update, except that the end of its key range has been through a \<open>float64\<close>: it is exact below 2^53,
  and the largest range end, 2^64 - 1, comes back as whatever the platform makes of 2^64.
\<close>

theorem seed_learns_the_node:
  assumes "pfParse pf (fmt (nLastUpdate n)) = Some (nLastUpdate n)" "\<bar>nReplicaCount n\<bar> < 2 ^ 53"
    and "getMetaDataNode fmt c n = (status, body)" "ask s = Body status (Some body)"
  shows "\<exists>e. learned pf ask s = Some ((own_entry (nLastUpdate n) n)\<lparr>gEndOfKeyRange := e\<rparr>)
    \<and> (unat (nEndOfKeyRange n) < 2 ^ 53 \<longrightarrow> e = nEndOfKeyRange n)
    \<and> (nEndOfKeyRange n = TOTAL_SLOTS \<longrightarrow> e = pfUint pf (2 ^ 64))"
proof -
  let ?e = "uint64_of_float (pfUint pf) (of_nat (float64_of_u64 (nEndOfKeyRange n)))"
  let ?m = "map (map_prod id (decode_any (pfFloat pf))) body"
  have m: "map_of ?m ''Id'' = Some (JStr (nId n))" "map_of ?m ''Host'' = Some (JStr (nHost n))"
    "map_of ?m ''EndOfKeyRange'' = Some (JNum (of_nat (float64_of_u64 (nEndOfKeyRange n))))"
    "map_of ?m ''LastUpdate'' = Some (JStr (fmt (nLastUpdate n)))"
    "map_of ?m ''State'' = Some (JStr (nState n))"
    "map_of ?m ''ReplicaCount'' = Some (JNum (of_int (nReplicaCount n)))"
    using assms(3) float64_of_rat_int [OF assms(2)]
    by (auto simp: getMetaDataNode_def float64_of_rat_u64 [simplified])
  have "seed_entry pf ?m = Ret (Some ((own_entry (nLastUpdate n) n)\<lparr>gEndOfKeyRange := ?e\<rparr>))"
    by (simp add: seed_entry_def body_field_def m assert_float_def assert_string_def assms(1)
        int_of_float_exact [OF assms(2)] own_entry_def)
  then have "learned pf ask s = Some ((own_entry (nLastUpdate n) n)\<lparr>gEndOfKeyRange := ?e\<rparr>)"
    by (simp add: learned_def GetNodeMeta_def assms(4))
  moreover have "unat (nEndOfKeyRange n) < 2 ^ 53 \<longrightarrow> ?e = nEndOfKeyRange n"
    using uint64_of_float_nat [of _ "unat (nEndOfKeyRange n)"] by (auto simp: float64_exact)
  moreover have "float64_of_u64 TOTAL_SLOTS = 2 ^ 64" by (rule float64_TOTAL_SLOTS)
  then have "nEndOfKeyRange n = TOTAL_SLOTS \<longrightarrow> ?e = pfUint pf (2 ^ 64)"
    by (simp only: uint64_of_float_nat) simp
  ultimately show ?thesis by blast
qed


lemma seed_learns_the_node_witness:
  "learned sample_platform sample_ask ''h1''
    = Some ((own_entry 3 sample_seed)\<lparr>gEndOfKeyRange := nEndOfKeyRange sample_seed\<rparr>)"
proof -
  have a: "pfParse sample_platform ((\<lambda>t. ''now'') (nLastUpdate sample_seed)) = Some (nLastUpdate sample_seed)"
    "\<bar>nReplicaCount sample_seed\<bar> < 2 ^ 53" "unat (nEndOfKeyRange sample_seed) < 2 ^ 53"
    by (simp_all add: sample_platform_def sample_seed_def)
  have m: "getMetaDataNode (\<lambda>t. ''now'') [] sample_seed
      = (200, snd (getMetaDataNode (\<lambda>t. ''now'') [] sample_seed))"
    by (simp add: getMetaDataNode_def)
  have "sample_ask ''h1'' = Body 200 (Some (snd (getMetaDataNode (\<lambda>t. ''now'') [] sample_seed)))"
    by (simp add: sample_ask_def)
  from seed_learns_the_node [where fmt = "\<lambda>t. ''now''" and ask = sample_ask and s = "''h1''", OF a(1,2) m this] a(3) show ?thesis
    by (auto simp: sample_seed_def)
qed

end
