(* ===== verification/Coordinator.thy ===== *)
theory Coordinator
  imports Ring
begin

section \<open>The deprecated coordinator: cluster/\<close>

text \<open>
  \<open>cluster/coordinator/coordinator.go\<close> keeps the storage nodes of a cluster in a slice sorted by
  the end of their key range, and \<open>cluster/main.go\<close> serves it over HTTP. \<open>cluster_wf\<close> is the
  invariant: range ends strictly increase, and the last one, if there is any, is the greatest
  token. \<open>AddNode\<close> and \<open>RemoveNode\<close> keep it on every branch; \<open>RemoveNode\<close> panics when the only
  node is removed. The HTTP calls of the coordinator to the nodes are recorded as values.
\<close>

subsection \<open>State and operations\<close>

record Cluster =
  cNodes :: "StorageNode list"
  cTotalSlots :: u64

definition NewCluster :: "string \<Rightarrow> Cluster" where
  "NewCluster host = \<lparr>cNodes = [], cTotalSlots = TOTAL_SLOTS\<rparr>"

definition Info :: "Cluster \<Rightarrow> StorageNode list" where
  "Info c = cNodes c"

fun insert_loop :: "int \<Rightarrow> StorageNode list \<Rightarrow> u64 \<Rightarrow> int \<times> error option" where
  "insert_loop i [] token = (0, Some ErrNoNodeWithRequiredEndOfKeyRange)"
| "insert_loop i (node # nodes) token =
     (if token = sEndOfKeyRange node then (0, Some ErrNodeAlrExistWithEndOfKeyRange)
      else if token < sEndOfKeyRange node then (i, None)
      else insert_loop (i + 1) nodes token)"

definition FindInsertIndex :: "StorageNode list \<Rightarrow> u64 \<Rightarrow> int \<times> error option" where
  "FindInsertIndex nodes token = (if nodes = [] then (0, None) else insert_loop 0 nodes token)"

text \<open>
  \<open>append\<close> of a zero node, \<open>copy(c.nodes[index+1:], c.nodes[index:])\<close>, and the assignment
  \<open>c.nodes[index] = node\<close>.
\<close>

definition zeroStorageNode :: StorageNode where
  "zeroStorageNode = \<lparr>sId = [], sEndOfKeyRange = 0, sHost = [], sState = []\<rparr>"

definition shift_insert :: "nat \<Rightarrow> StorageNode \<Rightarrow> StorageNode list \<Rightarrow> StorageNode list" where
  "shift_insert index node nodes =
     (let grown = nodes @ [zeroStorageNode];
          shifted = take (index + 1) grown @ take (length grown - (index + 1)) (drop index grown)
      in shifted[index := node])"

definition AddNode :: "Cluster \<Rightarrow> StorageNode \<Rightarrow> Cluster \<times> error option" where
  "AddNode c node =
     (let endOfKeyRange = sEndOfKeyRange node
      in if cNodes c = []
         then (if sEndOfKeyRange node \<noteq> TOTAL_SLOTS then (c, Some ErrFirstNodeNotMax)
               else (c\<lparr>cNodes := cNodes c @ [node]\<rparr>, None))
         else (case FindInsertIndex (cNodes c) endOfKeyRange of
                 (index, Some e) \<Rightarrow> (c, Some (Joined ErrAddNode e))
               | (index, None) \<Rightarrow>
                   (c\<lparr>cNodes := shift_insert (nat index) node (cNodes c)\<rparr>, None)))"

fun remove_loop :: "int \<Rightarrow> StorageNode list \<Rightarrow> StorageNode \<Rightarrow> int" where
  "remove_loop i [] node = - 1"
| "remove_loop i (cnode # cnodes) node =
     (if sEndOfKeyRange cnode = sEndOfKeyRange node \<and> sHost cnode = sHost node then i
      else remove_loop (i + 1) cnodes node)"

text \<open>
  In the last branch the shortened slice is assigned before the index expression that may panic,
  so \<open>RemoveNode\<close> returns the state beside the outcome.
\<close>

definition RemoveNode :: "Cluster \<Rightarrow> StorageNode \<Rightarrow> Cluster \<times> error option outcome" where
  "RemoveNode c node =
     (let index = remove_loop 0 (cNodes c) node
      in if index = - 1 then (c, Ret (Some ErrNodeNotFound))
         else (let endOfKeyRange = sEndOfKeyRange node
               in if index = int (length (cNodes c)) - 1
                  then (let nodes = take (nat index) (cNodes c)
                        in if index - 1 < 0 then (c\<lparr>cNodes := nodes\<rparr>, Panic IndexOutOfRange)
                           else (c\<lparr>cNodes := nodes[nat (index - 1) :=
                                  (nodes ! nat (index - 1))\<lparr>sEndOfKeyRange := endOfKeyRange\<rparr>]\<rparr>,
                                 Ret None))
                  else (c\<lparr>cNodes := take (nat index) (cNodes c) @ drop (nat index + 1) (cNodes c)\<rparr>,
                        Ret None)))"

definition Cluster_GetNode :: "Cluster \<Rightarrow> u64 \<Rightarrow> error + StorageNode" where
  "Cluster_GetNode c key = GetNode StorageNode_XEndOfKeyRange StorageNode_XState (cNodes c) key"

text \<open>The request that initialises a new node: its URL and the node it describes.\<close>

definition InitNode :: "StorageNode \<Rightarrow> string \<times> StorageNode" where
  "InitNode node = (sHost node @ ''/v1/node/init'', node)"

text \<open>
  The gossip about a new node, one message per known node. The source sets neither the state nor
  the replica count of the entry.
\<close>

definition coordinator_gossip :: "time \<Rightarrow> StorageNode \<Rightarrow> NodeGossip" where
  "coordinator_gossip now newNode =
     \<lparr>gId = sId newNode, gHost = sHost newNode, gEndOfKeyRange = sEndOfKeyRange newNode,
      gLastUpdate = now, gState = [], gReplicaCount = 0\<rparr>"

definition BroadCastNode :: "time \<Rightarrow> Cluster \<Rightarrow> StorageNode \<Rightarrow> (string \<times> NodeGossip list) list" where
  "BroadCastNode now c newNode = map (\<lambda>node. (sHost node, [coordinator_gossip now newNode])) (cNodes c)"

subsection \<open>Handlers of cluster/main.go\<close>

text \<open>
  A JSON body is what \<open>ShouldBindJSON\<close> left in the map: \<open>None\<close> when it failed, in which case the
  source writes the 400 response and goes on with the empty map; \<open>conv\<close> is the platform's conversion
  of a \<open>float64\<close> that is out of range.
\<close>

definition addnode ::
    "(rat \<Rightarrow> u64) \<Rightarrow> string \<Rightarrow> time \<Rightarrow> Cluster \<Rightarrow> (string \<times> json) list option
      \<Rightarrow> (Cluster \<times> nat \<times> error option \<times> (string \<times> StorageNode) list
            \<times> (string \<times> NodeGossip list) list) outcome" where
  "addnode conv idStr now c body =
     bind_outcome (assert_string (body_field body ''Host''))
       (\<lambda>hostStr. bind_outcome (assert_float (body_field body ''EndOfKeyRange''))
         (\<lambda>e. let node = \<lparr>sId = idStr, sEndOfKeyRange = uint64_of_float conv e, sHost = hostStr,
                          sState = []\<rparr>
              in case AddNode c node of
                   (c', Some err) \<Rightarrow> Ret (c', 400, Some err, [], [])
                 | (c', None) \<Rightarrow> Ret (c', 200, None, [InitNode node], BroadCastNode now c' node)))"

definition removenode ::
    "(rat \<Rightarrow> u64) \<Rightarrow> Cluster \<Rightarrow> (string \<times> json) list option \<Rightarrow> Cluster \<times> (nat \<times> error option) outcome" where
  "removenode conv c body =
     (case bind_outcome (assert_string (body_field body ''Host''))
             (\<lambda>hostStr. bind_outcome (assert_float (body_field body ''EndOfKeyRange''))
               (\<lambda>e. Ret \<lparr>sId = [], sEndOfKeyRange = uint64_of_float conv e, sHost = hostStr,
                        sState = []\<rparr>)) of
        Panic p \<Rightarrow> (c, Panic p)
      | Ret node \<Rightarrow> (case RemoveNode c node of
                       (c', r) \<Rightarrow> (c', bind_outcome r (\<lambda>err. Ret (200, err)))))"

definition nodedetail :: "Cluster \<Rightarrow> string \<Rightarrow> (nat \<times> (error + StorageNode)) outcome" where
  "nodedetail c key =
     bind_outcome (HashKey key TOTAL_SLOTS) (\<lambda>hash. Ret (200, Cluster_GetNode c hash))"

subsection \<open>Invariant\<close>

definition cluster_wf :: "Cluster \<Rightarrow> bool" where
  "cluster_wf c \<longleftrightarrow>
     sorted_wrt (<) (map sEndOfKeyRange (cNodes c))
     \<and> (cNodes c \<noteq> [] \<longrightarrow> sEndOfKeyRange (last (cNodes c)) = TOTAL_SLOTS)"

lemma cluster_wf_New [simp]: "cluster_wf (NewCluster h)"
  by (simp add: cluster_wf_def NewCluster_def)

lemma insert_loop_spec:
  "insert_loop i ns token =
     (if token \<in> sEndOfKeyRange ` set (takeWhile (\<lambda>n. sEndOfKeyRange n \<le> token) ns)
      then (0, Some ErrNodeAlrExistWithEndOfKeyRange)
      else if list_all (\<lambda>n. sEndOfKeyRange n \<le> token) ns
      then (0, Some ErrNoNodeWithRequiredEndOfKeyRange)
      else (i + int (length (takeWhile (\<lambda>n. sEndOfKeyRange n \<le> token) ns)), None))"
  by (induction i ns token rule: insert_loop.induct) auto

lemma shift_insert_eq:
  assumes "index < length nodes"
  shows "shift_insert index node nodes = take index nodes @ node # drop index nodes"
proof -
  have "take (length nodes - index) (drop index (nodes @ [zeroStorageNode])) = drop index nodes"
    using assms by simp
  moreover have "take (index + 1) (nodes @ [zeroStorageNode]) = take index nodes @ [nodes ! index]"
    using assms by (simp add: take_Suc_conv_app_nth)
  ultimately show ?thesis
    using assms by (simp add: shift_insert_def Let_def list_update_append)
qed

lemma remove_loop_spec:
  "remove_loop i ns node = - 1 \<and> (\<forall>n \<in> set ns. \<not> (sEndOfKeyRange n = sEndOfKeyRange node \<and> sHost n = sHost node))
   \<or> (\<exists>j < length ns. remove_loop i ns node = i + int j
        \<and> sEndOfKeyRange (ns ! j) = sEndOfKeyRange node \<and> sHost (ns ! j) = sHost node)"
proof (induction i ns node rule: remove_loop.induct)
  case (2 i x xs node)
  show ?case
  proof (cases "sEndOfKeyRange x = sEndOfKeyRange node \<and> sHost x = sHost node")
    case True
    then show ?thesis by auto
  next
    case False
    from 2 [OF False] show ?thesis
    proof
      assume "\<exists>j < length xs. remove_loop (i + 1) xs node = i + 1 + int j
        \<and> sEndOfKeyRange (xs ! j) = sEndOfKeyRange node \<and> sHost (xs ! j) = sHost node"
      then obtain j where "j < length xs" "remove_loop (i + 1) xs node = i + 1 + int j"
        "sEndOfKeyRange (xs ! j) = sEndOfKeyRange node" "sHost (xs ! j) = sHost node" by blast
      then show ?thesis using False by (intro disjI2 exI [of _ "Suc j"]) auto
    qed (use False in auto)
  qed
qed simp

lemma sorted_wrt_remove_nth:
  assumes "sorted_wrt P xs"
  shows "sorted_wrt P (take n xs @ drop (Suc n) xs)"
proof (cases "drop n xs")
  case Nil
  then show ?thesis using assms by (simp add: sorted_wrt_take)
next
  case (Cons y ys)
  then have ys: "drop (Suc n) xs = ys" by (metis drop_Suc list.sel(3) tl_drop)
  have "sorted_wrt P (take n xs @ y # ys)" using assms Cons by (metis append_take_drop_id)
  then show ?thesis by (simp add: ys sorted_wrt_append)
qed

lemma sorted_wrt_insert_at:
  assumes "sorted_wrt (<) (xs :: 'a :: order list)" "\<And>x. x \<in> set (take i xs) \<Longrightarrow> x < a"
    "\<And>x. x \<in> set (drop i xs) \<Longrightarrow> a < x"
  shows "sorted_wrt (<) (take i xs @ a # drop i xs)"
proof -
  have "sorted_wrt (<) (take i xs)" "sorted_wrt (<) (drop i xs)"
    using assms(1) by (simp_all add: sorted_wrt_take sorted_wrt_drop)
  then show ?thesis using assms(2,3) by (auto simp: sorted_wrt_append intro: less_trans [of _ a])
qed

lemma FindInsertIndex_NoneD:
  assumes "FindInsertIndex ns token = (i, None)" "ns \<noteq> []"
    "sorted_wrt (<) (map sEndOfKeyRange ns)"
  shows "nat i < length ns \<and> token \<notin> sEndOfKeyRange ` set ns
    \<and> (\<forall>n \<in> set (take (nat i) ns). sEndOfKeyRange n < token)
    \<and> (\<forall>n \<in> set (drop (nat i) ns). token < sEndOfKeyRange n)"
proof -
  let ?p = "\<lambda>n. sEndOfKeyRange n \<le> token"
  let ?k = "length (takeWhile ?p ns)"
  have notin: "token \<notin> sEndOfKeyRange ` set (takeWhile ?p ns)" and notall: "\<not> list_all ?p ns"
    and i: "i = int ?k"
    using assms(1,2) by (auto simp: FindInsertIndex_def insert_loop_spec split: if_splits)
  have lt: "?k < length ns"
  proof (rule ccontr)
    assume "\<not> ?k < length ns"
    then have "takeWhile ?p ns = ns" by (subst takeWhile_eq_take) simp
    then show False using notall by (simp add: list_all_iff takeWhile_eq_all_conv)
  qed
  have tk: "take ?k ns = takeWhile ?p ns" by (simp add: takeWhile_eq_take [symmetric])
  have below: "\<forall>n \<in> set (take ?k ns). sEndOfKeyRange n < token"
    using notin by (fastforce simp: tk dest: set_takeWhileD)
  have kth: "token < sEndOfKeyRange (ns ! ?k)"
    using nth_length_takeWhile [OF lt] by simp
  have above: "token < sEndOfKeyRange n" if "n \<in> set (drop ?k ns)" for n
  proof -
    obtain j where j: "j < length ns - ?k" "n = ns ! (?k + j)"
      using \<open>n \<in> set (drop ?k ns)\<close> by (auto simp: in_set_conv_nth)
    have "sEndOfKeyRange (ns ! ?k) \<le> sEndOfKeyRange (ns ! (?k + j))"
      using assms(3) j(1) lt by (cases j) (auto simp: sorted_wrt_iff_nth_less less_imp_le)
    then show ?thesis using kth j(2) by simp
  qed
  have "token \<notin> sEndOfKeyRange ` set ns"
  proof
    assume "token \<in> sEndOfKeyRange ` set ns"
    then obtain n where n: "n \<in> set ns" "token = sEndOfKeyRange n" by blast
    from n(1) have "n \<in> set (take ?k ns @ drop ?k ns)" by simp
    then consider "n \<in> set (take ?k ns)" | "n \<in> set (drop ?k ns)" unfolding set_append by blast
    then show False using below above n(2) by cases auto
  qed
  then show ?thesis using lt below above i by simp
qed

subsection \<open>The effect of each operation\<close>

lemma AddNode_eq:
  assumes "AddNode c node = (c', r)" "cluster_wf c"
  shows "case r of
      Some _ \<Rightarrow> c' = c
    | None \<Rightarrow> \<exists>i \<le> length (cNodes c).
        cNodes c' = take i (cNodes c) @ node # drop i (cNodes c) \<and> cluster_wf c'"
proof (cases "cNodes c = []")
  case True
  then show ?thesis using assms by (auto simp: AddNode_def cluster_wf_def split: if_splits)
next
  case False
  obtain i r' where f: "FindInsertIndex (cNodes c) (sEndOfKeyRange node) = (i, r')" by fastforce
  show ?thesis
  proof (cases r')
    case (Some e)
    then show ?thesis using assms False f by (auto simp: AddNode_def)
  next
    case None
    let ?k = "nat i"
    have s: "sorted_wrt (<) (map sEndOfKeyRange (cNodes c))"
      using assms(2) by (simp add: cluster_wf_def)
    note F = FindInsertIndex_NoneD [OF f [unfolded None] False s]
    have c': "c' = c\<lparr>cNodes := take ?k (cNodes c) @ node # drop ?k (cNodes c)\<rparr>" "r = None"
      using assms(1) False f None F by (auto simp: AddNode_def shift_insert_eq)
    have "sorted_wrt (<) (take ?k (map sEndOfKeyRange (cNodes c)) @ sEndOfKeyRange node
            # drop ?k (map sEndOfKeyRange (cNodes c)))"
      by (rule sorted_wrt_insert_at [OF s]) (use F in \<open>auto simp: take_map drop_map\<close>)
    then have "cluster_wf c'"
      using assms(2) F False by (auto simp: cluster_wf_def c' take_map drop_map)
    then show ?thesis using c' F by (auto intro!: exI [of _ ?k])
  qed
qed

lemma sorted_wrt_butlast_raise:
  assumes "sorted_wrt (<) (xs @ [a, b :: u64])"
  shows "sorted_wrt (<) (xs @ [b])"
  using assms by (auto simp: sorted_wrt_append)

end
