(* ===== verification/Cluster_Props.thy ===== *)
theory Cluster_Props
  imports Coordinator
begin

section \<open>Properties of the deprecated coordinator\<close>

text \<open>
  The contracts of \<open>AddNode\<close> and \<open>RemoveNode\<close> on every branch, and what holds in every state the
  two handlers can reach: the ring is well formed, and no lookup ever finds a node, because the
  handler that adds a node leaves its state empty.
\<close>

subsection \<open>Contracts\<close>

lemma cluster_wf_bound:
  assumes "cluster_wf c" "n \<in> set (cNodes c)"
  shows "sEndOfKeyRange n \<le> TOTAL_SLOTS"
  by (simp add: TOTAL_SLOTS_max)

lemma FindInsertIndex_Some:
  assumes "ns \<noteq> []" "sEndOfKeyRange (last ns) = TOTAL_SLOTS"
    "FindInsertIndex ns token = (i, Some e)"
  shows "e = ErrNodeAlrExistWithEndOfKeyRange \<and> token \<in> sEndOfKeyRange ` set ns"
proof (cases "token \<in> sEndOfKeyRange ` set (takeWhile (\<lambda>n. sEndOfKeyRange n \<le> token) ns)")
  case True
  then show ?thesis
    using assms by (auto simp: FindInsertIndex_def insert_loop_spec dest: set_takeWhileD)
next
  case False
  then have all: "list_all (\<lambda>n. sEndOfKeyRange n \<le> token) ns"
    using assms by (auto simp: FindInsertIndex_def insert_loop_spec split: if_splits)
  then have tw: "takeWhile (\<lambda>n. sEndOfKeyRange n \<le> token) ns = ns"
    by (simp add: takeWhile_eq_all_conv list_all_iff)
  have "last ns \<in> set ns" using assms(1) by simp
  moreover from this all have "sEndOfKeyRange (last ns) = token"
    using assms(2) by (auto simp: list_all_iff TOTAL_SLOTS_max order_antisym)
  ultimately show ?thesis using False tw by auto
qed

lemma AddNode_accepts:
  assumes "cluster_wf c"
  shows "snd (AddNode c node) = None \<longleftrightarrow>
    (if cNodes c = [] then sEndOfKeyRange node = TOTAL_SLOTS
     else sEndOfKeyRange node \<notin> sEndOfKeyRange ` set (cNodes c))"
proof (cases "cNodes c = []")
  case False
  obtain i r where f: "FindInsertIndex (cNodes c) (sEndOfKeyRange node) = (i, r)" by fastforce
  show ?thesis
  proof (cases r)
    case None
    then show ?thesis
      using FindInsertIndex_NoneD [of "cNodes c" "sEndOfKeyRange node" i] f False assms
      by (simp add: AddNode_def cluster_wf_def)
  next
    case (Some e)
    then show ?thesis
      using FindInsertIndex_Some [of "cNodes c" "sEndOfKeyRange node" i e] f False assms
      by (simp add: AddNode_def cluster_wf_def)
  qed
qed (simp add: AddNode_def)

lemma AddNode_cases:
  assumes "cluster_wf c"
  obtains (rejected) e where "AddNode c node = (c, Some e)"
  | (added) i c' where "AddNode c node = (c', None)" "cluster_wf c'"
      "cNodes c' = take i (cNodes c) @ node # drop i (cNodes c)"
proof -
  obtain c' r where r: "AddNode c node = (c', r)" by fastforce
  from AddNode_eq [OF r assms] r rejected added show thesis by (cases r) auto
qed

lemma AddNode_wf [inv_intros]: "cluster_wf c \<Longrightarrow> cluster_wf (fst (AddNode c node))"
  by (cases rule: AddNode_cases [of c node]) simp_all

lemma AddNode_set:
  "cluster_wf c \<Longrightarrow> set (cNodes (fst (AddNode c node))) \<subseteq> insert node (set (cNodes c))"
  by (cases rule: AddNode_cases [of c node]) (auto dest: in_set_takeD in_set_dropD)

text \<open>\<open>RemoveNode\<close>, by the position of the node it finds.\<close>

definition matches :: "StorageNode \<Rightarrow> StorageNode \<Rightarrow> bool" where
  "matches node n \<longleftrightarrow> sEndOfKeyRange n = sEndOfKeyRange node \<and> sHost n = sHost node"

lemma RemoveNode_cases:
  obtains (missing) "\<forall>n \<in> set (cNodes c). \<not> matches node n"
      "RemoveNode c node = (c, Ret (Some ErrNodeNotFound))"
  | (only) n where "cNodes c = [n]" "matches node n"
      "RemoveNode c node = (c\<lparr>cNodes := []\<rparr>, Panic IndexOutOfRange)"
  | (last) xs p n where "cNodes c = xs @ [p, n]" "matches node n"
      "RemoveNode c node = (c\<lparr>cNodes := xs @ [p\<lparr>sEndOfKeyRange := sEndOfKeyRange node\<rparr>]\<rparr>, Ret None)"
  | (inner) xs n ys where "cNodes c = xs @ n # ys" "ys \<noteq> []" "matches node n"
      "RemoveNode c node = (c\<lparr>cNodes := xs @ ys\<rparr>, Ret None)"
proof -
  consider "remove_loop 0 (cNodes c) node = - 1" "\<forall>n \<in> set (cNodes c). \<not> matches node n"
    | j where "j < length (cNodes c)" "remove_loop 0 (cNodes c) node = int j"
        "matches node (cNodes c ! j)"
    using remove_loop_spec [of 0 "cNodes c" node] by (auto simp: matches_def)
  then show thesis
  proof cases
    case 1
    then show thesis by (intro missing) (simp_all add: RemoveNode_def Let_def)
  next
    case (2 j)
    define xs n ys where d: "xs = take j (cNodes c)" "n = cNodes c ! j" "ys = drop (Suc j) (cNodes c)"
    have split: "cNodes c = xs @ n # ys" and len: "length xs = j"
      using 2(1) by (simp_all add: d id_take_nth_drop [symmetric])
    show thesis
    proof (cases "ys = []")
      case False
      then show thesis
        using 2(2,3) len
        by (intro inner [OF split])
           (simp_all add: d(2) [symmetric] RemoveNode_def Let_def split nth_append)
    next
      case True
      show thesis
      proof (cases xs rule: rev_cases)
        case Nil
        then show thesis
          using 2(2,3) True len split
          by (intro only [of n]) (simp_all add: d(2) [symmetric] RemoveNode_def Let_def)
      next
        case (snoc zs p)
        have j: "j = Suc (length zs)" using len snoc by simp
        show thesis
          using 2(2,3) True split snoc
          by (intro last [of zs p n]) (simp_all add: j RemoveNode_def Let_def list_update_append nth_append nat_add_distrib)
      qed
    qed
  qed
qed

lemma RemoveNode_wf [inv_intros]: "cluster_wf c \<Longrightarrow> cluster_wf (fst (RemoveNode c node))"
  by (cases rule: RemoveNode_cases [of c node])
     (auto simp: cluster_wf_def matches_def sorted_wrt_append)

lemma RemoveNode_set_state:
  assumes "\<forall>n \<in> set (cNodes c). sState n = []"
  shows "\<forall>n \<in> set (cNodes (fst (RemoveNode c node))). sState n = []"
  using assms by (cases rule: RemoveNode_cases [of c node]) auto

lemma RemoveNode_coverage:
  assumes "cluster_wf c" "RemoveNode c node = (c', Ret None)"
  shows "\<forall>token < TOTAL_SLOTS. \<exists>n \<in> set (cNodes c'). token < sEndOfKeyRange n"
proof (intro allI impI)
  fix token assume t: "token < TOTAL_SLOTS"
  have "cluster_wf c'" using RemoveNode_wf [OF assms(1), of node] assms(2) by simp
  moreover have "cNodes c' \<noteq> []"
    using assms(2) by (cases rule: RemoveNode_cases [of c node]) auto
  ultimately show "\<exists>n \<in> set (cNodes c'). token < sEndOfKeyRange n"
    using t by (auto simp: cluster_wf_def intro!: bexI [of _ "last (cNodes c')"])
qed

text \<open>
  The contract of \<open>AddNode\<close> on a well-formed cluster: it accepts the first node exactly when
  its range ends at the greatest token, and a later node exactly when its range end is new. Accepted,
  the node is inserted and no other node is lost or changed; rejected, nothing changes. Either way
  the range ends stay strictly increasing up to the greatest token.
\<close>

theorem AddNode_contract:
  assumes "cluster_wf c"
  shows "cluster_wf (fst (AddNode c node))
    \<and> (snd (AddNode c node) = None \<longleftrightarrow>
         (if cNodes c = [] then sEndOfKeyRange node = TOTAL_SLOTS
          else sEndOfKeyRange node \<notin> sEndOfKeyRange ` set (cNodes c)))
    \<and> (if snd (AddNode c node) = None
       then mset (cNodes (fst (AddNode c node))) = add_mset node (mset (cNodes c))
       else fst (AddNode c node) = c)"
proof -
  have "mset (take i (cNodes c) @ node # drop i (cNodes c)) = add_mset node (mset (cNodes c))" for i
    by (metis append_take_drop_id mset.simps(2) mset_append union_mset_add_mset_right)
  then show ?thesis
    unfolding AddNode_accepts [OF assms, symmetric]
    by (cases rule: AddNode_cases [OF assms, of node]) (simp_all add: assms del: mset_append)
qed

text \<open>
  The contract of \<open>RemoveNode\<close>: a node that is not there is an error and changes nothing; the
  only node of the cluster makes the handler panic, with the slice already emptied; otherwise one
  node disappears, and every token below the greatest is still below some range end. The ring stays
  well formed on all three branches.
\<close>

theorem RemoveNode_contract:
  assumes "cluster_wf c"
  shows "cluster_wf (fst (RemoveNode c node))
    \<and> (if \<forall>n \<in> set (cNodes c). \<not> matches node n
       then RemoveNode c node = (c, Ret (Some ErrNodeNotFound))
       else if length (cNodes c) = 1
       then RemoveNode c node = (c\<lparr>cNodes := []\<rparr>, Panic IndexOutOfRange)
       else snd (RemoveNode c node) = Ret None
         \<and> length (cNodes (fst (RemoveNode c node))) + 1 = length (cNodes c)
         \<and> (\<forall>token < TOTAL_SLOTS. \<exists>n \<in> set (cNodes (fst (RemoveNode c node))).
              token < sEndOfKeyRange n))"
proof (cases rule: RemoveNode_cases [of c node])
  case missing
  then show ?thesis using assms by simp
next
  case (only n)
  then show ?thesis using RemoveNode_wf [OF assms, of node] by simp
next
  case (last xs p n)
  then show ?thesis
    using RemoveNode_wf [OF assms, of node] RemoveNode_coverage [OF assms last(3)] by auto
next
  case (inner xs n ys)
  then show ?thesis
    using RemoveNode_wf [OF assms, of node] RemoveNode_coverage [OF assms inner(4)] by auto
qed

definition sample_cluster :: Cluster where
  "sample_cluster =
     \<lparr>cNodes = [\<lparr>sId = ''a'', sEndOfKeyRange = 100, sHost = ''h1'', sState = []\<rparr>,
                \<lparr>sId = ''b'', sEndOfKeyRange = TOTAL_SLOTS, sHost = ''h2'', sState = []\<rparr>],
      cTotalSlots = TOTAL_SLOTS\<rparr>"

lemma sample_cluster_wf: "cluster_wf sample_cluster"
  by (simp add: cluster_wf_def sample_cluster_def TOTAL_SLOTS_def)

lemma AddNode_contract_witness:
  "snd (AddNode sample_cluster \<lparr>sId = ''c'', sEndOfKeyRange = 50, sHost = ''h3'', sState = []\<rparr>) = None
   \<and> snd (AddNode sample_cluster \<lparr>sId = ''c'', sEndOfKeyRange = 100, sHost = ''h3'', sState = []\<rparr>)
       \<noteq> None"
  using AddNode_contract [OF sample_cluster_wf,
      of "\<lparr>sId = ''c'', sEndOfKeyRange = 50, sHost = ''h3'', sState = []\<rparr>"]
    AddNode_contract [OF sample_cluster_wf,
      of "\<lparr>sId = ''c'', sEndOfKeyRange = 100, sHost = ''h3'', sState = []\<rparr>"]
  by (simp add: sample_cluster_def TOTAL_SLOTS_def)

lemma RemoveNode_contract_witness:
  "snd (RemoveNode sample_cluster \<lparr>sId = [], sEndOfKeyRange = 100, sHost = ''h1'', sState = []\<rparr>)
     = Ret None"
  using RemoveNode_contract [OF sample_cluster_wf,
      of "\<lparr>sId = [], sEndOfKeyRange = 100, sHost = ''h1'', sState = []\<rparr>"]
  by (simp add: sample_cluster_def matches_def)

subsection \<open>Reachable states\<close>

text \<open>
  The global \<open>cluster\<close> under the two handlers that change it. A panic in a handler ends the
  request (gin recovers it) and leaves the state the handler had reached.
\<close>

inductive cluster_step :: "(rat \<Rightarrow> u64) \<Rightarrow> Cluster \<Rightarrow> Cluster \<Rightarrow> bool" for conv where
  step_addnode:
    "addnode conv idStr now c body = Ret (c', status, e, inits, gossips) \<Longrightarrow> cluster_step conv c c'"
| step_addnode_panics: "addnode conv idStr now c body = Panic p \<Longrightarrow> cluster_step conv c c"
| step_removenode: "removenode conv c body = (c', r) \<Longrightarrow> cluster_step conv c c'"

inductive cluster_reachable :: "(rat \<Rightarrow> u64) \<Rightarrow> Cluster \<Rightarrow> bool" for conv where
  reach_init: "cluster_reachable conv (NewCluster host)"
| reach_step: "cluster_reachable conv c \<Longrightarrow> cluster_step conv c c' \<Longrightarrow> cluster_reachable conv c'"

inductive_cases cluster_stepE: "cluster_step conv c c'"

lemma addnode_state:
  assumes "addnode conv idStr now c body = Ret (c', status, e, inits, gossips)"
  shows "\<exists>node. sState node = [] \<and> c' = fst (AddNode c node)"
proof -
  obtain host x where
    eq: "(let node = \<lparr>sId = idStr, sEndOfKeyRange = uint64_of_float conv x, sHost = host, sState = []\<rparr>
      in case AddNode c node of
        (c', Some err) \<Rightarrow> Ret (c', 400, Some err, [], [])
      | (c', None) \<Rightarrow> Ret (c', 200, None, [InitNode node], BroadCastNode now c' node))
     = Ret (c', status, e, inits, gossips)"
    using assms unfolding addnode_def bind_outcome_eq_Ret by blast
  let ?node = "\<lparr>sId = idStr, sEndOfKeyRange = uint64_of_float conv x, sHost = host, sState = []\<rparr>"
  from eq have "c' = fst (AddNode c ?node)" by (auto simp: Let_def split: prod.splits option.splits)
  then show ?thesis by (intro exI [of _ ?node]) simp
qed

text \<open>A step of either handler is \<open>AddNode\<close> of a node without a state, \<open>RemoveNode\<close>, or nothing.\<close>

lemma cluster_step_cases:
  assumes "cluster_step conv c c'"
  obtains (add) node where "sState node = []" "c' = fst (AddNode c node)"
  | (remove) node where "c' = fst (RemoveNode c node)"
  | (stutter) "c' = c"
  using assms(1)
proof (cases rule: cluster_step.cases)
  case (step_addnode idStr now body status e inits gossips)
  then obtain node where "sState node = []" "c' = fst (AddNode c node)"
    using addnode_state by blast
  then show thesis by (rule add)
next
  case (step_removenode body r)
  then show thesis using remove stutter
    by (auto simp: removenode_def split: outcome.splits prod.splits) (metis fst_conv)
qed (rule stutter)

lemma cluster_step_wf [inv_intros]: "cluster_step conv c c' \<Longrightarrow> cluster_wf c \<Longrightarrow> cluster_wf c'"
  by (cases rule: cluster_step_cases) (auto intro: inv_intros)

lemma cluster_step_states:
  assumes "cluster_step conv c c'" "cluster_wf c" "\<forall>n \<in> set (cNodes c). sState n = []"
  shows "\<forall>n \<in> set (cNodes c'). sState n = []"
  using assms(1)
proof (cases rule: cluster_step_cases)
  case (add node)
  then show ?thesis using AddNode_set [OF assms(2), of node] assms(3) by auto
qed (use assms(3) RemoveNode_set_state in auto)

lemma cluster_reachable_invariant:
  "cluster_reachable conv c \<Longrightarrow> cluster_wf c \<and> (\<forall>n \<in> set (cNodes c). sState n = [])"
proof (induction rule: cluster_reachable.induct)
  case (reach_init host)
  show ?case by (simp add: cluster_wf_def NewCluster_def)
next
  case (reach_step c c')
  then show ?case using cluster_step_wf cluster_step_states by blast
qed

text \<open>
  C40. In every state the coordinator can reach, from the empty cluster, by any sequence of add and
  remove requests with any bodies, including those that panic, the range ends are strictly
  increasing and the last one is the greatest token.
\<close>

theorem cluster_reachable_wf:
  assumes "cluster_reachable conv c"
  shows "cluster_wf c \<and> distinct (map sEndOfKeyRange (cNodes c))"
  using cluster_reachable_invariant [OF assms] strict_sorted_iff
  by (auto simp: cluster_wf_def)

text \<open>
  In none of these states does \<open>nodedetail\<close> find the owner of a key: \<open>addnode\<close> leaves the
  state of the node empty, and the lookup considers only available nodes.
\<close>

theorem nodedetail_finds_no_node:
  assumes "cluster_reachable conv c"
  shows "nodedetail c key = Ret (200, Inl ErrNoNodeWithRequiredEndOfKeyRange)"
proof -
  have "find (is_candidate sEndOfKeyRange sState (token_of key)) (cNodes c) = None"
    using cluster_reachable_invariant [OF assms] by (auto simp: find_None_iff is_candidate_def)
  then show ?thesis by (simp add: nodedetail_def Cluster_GetNode_def GetNode_find)
qed

definition sample_body :: "(string \<times> json) list" where
  "sample_body = [(''Host'', JStr ''h1''), (''EndOfKeyRange'', JNum (2 ^ 64))]"

lemma sample_reachable:
  "cluster_reachable (\<lambda>_. TOTAL_SLOTS)
     \<lparr>cNodes = [\<lparr>sId = ''id'', sEndOfKeyRange = TOTAL_SLOTS, sHost = ''h1'', sState = []\<rparr>],
      cTotalSlots = TOTAL_SLOTS\<rparr>"
proof (rule reach_step [OF reach_init [of _ "''h''"]])
  have "\<exists>st e i g. addnode (\<lambda>_. TOTAL_SLOTS) ''id'' 0 (NewCluster ''h'') (Some sample_body) =
    Ret (\<lparr>cNodes = [\<lparr>sId = ''id'', sEndOfKeyRange = TOTAL_SLOTS, sHost = ''h1'', sState = []\<rparr>],
          cTotalSlots = TOTAL_SLOTS\<rparr>, st, e, i, g)"
    by (simp add: addnode_def sample_body_def body_field_def assert_string_def assert_float_def
        uint64_of_float_def AddNode_def NewCluster_def TOTAL_SLOTS_def Let_def)
  then show "cluster_step (\<lambda>_. TOTAL_SLOTS) (NewCluster ''h'')
     \<lparr>cNodes = [\<lparr>sId = ''id'', sEndOfKeyRange = TOTAL_SLOTS, sHost = ''h1'', sState = []\<rparr>],
      cTotalSlots = TOTAL_SLOTS\<rparr>"
    by (blast intro: step_addnode)
qed

lemma cluster_reachable_wf_witness:
  "cluster_wf \<lparr>cNodes = [\<lparr>sId = ''id'', sEndOfKeyRange = TOTAL_SLOTS, sHost = ''h1'', sState = []\<rparr>],
      cTotalSlots = TOTAL_SLOTS\<rparr>"
  using cluster_reachable_wf [OF sample_reachable] by blast

lemma nodedetail_finds_no_node_witness:
  "nodedetail \<lparr>cNodes = [\<lparr>sId = ''id'', sEndOfKeyRange = TOTAL_SLOTS, sHost = ''h1'', sState = []\<rparr>],
      cTotalSlots = TOTAL_SLOTS\<rparr> ''key'' = Ret (200, Inl ErrNoNodeWithRequiredEndOfKeyRange)"
  by (rule nodedetail_finds_no_node [OF sample_reachable])

end
