(* ===== verification/Http.thy ===== *)
theory Http
  imports Api_Client
begin

section \<open>Requests, routes and recovered panics\<close>

text \<open>
  The HTTP side that both programs share: a request as the server sees it, a table of routes, and
  what \<open>gin.Recovery\<close> makes of a handler that panics. gin itself is outside the model: how it makes
  an absolute path of a registered one is the parameter \<open>absolute\<close> of \<open>route\<close>, and \<open>joins\<close> is what its
  documentation says of it, for paths without repeated slashes. A route is chosen by the method and
  the whole path.

  The body is kept as its bytes: each handler decodes it into what it expects, and the decoders are
  parameters of the handlers.
\<close>

subsection \<open>Requests\<close>

datatype http_method = GET | POST | DELETE

record http_request =
  hrMethod :: http_method
  hrUrl :: string
  hrBody :: string

text \<open>
  What \<open>net/http\<close> takes for a request. A URL is written into the request line as it is: a space in it
  ends the URI too early, and the server answers 400 before any handler is called. A control character
  is refused already by the client, and by the server if it gets there. The fragment is not sent.
\<close>

definition control_char :: "char \<Rightarrow> bool" where
  "control_char c \<longleftrightarrow> (of_char c :: nat) < 32 \<or> of_char c = (127 :: nat)"

definition request_line_ok :: "string \<Rightarrow> bool" where
  "request_line_ok url \<longleftrightarrow>
     list_all (\<lambda>c. \<not> control_char c) url \<and> CHR '' '' \<notin> set (fst (cut (CHR ''#'') url))"

text \<open>The path of an absolute URL: from the slash after the authority up to the query.\<close>

fun skip_scheme :: "string \<Rightarrow> string" where
  "skip_scheme [] = []"
| "skip_scheme (c # cs) = (if take 3 (c # cs) = ''://'' then drop 2 cs else skip_scheme cs)"

definition url_path :: "string \<Rightarrow> string" where
  "url_path url =
     dropWhile (\<lambda>c. c \<noteq> CHR ''/'') (skip_scheme (fst (cut (CHR ''?'') (fst (cut (CHR ''#'') url)))))"

subsection \<open>Routes\<close>

definition joins :: "(string \<Rightarrow> string) \<Rightarrow> string \<Rightarrow> bool" where
  "joins absolute p \<longleftrightarrow> absolute p = (if take 1 p = ''/'' then p else CHR ''/'' # p)"

fun route :: "(string \<Rightarrow> string) \<Rightarrow> (http_method \<times> string \<times> 'e) list \<Rightarrow> http_method \<Rightarrow> string \<Rightarrow> 'e option" where
  "route absolute [] m path = None"
| "route absolute ((m', p, e) # rs) m path =
     (if m' = m \<and> absolute p = path then Some e else route absolute rs m path)"

text \<open>What becomes of a request: its line is broken, no route leads to a handler, or one does.\<close>

datatype 'e dispatched = Malformed | Unrouted | Handler 'e

definition dispatch ::
    "(string \<Rightarrow> string) \<Rightarrow> (http_method \<times> string \<times> 'e) list \<Rightarrow> http_method \<Rightarrow> string \<Rightarrow> 'e dispatched" where
  "dispatch absolute rs m url =
     (if \<not> request_line_ok url then Malformed
      else case route absolute rs m (url_path url) of None \<Rightarrow> Unrouted | Some e \<Rightarrow> Handler e)"

text \<open>The status and the body a client sees.\<close>

definition recovered :: "(nat \<times> 'r) outcome \<Rightarrow> nat \<times> 'r option" where
  "recovered out = (case out of Ret (status, r) \<Rightarrow> (status, Some r) | Panic p \<Rightarrow> (500, None))"

subsection \<open>Paths of the requests this repository sends\<close>

text \<open>Characters that leave a request line whole.\<close>

definition plain :: "string \<Rightarrow> bool" where
  "plain s \<longleftrightarrow> list_all (\<lambda>c. \<not> control_char c \<and> c \<noteq> CHR '' '') s"

text \<open>A host as nodes are started with: the scheme and an authority.\<close>

definition http_host :: "string \<Rightarrow> bool" where
  "http_host h \<longleftrightarrow>
     take 7 h = ''http://'' \<and> CHR ''/'' \<notin> set (drop 7 h) \<and> CHR ''?'' \<notin> set h \<and> CHR ''#'' \<notin> set h \<and> plain h"

lemma plain_simps [simp]:
  "plain []" "plain (c # s) \<longleftrightarrow> \<not> control_char c \<and> c \<noteq> CHR '' '' \<and> plain s" "plain (a @ b) \<longleftrightarrow> plain a \<and> plain b"
  by (auto simp: plain_def)

lemma url_safe_plain:
  assumes "url_safe s"
  shows "plain s"
proof -
  have "\<not> control_char c \<and> c \<noteq> CHR '' ''" if "(33 :: nat) \<le> of_char c" "(of_char c :: nat) \<le> 126" for c
    using that by (cases "c = CHR '' ''") (simp_all add: control_char_def)
  then show ?thesis using assms by (simp add: url_safe_def plain_def list_all_iff)
qed

lemma plain_join: "\<not> control_char sep \<Longrightarrow> sep \<noteq> CHR '' '' \<Longrightarrow> \<forall>w \<in> set ws. plain w \<Longrightarrow> plain (join sep ws)"
  by (induction sep ws rule: join.induct) simp_all

lemma cut_subset: "set (fst (cut sep xs)) \<subseteq> set xs"
  by (induction xs) (auto split: prod.splits)

lemma request_line_plain: "plain url \<Longrightarrow> request_line_ok url"
  using cut_subset [of "CHR ''#''" url] by (auto simp: plain_def request_line_ok_def list_all_iff)

text \<open>A query string is plain if its parameters are; a space in one of them is in the query.\<close>

lemma plain_MapToQueryParamStr:
  "\<forall>(k, v) \<in> set m. plain k \<and> plain v \<Longrightarrow> plain (MapToQueryParamStr c m)"
  by (fastforce simp: MapToQueryParamStr_eq pair_string_def control_char_def intro!: plain_join)

lemma set_join_subset: "w \<in> set ws \<Longrightarrow> set w \<subseteq> set (join sep ws)"
  by (induction sep ws rule: join.induct) auto

lemma space_breaks_request_line:
  assumes "(k, v) \<in> set m" "CHR '' '' \<in> set k \<union> set v" "\<forall>(k, v) \<in> set m. CHR ''#'' \<notin> set k \<and> CHR ''#'' \<notin> set v"
    and "CHR ''#'' \<notin> set h"
  shows "\<not> request_line_ok (h @ MapToQueryParamStr c m)"
proof -
  let ?ws = "map pair_string (permute c m)"
  have m: "m \<noteq> []" using assms(1) by auto
  have "CHR ''#'' \<notin> set (join (CHR ''&'') ?ws)"
    using assms(3) by (intro notin_join) (auto simp: pair_string_def)
  then have "CHR ''#'' \<notin> set (h @ MapToQueryParamStr c m)" using assms(4) m by (simp add: MapToQueryParamStr_eq)
  moreover have "pair_string (k, v) \<in> set ?ws" using assms(1) by simp
  from set_join_subset [OF this, of "CHR ''&''"] have "CHR '' '' \<in> set (MapToQueryParamStr c m)"
    using assms(2) m by (auto simp: MapToQueryParamStr_eq pair_string_def)
  ultimately show ?thesis by (simp add: request_line_ok_def)
qed

lemma skip_scheme_http: "take 7 h = ''http://'' \<Longrightarrow> skip_scheme (h @ r) = drop 7 h @ r"
proof -
  assume "take 7 h = ''http://''"
  then have h: "h = ''http://'' @ drop 7 h" using append_take_drop_id [of 7 h] by simp
  have "skip_scheme (''http://'' @ w) = w" for w by simp
  from this [of "drop 7 h @ r"] show ?thesis by (subst h) simp
qed

lemma url_path_host:
  assumes "http_host h" and "CHR ''?'' \<notin> set p" "CHR ''#'' \<notin> set p" "take 1 p = ''/''"
    and "q = [] \<or> hd q = CHR ''?''"
  shows "url_path (h @ p @ q) = p"
proof -
  have h: "take 7 h = ''http://''" "CHR ''/'' \<notin> set (drop 7 h)"
    and n: "CHR ''?'' \<notin> set h" "CHR ''#'' \<notin> set h"
    using assms(1) by (simp_all add: http_host_def)
  have "fst (cut (CHR ''?'') (fst (cut (CHR ''#'') (h @ p @ q)))) = h @ p"
  proof (cases q)
    case Nil
    then show ?thesis using n assms(2,3) by simp
  next
    case (Cons x xs)
    let ?ys = "fst (cut (CHR ''#'') xs)"
    have step: "fst (cut (CHR ''#'') (w @ CHR ''?'' # xs)) = w @ CHR ''?'' # ?ys"
      if "CHR ''#'' \<notin> set w" for w using that by (induction w) (auto split: prod.splits)
    have "fst (cut (CHR ''#'') ((h @ p) @ CHR ''?'' # xs)) = (h @ p) @ CHR ''?'' # ?ys"
      by (rule step) (use n assms(3) in simp)
    then show ?thesis using Cons n assms(2,5) cut_append [of "CHR ''?''" "h @ p" ?ys] by simp
  qed
  moreover have "dropWhile (\<lambda>c. c \<noteq> CHR ''/'') (drop 7 h @ p) = p"
    using h(2) assms(4) by (cases p) (auto simp: dropWhile_append)
  ultimately show ?thesis by (simp add: url_path_def skip_scheme_http [OF h(1)])
qed

lemma MapToQueryParamStr_start:
  "MapToQueryParamStr c m = [] \<or> hd (MapToQueryParamStr c m) = CHR ''?''"
  by (cases "m = []") (simp_all add: MapToQueryParamStr_eq)

end
