(* ===== verification/Node_Server.thy ===== *)
theory Node_Server
  imports Http Node_Start Snapshot_Stream
begin

section \<open>The server of a node: initRouter and main of nodes/main.go\<close>

text \<open>
  \<open>initRouter\<close> registers every endpoint with its handler; \<open>handle\<close> is a request from its arrival to
  the answer: the request line, the route, the query parameters and the body the handler reads, the
  handler with the write hook it runs, the 404 of a path nobody registered and the 400 of a broken
  request line. The goroutines and the stream a handler starts are returned as values. \<open>node_step\<close> is everything that changes a running process: a request, a tick of the
  broadcast loop of \<open>main\<close>, an event of the bootstrapping stream, the hook a sending stream installs
  and takes away. Handlers run one at a time here; what their critical sections do when they
  interleave is in the concurrency theories and in \<open>Snapshot_Stream\<close>.
\<close>

subsection \<open>Routes\<close>

definition V1_GOSSIP :: string where "V1_GOSSIP = ''v1/gossip''"
definition V1_SNAPSHOT :: string where "V1_SNAPSHOT = ''/v1/snapshot''"
definition updateGossipEndpoint :: string where "updateGossipEndpoint = ''/v1/gossip''"

datatype endpoint =
    EpPing
  | EpMetaDataNode
  | EpPostData
  | EpGetData
  | EpPostReplicaData
  | EpSnapshotStream
  | EpPostGossip
  | EpGetGossip
  | EpMetaDataKey
  | EpSnapShot

definition initRouter :: "(http_method \<times> string \<times> endpoint) list" where
  "initRouter =
     [(GET, ''/ping'', EpPing),
      (GET, V1_METADATA_NODE, EpMetaDataNode),
      (POST, V1_DATA, EpPostData),
      (GET, V1_DATA, EpGetData),
      (POST, V1_REPLICA_DATA, EpPostReplicaData),
      (GET, V1_SNAPSHOT_STREAM, EpSnapshotStream),
      (POST, V1_GOSSIP, EpPostGossip),
      (GET, V1_GOSSIP, EpGetGossip),
      (GET, V1_METDATA_KEY, EpMetaDataKey),
      (GET, V1_SNAPSHOT, EpSnapShot)]"

definition sendGossip_url :: "string \<Rightarrow> string" where
  "sendGossip_url destHost = destHost @ updateGossipEndpoint"

lemmas path_defs =
  V1_GOSSIP_def V1_SNAPSHOT_def updateGossipEndpoint_def V1_METADATA_NODE_def V1_DATA_def
  V1_REPLICA_DATA_def V1_SNAPSHOT_STREAM_def V1_METDATA_KEY_def

subsection \<open>Requests\<close>

text \<open>
  What a request meets outside the program: gin's paths, the JSON decoders of the three kinds of
  body, the format of a time, a conversion of the platform, the answers of other nodes, and what
  becomes of the write hook if the handler calls it: the closure of another goroutine's stream, which
  may return, panic, or block for good.
\<close>

datatype hook_run = HookReturns | HookPanics panic | HookBlocks

record world =
  wAbsolute :: "string \<Rightarrow> string"
  wObject :: "string \<Rightarrow> (string \<times> json) list option"
  wEntries :: "string \<Rightarrow> NodeGossip list option"
  wRaw :: "string \<Rightarrow> HandlePostRawReq option"
  wHook :: "mutation \<Rightarrow> hook_run"
  wFmt :: "time \<Rightarrow> string"
  wConv :: "nat option \<Rightarrow> u64"
  wPostRedirect :: "PostDataResponse exchange"
  wGetRedirect :: "GetDataResponse exchange"
  wPostFanout :: "NodeGossip list \<Rightarrow> int \<Rightarrow> (NodeGossip \<times> error option) list"
  wGetFanout :: "NodeGossip list \<Rightarrow> int \<Rightarrow> (GetDataResponse option \<times> error option) list"

datatype response =
    Pong
  | MetaDataOfNode "(string \<times> json) list"
  | Data reply
  | GossipReply gossip_response
  | KeyReply key_response
  | SnapshotReply "(string \<times> StoreEntry list) list"
  | EventStream
  | NotFound
  | BadRequest

text \<open>What a handler leaves running: its goroutines, or the sending of a snapshot to a node.\<close>

datatype running = Go goroutine | SendSnapshotTo string

text \<open>No outcome at all stands for a handler that never returns.\<close>

type_synonym 'h served = "'h Process \<times> (nat \<times> response) outcome option \<times> 'h effect list \<times> running list"

definition answer_with :: "('a \<Rightarrow> response) \<Rightarrow> (nat \<times> 'a) outcome \<Rightarrow> (nat \<times> response) outcome" where
  "answer_with f out = bind_outcome out (\<lambda>(status, a). Ret (status, f a))"

text \<open>
  The hook runs inside the handler of a write, after the value has been stored and before the replicas
  are looked up: if it panics the handler panics there, if it blocks the handler never returns, and in
  both cases the effects that come after it do not happen.
\<close>

fun after_hook ::
    "(mutation \<Rightarrow> hook_run) \<Rightarrow> 'r outcome \<Rightarrow> 'h effect list \<Rightarrow> 'r outcome option \<times> 'h effect list" where
  "after_hook run out [] = (Some out, [])"
| "after_hook run out (e # effs) =
     (case e of
        HookCall c \<Rightarrow>
          (case run (snd c) of
             HookReturns \<Rightarrow> (case after_hook run out effs of (o', es) \<Rightarrow> (o', e # es))
           | HookPanics x \<Rightarrow> (Some (Panic x), [e])
           | HookBlocks \<Rightarrow> (None, [e]))
      | _ \<Rightarrow> (case after_hook run out effs of (o', es) \<Rightarrow> (o', e # es)))"

text \<open>
  The hook of a write while a stream is in the given state: it panics or blocks as \<open>call_hook\<close> of
  \<open>Snapshot_Stream\<close> does; a send that has a receiver returns.
\<close>

definition stream_hook_run :: "stream \<Rightarrow> mutation \<Rightarrow> hook_run" where
  "stream_hook_run s m =
     (let s' = call_hook (s\<lparr>ssPanic := None, ssPending := []\<rparr>) m
      in case ssPanic s' of
           Some e \<Rightarrow> HookPanics e
         | None \<Rightarrow> if ssPending s' = [] \<or> (ssOpen s \<and> \<not> ssLiveNil s) then HookReturns else HookBlocks)"

definition serve :: "choices \<Rightarrow> world \<Rightarrow> 'h Process \<Rightarrow> endpoint \<Rightarrow> http_request \<Rightarrow> 'h served" where
  "serve ch w p e rq =
     (let q = Query (hrUrl rq)
      in case e of
           EpPing \<Rightarrow> (p, Some (Ret (200, Pong)), [], [])
         | EpMetaDataNode \<Rightarrow>
             (p, Some (answer_with MetaDataOfNode (Ret (getMetaDataNode (wFmt w) (chRead ch) (pNode p)))), [], [])
         | EpPostData \<Rightarrow>
             (let (p', out, effs) = postData ch p (q ''include'') (q ''writequorum'')
                    (wObject w (hrBody rq)) (wPostRedirect w) (wPostFanout w);
                  (out', effs') = after_hook (wHook w) out effs
              in (p', map_option (answer_with Data) out', effs', []))
         | EpGetData \<Rightarrow>
             (let (out, effs) = getData (wConv w) ch p (q ''include'') (q ''key'') (q ''readquorum'')
                    (wGetRedirect w) (wGetFanout w)
              in (p, Some (answer_with Data out), effs, []))
         | EpPostReplicaData \<Rightarrow>
             (let (p', out, effs) = postReplicaData ch p (wRaw w (hrBody rq));
                  (out', effs') = after_hook (wHook w) out effs
              in (p', map_option (answer_with Data) out', effs', []))
         | EpSnapshotStream \<Rightarrow> (p, Some (Ret (200, EventStream)), [], [SendSnapshotTo (q ''sourceid'')])
         | EpPostGossip \<Rightarrow>
             (let (n, out, started) = postGossip (chRead ch) (pNode p) (wEntries w (hrBody rq))
              in (p\<lparr>pNode := n\<rparr>, Some (answer_with GossipReply (Ret out)), [], map Go started))
         | EpGetGossip \<Rightarrow>
             (p, Some (answer_with GossipReply (Ret (getGossip (chRead ch) (pNode p)))), [], [])
         | EpMetaDataKey \<Rightarrow>
             (p, Some (answer_with KeyReply
                   (getMetaDataKey (chRead ch) (chArr ch) (chSort ch) (pNode p) (q ''key''))), [], [])
         | EpSnapShot \<Rightarrow>
             (let (p', out) = getSnapShot (chStore ch) p
              in (p', Some (answer_with SnapshotReply (Ret out)), [], [])))"

definition handle :: "choices \<Rightarrow> world \<Rightarrow> 'h Process \<Rightarrow> http_request \<Rightarrow> 'h served" where
  "handle ch w p rq =
     (case dispatch (wAbsolute w) initRouter (hrMethod rq) (hrUrl rq) of
        Malformed \<Rightarrow> (p, Some (Ret (400, BadRequest)), [], [])
      | Unrouted \<Rightarrow> (p, Some (Ret (404, NotFound)), [], [])
      | Handler e \<Rightarrow> serve ch w p e rq)"

subsection \<open>A running process\<close>

text \<open>
  A panic of a handler is recovered, and a handler that blocks leaves the process with what it has
  stored; a panic of a goroutine ends the process, and has no step.
\<close>

inductive node_step :: "'h Process \<Rightarrow> 'h Process \<Rightarrow> bool" where
  request: "handle ch w p rq = (p', out, effs, started) \<Longrightarrow> node_step p p'"
| broadcast_tick:
    "BroadcastGossip c c1 c2 now (pNode p) = (n, sends) \<Longrightarrow> node_step p (p\<lparr>pNode := n\<rparr>)"
| bootstrap_event: "apply_event cs p ev = Ret (p', calls) \<Longrightarrow> node_step p p'"
| stream_hook: "node_step p (p\<lparr>pStore := WithPostWriteHook h (pStore p)\<rparr>)"
| stream_reset: "node_step p (p\<lparr>pStore := resetPostWriteHook (pStore p)\<rparr>)"

inductive node_steps :: "'h Process \<Rightarrow> 'h Process \<Rightarrow> bool" for p0 where
  node_refl: "node_steps p0 p0"
| node_next: "node_steps p0 p \<Longrightarrow> node_step p p' \<Longrightarrow> node_steps p0 p'"

inductive_cases node_stepE: "node_step p p'"

end
