(* ===== verification/Server_Props.thy ===== *)
theory Server_Props
  imports Node_Server Peer_Props Start_Props Bootstrap_Props
begin

section \<open>Properties of a node's server\<close>

text \<open>
  Three properties of a whole process: the requests nodes send each other reach the handlers they are
  meant for, a process keeps its invariant and never loses anything through whatever requests, ticks
  and stream events, and when a handler panics or never returns.
\<close>

subsection \<open>Routing\<close>

definition gin_paths :: "(string \<Rightarrow> string) \<Rightarrow> bool" where
  "gin_paths absolute \<longleftrightarrow> list_all (\<lambda>(m, p, e). joins absolute p) initRouter"

lemma routes:
  assumes "gin_paths absolute"
  shows "route absolute initRouter POST V1_DATA = Some EpPostData"
    "route absolute initRouter GET V1_DATA = Some EpGetData"
    "route absolute initRouter POST V1_REPLICA_DATA = Some EpPostReplicaData"
    "route absolute initRouter POST updateGossipEndpoint = Some EpPostGossip"
    "route absolute initRouter GET V1_METADATA_NODE = Some EpMetaDataNode"
    "route absolute initRouter GET V1_SNAPSHOT_STREAM = Some EpSnapshotStream"
  using assms by (simp_all add: gin_paths_def joins_def initRouter_def path_defs)

lemma url_path_endpoint:
  assumes "http_host h" and "q = [] \<or> hd q = CHR ''?''"
  shows "url_path (h @ V1_DATA @ q) = V1_DATA" "url_path (h @ V1_SNAPSHOT_STREAM @ q) = V1_SNAPSHOT_STREAM"
    "url_path (h @ V1_REPLICA_DATA) = V1_REPLICA_DATA" "url_path (h @ V1_METADATA_NODE) = V1_METADATA_NODE"
    "url_path (h @ updateGossipEndpoint) = updateGossipEndpoint"
  using url_path_host [OF assms(1), of V1_DATA q] url_path_host [OF assms(1), of V1_SNAPSHOT_STREAM q]
    url_path_host [OF assms(1), of V1_REPLICA_DATA "[]"] url_path_host [OF assms(1), of V1_METADATA_NODE "[]"]
    url_path_host [OF assms(1), of updateGossipEndpoint "[]"] assms(2)
  by (simp_all add: path_defs)

lemma requests_plain:
  assumes "plain (gHost node)"
  shows "\<forall>(k, v) \<in> set params. plain k \<and> plain v \<Longrightarrow> request_line_ok (gHost node @ V1_DATA @ MapToQueryParamStr c params)"
    "plain sid \<Longrightarrow> request_line_ok (RequestSnapshot_url (gHost node) sid)"
    "request_line_ok (gHost node @ V1_REPLICA_DATA)" "request_line_ok (gHost node @ V1_METADATA_NODE)"
    "request_line_ok (gHost node @ updateGossipEndpoint)"
  using assms plain_MapToQueryParamStr [of params c]
  by (auto intro!: request_line_plain simp: RequestSnapshot_url_def path_defs control_char_def)

text \<open>
  C39. Every request a node sends reaches the handler it is meant for: redirected writes and reads,
  replicated writes, gossip, although it is registered without the leading slash, the seed's metadata,
  and the snapshot stream, which gets the id of the node that asks. The host must be \<open>http://\<close> and an
  authority, and since nothing is escaped the parameters must not contain spaces or control
  characters. A space in a parameter (with no \<open>#\<close> to cut the query before it) breaks the request line:
  the server answers 400 and calls no handler, so a key with a space cannot be read at another node.
\<close>

theorem requests_reach_their_handlers:
  assumes "gin_paths absolute" "http_host (gHost node)" "url_safe sid"
  shows "((\<forall>(k, v) \<in> set params. plain k \<and> plain v) \<longrightarrow>
      dispatch absolute initRouter POST (prUrl (PostKeyValue_request c node key val params)) = Handler EpPostData
      \<and> dispatch absolute initRouter GET (GetKeyValue_request c node params) = Handler EpGetData)
    \<and> ((\<exists>(k, v) \<in> set params. CHR '' '' \<in> set k \<union> set v) \<and> (\<forall>(k, v) \<in> set params. CHR ''#'' \<notin> set k \<union> set v) \<longrightarrow>
      dispatch absolute initRouter POST (prUrl (PostKeyValue_request c node key val params)) = Malformed
      \<and> dispatch absolute initRouter GET (GetKeyValue_request c node params) = Malformed)
    \<and> dispatch absolute initRouter POST (fst (PostRawKeyValue_request node key val version)) = Handler EpPostReplicaData
    \<and> dispatch absolute initRouter POST (sendGossip_url (gHost node)) = Handler EpPostGossip
    \<and> dispatch absolute initRouter GET (GetNodeMeta_url (gHost node)) = Handler EpMetaDataNode
    \<and> dispatch absolute initRouter GET (RequestSnapshot_url (gHost node) sid) = Handler EpSnapshotStream
    \<and> Query (RequestSnapshot_url (gHost node) sid) ''sourceid'' = sid"
proof -
  note P = url_path_endpoint [OF assms(2)]
  note M = P(1) [OF MapToQueryParamStr_start, of c params]
  have plain: "plain (gHost node)" "plain sid"
    using assms(2,3) by (simp_all add: http_host_def url_safe_plain)
  note L = requests_plain [OF plain(1)]
  have S: "url_path (RequestSnapshot_url (gHost node) sid) = V1_SNAPSHOT_STREAM"
    using P(2) [of "''?sourceid='' @ sid"] by (simp add: RequestSnapshot_url_def)
  have "\<not> request_line_ok (gHost node @ V1_DATA @ MapToQueryParamStr c params)"
    if space: "\<exists>(k, v) \<in> set params. CHR '' '' \<in> set k \<union> set v" and hash: "\<forall>(k, v) \<in> set params. CHR ''#'' \<notin> set k \<union> set v"
  proof -
    obtain kv where kv: "kv \<in> set params" "case kv of (k, v) \<Rightarrow> CHR '' '' \<in> set k \<union> set v" using space by blast
    obtain k v where "kv = (k, v)" by force
    then have "(k, v) \<in> set params" "CHR '' '' \<in> set k \<union> set v" using kv by simp_all
    moreover have "CHR ''#'' \<notin> set (gHost node @ V1_DATA)"
      using assms(2) by (simp add: http_host_def V1_DATA_def)
    ultimately show ?thesis
      using space_breaks_request_line [of k v params "gHost node @ V1_DATA" c] hash by simp
  qed
  moreover let ?h = "gHost node @ V1_SNAPSHOT_STREAM"
  have h: "CHR ''?'' \<notin> set ?h" "CHR ''#'' \<notin> set ?h"
    using assms(2) by (simp_all add: http_host_def V1_SNAPSHOT_STREAM_def)
  have "RequestSnapshot_url (gHost node) sid = ?h @ MapToQueryParamStr [] [(''sourceid'', sid)]"
    by (simp add: RequestSnapshot_url_def MapToQueryParamStr_eq pair_string_def)
  moreover have "Query (?h @ MapToQueryParamStr [] [(''sourceid'', sid)]) ''sourceid'' = sid"
    using assms(3) h Query_MapToQueryParamStr [of "[(''sourceid'', sid)]" ?h "[]"]
    by (simp add: url_safe_def Query_def)
  ultimately show ?thesis
    using P(3,4,5) [of "[]"] S M routes [OF assms(1)] L(1) [of params c] L(2) [OF plain(2)] L(3-5)
    by (simp add: dispatch_def PostKeyValue_request_def GetKeyValue_request_def PostRawKeyValue_request_def
        sendGossip_url_def GetNodeMeta_url_def)
qed

lemma requests_reach_their_handlers_witness:
  "dispatch (\<lambda>p. if take 1 p = ''/'' then p else CHR ''/'' # p) initRouter POST
      (sendGossip_url ''http://localhost:7001'') = Handler EpPostGossip
   \<and> dispatch (\<lambda>p. if take 1 p = ''/'' then p else CHR ''/'' # p) initRouter GET
      (GetKeyValue_request [] ((sample_entry ''n2'' 5 JOINING)\<lparr>gHost := ''http://localhost:7001''\<rparr>)
         [(''key'', ''two words''), (''readquorum'', ''0'')]) = Malformed"
  using requests_reach_their_handlers [where node = "(sample_entry ''n2'' 5 JOINING)\<lparr>gHost := ''http://localhost:7001''\<rparr>"
      and sid = "''n1''" and absolute = "\<lambda>p. if take 1 p = ''/'' then p else CHR ''/'' # p" and c = "[]"
      and params = "[(''key'', ''two words''), (''readquorum'', ''0'')]"]
  by (simp add: gin_paths_def joins_def list_all_iff http_host_def url_safe_def control_char_def)

subsection \<open>What a process keeps\<close>

text \<open>Every version that was in the store is in it; every known id keeps its host, range and count.\<close>

definition store_grows :: "'h DataStore \<Rightarrow> 'h DataStore \<Rightarrow> bool" where
  "store_grows d d' \<longleftrightarrow> (\<forall>k. mset (history d k) \<subseteq># mset (history d' k))"

definition same_place :: "NodeGossip \<Rightarrow> NodeGossip \<Rightarrow> bool" where
  "same_place a b \<longleftrightarrow>
     gHost a = gHost b \<and> gEndOfKeyRange a = gEndOfKeyRange b \<and> gReplicaCount a = gReplicaCount b"

definition table_keeps :: "table \<Rightarrow> table \<Rightarrow> bool" where
  "table_keeps t t' \<longleftrightarrow>
     (\<forall>k a. Gossip_Get t k = Some a \<longrightarrow> (\<exists>b. Gossip_Get t' k = Some b \<and> same_place a b))"

text \<open>The life of a node: joining, bootstrapping, available.\<close>

definition phase :: "NodeState \<Rightarrow> nat" where
  "phase st = (if st = JOINING then 0 else if st = BOOTSTRAPPING then 1 else 2)"

definition node_ok :: "Node \<Rightarrow> bool" where
  "node_ok n \<longleftrightarrow>
     table_wf (nGossip n) \<and> keyed (nGossip n) \<and> nState n \<in> {JOINING, BOOTSTRAPPING, AVAILABLE}
     \<and> (\<exists>g. Gossip_Get (nGossip n) (nId n) = Some g \<and> same_place (own_entry 0 n) g)"

definition node_goes_on :: "Node \<Rightarrow> Node \<Rightarrow> bool" where
  "node_goes_on n n' \<longleftrightarrow>
     nId n' = nId n \<and> nHost n' = nHost n \<and> nEndOfKeyRange n' = nEndOfKeyRange n
     \<and> nReplicaCount n' = nReplicaCount n \<and> phase (nState n) \<le> phase (nState n')
     \<and> table_keeps (nGossip n) (nGossip n')"

definition process_ok :: "'h Process \<Rightarrow> bool" where
  "process_ok p \<longleftrightarrow> store_wf (pStore p) \<and> node_ok (pNode p) \<and> nReplicaCount (pNode p) = pReplicaCount p"

definition process_goes_on :: "'h Process \<Rightarrow> 'h Process \<Rightarrow> bool" where
  "process_goes_on p p' \<longleftrightarrow>
     node_goes_on (pNode p) (pNode p') \<and> store_grows (pStore p) (pStore p') \<and> pReplicaCount p' = pReplicaCount p"

lemma same_place_trans: "same_place a b \<Longrightarrow> same_place b c \<Longrightarrow> same_place a c"
  by (simp add: same_place_def)

lemma table_keeps_trans: "table_keeps t1 t2 \<Longrightarrow> table_keeps t2 t3 \<Longrightarrow> table_keeps t1 t3"
  unfolding table_keeps_def by (meson same_place_trans)

lemma goes_on_refl [simp]: "node_goes_on n n" "store_grows d d" "process_goes_on p p"
  by (simp_all add: node_goes_on_def table_keeps_def same_place_def store_grows_def process_goes_on_def)

lemma process_goes_on_trans: "process_goes_on p1 p2 \<Longrightarrow> process_goes_on p2 p3 \<Longrightarrow> process_goes_on p1 p3"
  unfolding process_goes_on_def node_goes_on_def store_grows_def
  by (auto intro: table_keeps_trans subset_mset.order_trans)

subsection \<open>The store through requests and events\<close>

lemma store_grows_written: "store_grows d (written c d key val version r)"
  by (simp add: store_grows_def history_written)

lemma store_grows_hook [simp]: "store_grows d (d\<lparr>dsHook := h\<rparr>)"
  by (simp add: store_grows_def)

lemma store_grows_trans: "store_grows d1 d2 \<Longrightarrow> store_grows d2 d3 \<Longrightarrow> store_grows d1 d3"
  unfolding store_grows_def by (meson subset_mset.order_trans)

lemma PutRaw_grows:
  assumes "store_wf d" "PutRaw c d key val version r = Ret (d', n, e, calls)"
  shows "store_wf d' \<and> store_grows d d'"
  using assms(2) by (auto simp: PutRaw_eq [OF assms(1)] store_wf_written assms(1) store_grows_written)

lemma put_values_grows:
  "store_wf d \<Longrightarrow> put_values cs d key vs = Ret (d', calls) \<Longrightarrow> store_wf d' \<and> store_grows d d'"
proof (induction vs arbitrary: cs d calls)
  case (Cons v vs)
  note P = PutRaw_eq [OF Cons.prems(1), of "first_choice cs" key "eValue v" "Some (eVersion v)" False]
  let ?d1 = "written (first_choice cs) d key (eValue v) (Some (eVersion v)) False"
  obtain calls' where "put_values (tl cs) ?d1 key vs = Ret (d', calls')"
    using Cons.prems(2) by (cases "put_values (tl cs) ?d1 key vs") (auto simp: P)
  from Cons.IH [OF store_wf_written [OF Cons.prems(1)] this] show ?case
    using store_grows_trans [OF store_grows_written] by blast
qed simp

subsection \<open>Steps\<close>

lemma store_step:
  "process_ok p \<Longrightarrow> store_wf d \<Longrightarrow> store_grows (pStore p) d \<Longrightarrow>
   process_ok (p\<lparr>pStore := d\<rparr>) \<and> process_goes_on p (p\<lparr>pStore := d\<rparr>)"
  by (simp add: process_ok_def process_goes_on_def)

lemma node_change:
  "process_ok p \<Longrightarrow> node_ok n \<Longrightarrow> node_goes_on (pNode p) n \<Longrightarrow>
   process_ok (p\<lparr>pNode := n\<rparr>) \<and> process_goes_on p (p\<lparr>pNode := n\<rparr>)"
  by (simp add: process_ok_def process_goes_on_def node_goes_on_def)

lemma postData_step:
  assumes "process_ok p" "postData ch p include wq body redirect fanout = (p', out, effs)"
  shows "process_ok p' \<and> process_goes_on p p'"
proof -
  have wf: "store_wf (pStore p)" using assms(1) by (simp add: process_ok_def)
  have p': "p' = fst (postData ch p include wq body redirect fanout)" using assms(2) by simp
  show ?thesis
  proof (cases "\<exists>key val q owner. owned_write ch p (mislaneous_of include [''trace'']) wq body key val q owner")
    case True
    then obtain key val q owner where
      "owned_write ch p (mislaneous_of include [''trace'']) wq body key val q owner" by blast
    from postData_owned_store [OF wf this] show ?thesis
      using store_step [OF assms(1) store_wf_written [OF wf] store_grows_written] by (simp add: p')
  next
    case False
    then have "\<nexists>key val q owner. owned_write ch p (mislaneous_of include [''trace'']) wq body key val q owner"
      by blast
    from postData_not_owned [OF this, of redirect fanout] have "p' = p" by (simp add: p')
    then show ?thesis using assms(1) by simp
  qed
qed

lemma postReplicaData_step:
  assumes "process_ok p" "postReplicaData ch p body = (p', out, effs)"
  shows "process_ok p' \<and> process_goes_on p p'"
proof -
  have wf: "store_wf (pStore p)" using assms(1) by (simp add: process_ok_def)
  show ?thesis
  proof (cases body)
    case None
    then show ?thesis using assms by (simp add: postReplicaData_def)
  next
    case (Some b)
    have "p' = p\<lparr>pStore := written (chStore ch) (pStore p) (rqKey b) (rqValue b) (Some (rqVersion b)) True\<rparr>"
      using assms(2) by (auto simp: Some postReplicaData_def PutRaw_eq [OF wf])
    then show ?thesis using store_step [OF assms(1) store_wf_written [OF wf] store_grows_written] by simp
  qed
qed

lemma keyed_merge: "keyed t \<Longrightarrow> keyed (merge_loop Gossip_Get Upsert t body)"
proof (induction body arbitrary: t)
  case (Cons g body)
  have up: "keyed (Upsert t (gId g) a)" if "gId a = gId g" for a
    using Cons.prems that by (simp add: keyed_def NodeGossip_Clone_def)
  show ?case
  proof (cases "Gossip_Get t (gId g)")
    case None
    then show ?thesis using Cons.IH [OF up [of g]] by (simp del: NodeGossip_accessors NodeGossip_Clone_id)
  next
    case (Some val)
    then have "gId (val\<lparr>gLastUpdate := gLastUpdate g, gState := gState g\<rparr>) = gId g"
      using Cons.prems by (simp add: keyed_def)
    from Cons.IH [OF up [OF this]] Cons.IH [OF Cons.prems] show ?thesis
      by (simp add: Some del: NodeGossip_accessors NodeGossip_Clone_id)
  qed
qed simp

lemma merge_keeps: "table_keeps t (merge_loop Gossip_Get Upsert t body)"
  unfolding table_keeps_def
proof (intro allI impI)
  fix k a
  assume "Gossip_Get t k = Some a"
  from table.merge_entry_le [OF this, of body] obtain b where
    "Gossip_Get (merge_loop Gossip_Get Upsert t body) k = Some b" "entry_le a b" by blast
  then show "\<exists>b. Gossip_Get (merge_loop Gossip_Get Upsert t body) k = Some b \<and> same_place a b"
    by (intro exI [of _ b]) (simp add: entry_le_def same_place_def del: NodeGossip_accessors)
qed

text \<open>A node whose table is replaced by one that keeps its members.\<close>

lemma node_ok_table:
  assumes "node_ok n" "table_wf t" "keyed t" "table_keeps (nGossip n) t"
    and "nState n' \<in> {JOINING, BOOTSTRAPPING, AVAILABLE}" "phase (nState n) \<le> phase (nState n')"
    and "nGossip n' = t" "nId n' = nId n" "nHost n' = nHost n" "nEndOfKeyRange n' = nEndOfKeyRange n"
    and "nReplicaCount n' = nReplicaCount n"
  shows "node_ok n' \<and> node_goes_on n n'"
proof -
  obtain g where g: "Gossip_Get (nGossip n) (nId n) = Some g" "same_place (own_entry 0 n) g"
    using assms(1) by (auto simp: node_ok_def)
  then obtain b where "Gossip_Get t (nId n) = Some b" "same_place g b"
    using assms(4) unfolding table_keeps_def by blast
  then have "\<exists>g. Gossip_Get t (nId n) = Some g \<and> same_place (own_entry 0 n') g"
    using g(2) assms(9-11) by (intro exI [of _ b]) (simp add: same_place_def own_entry_def)
  then show ?thesis using assms by (simp add: node_ok_def node_goes_on_def)
qed

lemma changeState_node:
  assumes "node_ok n"
  shows "node_ok (fst (changeStateToBootStrappingIfReady n))
    \<and> node_goes_on n (fst (changeStateToBootStrappingIfReady n))"
  using assms
  by (simp add: changeStateToBootStrappingIfReady_def Let_def node_ok_def node_goes_on_def own_entry_def
      same_place_def table_keeps_def phase_def)
    blast

lemma postGossip_step:
  assumes "process_ok p" "postGossip c (pNode p) body = (n, out, started)"
  shows "process_ok (p\<lparr>pNode := n\<rparr>) \<and> process_goes_on p (p\<lparr>pNode := n\<rparr>)"
proof (rule node_change [OF assms(1)])
  have ok: "node_ok (pNode p)" using assms(1) by (simp add: process_ok_def)
  have "node_ok n \<and> node_goes_on (pNode p) n"
  proof (cases body)
    case None
    then show ?thesis using assms(2) ok by (simp add: postGossip_def)
  next
    case (Some gs)
    let ?t = "merge_loop Gossip_Get Upsert (nGossip (pNode p)) gs"
    let ?n = "(pNode p)\<lparr>nGossip := ?t\<rparr>"
    have st: "table_wf (nGossip (pNode p))" "keyed (nGossip (pNode p))" "nState (pNode p) \<in> {JOINING, BOOTSTRAPPING, AVAILABLE}"
      using ok by (simp_all add: node_ok_def)
    have 1: "node_ok ?n \<and> node_goes_on (pNode p) ?n"
      by (rule node_ok_table [OF ok table.wf_merge [OF st(1)] keyed_merge [OF st(2)] merge_keeps])
        (use st(3) in simp_all)
    have "n = fst (changeStateToBootStrappingIfReady ?n)"
      using assms(2) by (simp add: Some postGossip_Some Let_def del: NodeGossip_accessors)
    moreover have "process_goes_on p p1 \<longrightarrow> process_goes_on p1 p2 \<longrightarrow> process_goes_on p p2" for p1 p2
      using process_goes_on_trans by blast
    ultimately show ?thesis using 1 changeState_node [of ?n] table_keeps_trans
      by (auto simp: node_goes_on_def)
  qed
  then show "node_ok n" "node_goes_on (pNode p) n" by blast+
qed

lemma broadcast_step:
  assumes "process_ok p" "BroadcastGossip c c1 c2 now (pNode p) = (n, sends)"
  shows "process_ok (p\<lparr>pNode := n\<rparr>) \<and> process_goes_on p (p\<lparr>pNode := n\<rparr>)"
proof (cases "nId (pNode p) = []")
  case True
  then have "n = pNode p" using assms(2) by (simp add: BroadcastGossip_def)
  then show ?thesis using assms(1) by simp
next
  case False
  let ?n = "pNode p" and ?e = "own_entry now (pNode p)"
  let ?t = "Upsert (nGossip ?n) (nId ?n) ?e"
  have ok: "node_ok ?n" using assms(1) by (simp add: process_ok_def)
  have n: "n = ?n\<lparr>nGossip := ?t\<rparr>"
    using assms(2) False by (simp add: BroadcastGossip_def Let_def del: NodeGossip_accessors NodeGossip_Clone_id)
  obtain g where g: "Gossip_Get (nGossip ?n) (nId ?n) = Some g" "same_place (own_entry 0 ?n) g"
    using ok by (auto simp: node_ok_def)
  have st: "table_wf (nGossip ?n)" "keyed (nGossip ?n)" "nState ?n \<in> {JOINING, BOOTSTRAPPING, AVAILABLE}"
    using ok by (simp_all add: node_ok_def)
  have get: "Gossip_Get ?t k = (if k = nId ?n then Some ?e else Gossip_Get (nGossip ?n) k)" for k by simp
  have "gId ?e = nId ?n" by (simp add: own_entry_def)
  then have "keyed ?t" using st(2) unfolding keyed_def get by auto
  moreover have "table_keeps (nGossip ?n) ?t"
    using g unfolding table_keeps_def get by (auto simp: same_place_def own_entry_def)
  ultimately have "node_ok n \<and> node_goes_on ?n n"
    unfolding n by (intro node_ok_table [OF ok gossip_wf_Upsert [OF st(1)]]) (use st(3) in simp_all)
  then show ?thesis using node_change [OF assms(1)] by blast
qed

lemma apply_event_step:
  assumes "process_ok p" "apply_event cs p ev = Ret (p', calls)"
  shows "process_ok p' \<and> process_goes_on p p'"
proof -
  have wf: "store_wf (pStore p)" and ok: "node_ok (pNode p)" using assms(1) by (simp_all add: process_ok_def)
  consider (snapshot) "rsEType ev = SnapshotReplicationEType" | (complete) "rsEType ev = SnapshotReplicationCompleteEType"
    | (live) "rsEType ev = LiveMutationReplicationEType" | (other) "p' = p"
    using assms(2) by (auto simp: apply_event_def split: if_splits)
  then show ?thesis
  proof cases
    case snapshot
    then obtain d where d: "put_values cs (pStore p) (srKey (rsSnapshot ev)) (srValues (rsSnapshot ev)) = Ret (d, calls)"
      "p' = p\<lparr>pStore := d\<rparr>"
      using assms(2) by (cases "put_values cs (pStore p) (srKey (rsSnapshot ev)) (srValues (rsSnapshot ev))")
        (auto simp: apply_event_def)
    then show ?thesis using store_step [OF assms(1)] put_values_grows [OF wf d(1)] by simp
  next
    case complete
    then have p': "p' = p\<lparr>pNode := (pNode p)\<lparr>nState := AVAILABLE\<rparr>\<rparr>"
      using assms(2) by (simp add: apply_event_def)
    have "node_ok ((pNode p)\<lparr>nState := AVAILABLE\<rparr>) \<and> node_goes_on (pNode p) ((pNode p)\<lparr>nState := AVAILABLE\<rparr>)"
      using ok by (simp add: node_ok_def node_goes_on_def phase_def own_entry_def table_keeps_def same_place_def)
    then show ?thesis using node_change [OF assms(1)] unfolding p' by blast
  next
    case live
    then have "p' = p\<lparr>pStore := written (first_choice cs) (pStore p) (lmKey (rsLive ev)) (lmValue (rsLive ev))
        (Some (lmVersion (rsLive ev))) False\<rparr>"
      using assms(2) by (simp add: apply_event_def PutRaw_eq [OF wf])
    then show ?thesis using store_step [OF assms(1) store_wf_written [OF wf] store_grows_written] by simp
  qed (use assms(1) in simp)
qed

lemma serve_step:
  assumes "process_ok p" "serve ch w p e rq = (p', out, effs, started)"
  shows "process_ok p' \<and> process_goes_on p p'"
proof (cases e)
  case EpPostData
  then show ?thesis using assms postData_step [OF assms(1)]
    by (auto simp: serve_def Let_def split: prod.splits)
next
  case EpPostReplicaData
  then show ?thesis using assms postReplicaData_step [OF assms(1)]
    by (auto simp: serve_def Let_def split: prod.splits)
next
  case EpPostGossip
  obtain n o' st where g: "postGossip (chRead ch) (pNode p) (wEntries w (hrBody rq)) = (n, o', st)"
    by (cases "postGossip (chRead ch) (pNode p) (wEntries w (hrBody rq))")
  then have "p' = p\<lparr>pNode := n\<rparr>" using assms(2) EpPostGossip by (simp add: serve_def Let_def)
  then show ?thesis using postGossip_step [OF assms(1) g] by simp
next
  case EpSnapShot
  then have "p' = p\<lparr>pStore := resetPostWriteHook (pStore p)\<rparr>"
    using assms(2) by (simp add: serve_def Let_def getSnapShot_def Snapshot_def Let_def)
  then show ?thesis using assms(1) by (simp add: resetPostWriteHook_def process_ok_def process_goes_on_def)
qed (use assms in \<open>auto simp: serve_def Let_def split: prod.splits\<close>)

lemma node_step_goes_on:
  assumes "node_step p p'" "process_ok p"
  shows "process_ok p' \<and> process_goes_on p p'"
  using assms(1)
proof (cases rule: node_step.cases)
  case (request ch w rq out effs started)
  then show ?thesis using assms(2) serve_step [OF assms(2)]
    by (auto simp: handle_def split: dispatched.splits)
next
  case (broadcast_tick c c1 c2 now n sends)
  then show ?thesis using broadcast_step [OF assms(2)] by blast
next
  case (bootstrap_event cs ev calls)
  then show ?thesis using apply_event_step [OF assms(2)] by blast
next
  case (stream_hook h)
  then show ?thesis using assms(2) by (simp add: WithPostWriteHook_def process_ok_def process_goes_on_def)
next
  case stream_reset
  then show ?thesis using assms(2) by (simp add: resetPostWriteHook_def process_ok_def process_goes_on_def)
qed

lemma node_steps_go_on:
  "node_steps p p' \<Longrightarrow> process_ok p \<Longrightarrow> process_ok p' \<and> process_goes_on p p'"
proof (induction rule: node_steps.induct)
  case (node_next p1 p2)
  then show ?case using node_step_goes_on process_goes_on_trans by blast
qed simp

subsection \<open>From the start of a node\<close>

lemma seed_loop_keyed:
  "seed_loop pf ask ss g replicas = Ret (Inr (g', replicas')) \<Longrightarrow> keyed g \<Longrightarrow> keyed g'"
proof (induction pf ask ss g replicas rule: seed_loop.induct)
  case (2 pf ask s ss g replicas)
  show ?case
  proof (cases "GetNodeMeta (pfFloat pf) (ask s)")
    case (Inl e)
    then show ?thesis using 2 by simp
  next
    case (Inr m)
    obtain r where r: "seed_entry pf m = Ret r" using "2.prems"(1) Inr by (cases "seed_entry pf m") auto
    show ?thesis
    proof (cases r)
      case None
      then show ?thesis using "2.IH"(2) [OF Inr] "2.prems" Inr r by simp
    next
      case (Some a)
      have "keyed (Upsert g (gId a) a)" using "2.prems"(2) by (simp add: keyed_def NodeGossip_Clone_def)
      then show ?thesis
        using "2.IH"(3) [OF Inr refl refl] "2.IH"(4) [OF Inr refl refl] "2.prems"(1)
        by (auto simp: Inr r Some Let_def split: if_splits)
    qed
  qed
qed simp

lemma NewNode_process_ok:
  assumes "NewNode pf ask uuid t1 t2 gv = Ret (Inr p)"
  shows "process_ok p"
proof -
  obtain g r where l: "seed_loop pf ask (GVar_SeedNodes gv) NewGossip (GVar_ReplicaCount gv) = Ret (Inr (g, r))"
    using assms by (cases "seed_loop pf ask (GVar_SeedNodes gv) NewGossip (GVar_ReplicaCount gv)")
      (auto simp: NewNode_def split: sum.splits)
  have g: "table_wf g" "keyed g"
    using seed_loop_spec [OF l] seed_loop_keyed [OF l] by (simp_all add: counts_agree_def keyed_def)
  let ?n = "\<lparr>nId = uuid, nHost = GVar_Host gv, nEndOfKeyRange = GVar_EndOfKeyRange gv, nGossip = g,
    nLastUpdate = t1, nState = if Gossip_Size g = 0 then AVAILABLE else JOINING, nReplicaCount = r,
    nGossipMeta = []\<rparr>"
  have p: "p = \<lparr>pNode = ?n\<lparr>nGossip := Upsert g uuid (own_entry t2 ?n)\<rparr>, pStore = NewDataStore, pReplicaCount = r\<rparr>"
    using assms by (simp add: NewNode_def l Let_def)
  have "keyed (Upsert g uuid (own_entry t2 ?n))"
    using g(2) by (simp add: keyed_def own_entry_def NodeGossip_Clone_def)
  then show ?thesis using gossip_wf_Upsert [OF g(1)]
    by (simp add: p process_ok_def node_ok_def own_entry_def same_place_def NodeGossip_Clone_def del: NodeGossip_accessors)
qed

text \<open>
  C4. What a process keeps all its life: from \<open>NewNode\<close> on, whatever requests, broadcasts,
  bootstrapping events and stream hooks come in whatever order, the store and the table are well
  formed, every entry of the table is under its own id, the node's own entry is there with its host,
  range and replica count, and the state is one of the three; and from any point to any later one,
  the node's id, host, range and counts do not change, the state only moves from joining over
  bootstrapping to available, no version of any key is lost, and no known node is forgotten or moved.
\<close>

theorem process_keeps_its_invariant:
  assumes "NewNode pf ask uuid t1 t2 gv = Ret (Inr p0)" "node_steps p0 p" "node_steps p p'"
  shows "process_ok p \<and> process_ok p' \<and> process_goes_on p p'
    \<and> (nState (pNode p) = AVAILABLE \<longrightarrow> nState (pNode p') = AVAILABLE)"
proof -
  have p: "process_ok p" using node_steps_go_on [OF assms(2)] NewNode_process_ok [OF assms(1)] by blast
  have p': "process_ok p'" "process_goes_on p p'" using node_steps_go_on [OF assms(3) p] by simp_all
  have "phase AVAILABLE \<le> phase st \<Longrightarrow> st \<in> {JOINING, BOOTSTRAPPING, AVAILABLE} \<Longrightarrow> st = AVAILABLE" for st
    by (auto simp: phase_def)
  then have "nState (pNode p) = AVAILABLE \<longrightarrow> nState (pNode p') = AVAILABLE"
    using p' unfolding process_goes_on_def node_goes_on_def process_ok_def node_ok_def by metis
  with p p' show ?thesis by blast
qed

lemma process_keeps_its_invariant_witness:
  "\<exists>p p' :: nat Process. NewNode sample_platform sample_ask ''id9'' 4 5 sample_globals = Ret (Inr p)
    \<and> nState (pNode p') = AVAILABLE \<and> process_ok p' \<and> process_goes_on p p'"
proof -
  obtain p :: "nat Process" where
    p: "NewNode sample_platform sample_ask ''id9'' 4 5 sample_globals = Ret (Inr p)"
    using sample_start by blast
  let ?p' = "p\<lparr>pNode := (pNode p)\<lparr>nState := AVAILABLE\<rparr>\<rparr>"
  have "apply_event [] p complete_event = Ret (?p', [])" by (simp add: apply_event_def complete_event_def)
  then have "node_step p ?p'" by (rule bootstrap_event)
  from process_keeps_its_invariant [OF p node_refl node_next [OF node_refl this]] p show ?thesis
    by (intro exI [of _ p] exI [of _ ?p']) simp
qed

subsection \<open>Panics\<close>

definition bad_key :: "(string \<times> json) list option \<Rightarrow> bool" where
  "bad_key body \<longleftrightarrow> (case body of None \<Rightarrow> False
     | Some b \<Rightarrow> (case map_of b ''key'' of Some (JStr k) \<Rightarrow> False | _ \<Rightarrow> True))"

lemma parse_bad_key:
  "bad_key body \<Longrightarrow> postData_parse rc mis body wq = Panic TypeAssertion"
  "\<not> bad_key body \<Longrightarrow> returns (postData_parse rc mis body wq)"
  by (auto simp: bad_key_def postData_parse_def Let_def split: option.splits json.splits sum.splits)

lemma postData_returns:
  assumes "store_wf (pStore p)" "0 \<le> pReplicaCount p" "pReplicaCount p < 2 ^ 63 - 1" "\<not> bad_key body"
  shows "returns (fst (snd (postData ch p include wq body redirect fanout)))"
proof -
  let ?mis = "mislaneous_of include [''trace'']"
  obtain r where r: "postData_parse (pReplicaCount p) ?mis body wq = Ret r"
    using parse_bad_key(2) [OF assms(4), of "pReplicaCount p" ?mis wq]
    by (cases "postData_parse (pReplicaCount p) ?mis body wq") simp_all
  show ?thesis
  proof (cases r)
    case (Inl a)
    then show ?thesis using r by (simp add: postData_def)
  next
    case (Inr b)
    obtain key val s q where b: "b = (key, val, s, q)" by (cases b)
    let ?g = "GetNNode gEndOfKeyRange gState (ring_of ch p) (token_of key) (int64 (pReplicaCount p + 1))"
    obtain x where g: "?g = Ret x"
      using GetNNode_returns [OF assms(2,3), of gEndOfKeyRange gState "ring_of ch p" "token_of key"]
      by (cases ?g) auto
    have "x = Inr xs \<Longrightarrow> xs \<noteq> []" for xs
      using replicas_Ret(2) [OF _ assms(2,3)] g by blast
    then have s1: "x = Inr xs \<Longrightarrow> slice_from_1 xs = Ret (tl xs)" for xs by (simp add: slice_from_1_def)
    show ?thesis
    proof (cases "GetNode gEndOfKeyRange gState (ring_of ch p) (token_of key)")
      case (Inl e)
      then show ?thesis using r by (simp add: postData_def Inr b Let_def ring_of_def)
    next
      case owner: (Inr owner)
      have "returns (fst (snd (postData_redirect cq p ?mis owner key val s redirect)))" for cq
        by (simp add: postData_redirect_def Let_def split: option.splits)
      moreover have "returns (fst (snd (postData_owner cs p ?mis (ring_of ch p) owner (token_of key) key val q fanout)))" for cs
        using s1 by (cases x) (simp_all add: postData_owner_def Put_eq [OF assms(1)] Let_def g postData_fanout_def)
      ultimately show ?thesis using r owner by (simp add: postData_def Inr b Let_def ring_of_def)
    qed
  qed
qed

lemma getData_returns:
  assumes "store_wf (pStore p)" "0 \<le> pReplicaCount p" "pReplicaCount p < 2 ^ 63 - 1"
  shows "returns (fst (getData conv ch p include key rq redirect fanout))"
proof (cases "getData_parse (pReplicaCount p) (mislaneous_of include [''trace'']) rq")
  case (Inl r)
  then show ?thesis by (simp add: getData_def)
next
  case (Inr b)
  obtain s q where b: "b = (s, q)" by (cases b)
  have q: "q \<le> pReplicaCount p"
    using Inr by (auto simp: b getData_parse_def Let_def split: sum.splits if_splits)
  let ?g = "GetNNode gEndOfKeyRange gState (ring_of ch p) (token_of key) (int64 (pReplicaCount p + 1))"
  obtain x where g: "?g = Ret x"
    using GetNNode_returns [OF assms(2,3), of gEndOfKeyRange gState "ring_of ch p" "token_of key"]
    by (cases ?g) auto
  show ?thesis
  proof (cases x)
    case (Inl e)
    then show ?thesis using g Inr by (simp add: getData_def b Let_def ring_of_getData [simplified])
  next
    case xs: (Inr xs)
    then have "xs \<noteq> []" "int (length xs) = pReplicaCount p + 1"
      using replicas_Ret(2,4) [OF _ assms(2,3)] g by blast+
    then obtain owner replicas where o: "xs = owner # replicas" "int (length replicas) = pReplicaCount p"
      by (cases xs) auto
    have "returns (getData_local p mis owner key)" for mis
      by (simp add: getData_local_def GetValAndVersion_eq [OF assms(1)] split: option.splits)
    moreover have "returns (fst (getData_redirect cq p mis owner key s redirect))" for cq mis
      by (simp add: getData_redirect_def Let_def split: sum.splits)
    moreover have "0 \<le> q \<Longrightarrow> returns (fst (getData_replicas conv cp cq p include mis owner replicas key q fanout))"
      for cp cq mis
      using q o(2) by (simp add: getData_replicas_def PickNRandom_def Let_def case_prod_beta)
    ultimately show ?thesis using g Inr by (simp add: getData_def b Let_def ring_of_getData [simplified] xs o)
  qed
qed

lemma returns_answer_with [simp]: "returns (answer_with f out) = returns out"
  by (cases out) (auto simp: answer_with_def)

text \<open>
  The hook calls among the effects of a handler: none, or one, first, by a process that has a hook, for
  a value that has been stored.
\<close>

definition hooks_of :: "'h effect list \<Rightarrow> 'h hook_call list" where
  "hooks_of effs = concat (map (\<lambda>e. case e of HookCall c \<Rightarrow> [c] | _ \<Rightarrow> []) effs)"

definition one_hook :: "'h Process \<Rightarrow> 'h Process \<Rightarrow> 'h effect list \<Rightarrow> bool" where
  "one_hook p p' effs \<longleftrightarrow>
     (\<exists>h key val n rest r. effs = HookCall (h, key, val, n) # rest \<and> hooks_of rest = [] \<and> dsHook (pStore p) = Some h
        \<and> \<lparr>eValue = val, eVersion = n, eIsReplica = r\<rparr> \<in> set (history (pStore p') key))"

lemma hooks_of_simps [simp]:
  "hooks_of [] = []" "hooks_of (HookCall c # effs) = c # hooks_of effs" "hooks_of (SendPost r # effs) = hooks_of effs"
  "hooks_of (SendGet u # effs) = hooks_of effs" "hooks_of (Replicate reqs q # effs) = hooks_of effs"
  "hooks_of (ReadReplicas us q # effs) = hooks_of effs" "hooks_of (xs @ ys) = hooks_of xs @ hooks_of ys"
  by (simp_all add: hooks_of_def)

lemma set_hooks_of: "c \<in> set (hooks_of effs) \<longleftrightarrow> HookCall c \<in> set effs"
  by (cases c) (force simp: hooks_of_def split: effect.splits)

lemma after_no_hook: "hooks_of effs = [] \<Longrightarrow> after_hook run out effs = (Some out, effs)"
  by (induction effs) (auto simp: hooks_of_def split: effect.splits)

lemma after_one_hook:
  "hooks_of rest = [] \<Longrightarrow> after_hook run out (HookCall c # rest) =
     (case run (snd c) of
        HookReturns \<Rightarrow> (Some out, HookCall c # rest)
      | HookPanics x \<Rightarrow> (Some (Panic x), [HookCall c])
      | HookBlocks \<Rightarrow> (None, [HookCall c]))"
  by (simp add: after_no_hook split: hook_run.splits)

lemma postData_hooks:
  assumes "store_wf (pStore p)" "postData ch p include wq body redirect fanout = (p', out, effs)"
  shows "hooks_of effs = [] \<or> one_hook p p' effs"
proof -
  let ?mis = "mislaneous_of include [''trace'']"
  show ?thesis
  proof (cases "\<exists>key val q owner. owned_write ch p ?mis wq body key val q owner")
    case True
    then obtain key val q owner where W: "owned_write ch p ?mis wq body key val q owner" by blast
    let ?n = "next_version (pStore p) key None"
    let ?calls = "map HookCall (case dsHook (pStore p) of None \<Rightarrow> [] | Some h \<Rightarrow> [(h, key, val, ?n)]) :: 'a effect list"
    have p': "p' = p\<lparr>pStore := written (chStore ch) (pStore p) key val None False\<rparr>"
      using postData_owned_store [OF assms(1) W, of redirect fanout] assms(2) by simp
    have "new_entry (pStore p) key val None False \<in> set (history (pStore p') key)"
      by (simp add: p' history_written)
    then have st: "\<lparr>eValue = val, eVersion = ?n, eIsReplica = False\<rparr> \<in> set (history (pStore p') key)"
      by (simp add: new_entry_def)
    obtain rest where "effs = ?calls @ rest" "hooks_of rest = []"
      using assms(2) unfolding postData_owned [OF assms(1) W]
      by (fastforce simp: Let_def postData_fanout_def split: outcome.splits sum.splits)
    then show ?thesis using st by (cases "dsHook (pStore p)") (auto simp: one_hook_def)
  next
    case False
    consider e where "postData_parse (pReplicaCount p) ?mis body wq = Panic e"
      | r where "postData_parse (pReplicaCount p) ?mis body wq = Ret (Inl r)"
      | key val s q where "postData_parse (pReplicaCount p) ?mis body wq = Ret (Inr (key, val, s, q))"
      by (metis outcome.exhaust old.sum.exhaust prod_cases4)
    then have "hooks_of effs = []"
    proof cases
      case (3 key val s q)
      show ?thesis
      proof (cases "GetNode gEndOfKeyRange gState (ring_of ch p) (token_of key)")
        case (Inr owner)
        then have "gId owner = nId (pNode p) \<Longrightarrow> NumNodeInState (nGossip (pNode p)) AVAILABLE < pReplicaCount p"
          using False 3 by (auto simp: owned_write_def not_le [symmetric])
        then show ?thesis using 3 Inr assms(2)
          by (auto simp: postData_def Let_def ring_of_def [symmetric] postData_redirect_def
              postData_owner_def split: option.splits if_splits)
      qed (use 3 assms(2) in \<open>auto simp: postData_def Let_def ring_of_def [symmetric]\<close>)
    qed (use assms(2) in \<open>auto simp: postData_def\<close>)
    then show ?thesis ..
  qed
qed

lemma postReplicaData_hooks:
  assumes "store_wf (pStore p)" "postReplicaData ch p body = (p', out, effs)"
  shows "returns out" "hooks_of effs = [] \<or> one_hook p p' effs"
proof -
  show "returns out" using assms(2)
    by (auto simp: postReplicaData_def PutRaw_eq [OF assms(1)] split: option.splits)
  show "hooks_of effs = [] \<or> one_hook p p' effs"
  proof (cases body)
    case None
    then show ?thesis using assms(2) by (auto simp: postReplicaData_def)
  next
    case (Some b)
    have p': "p' = p\<lparr>pStore := written (chStore ch) (pStore p) (rqKey b) (rqValue b) (Some (rqVersion b)) True\<rparr>"
      and e: "effs = map HookCall (case dsHook (pStore p) of None \<Rightarrow> []
        | Some h \<Rightarrow> [(h, rqKey b, rqValue b, next_version (pStore p) (rqKey b) (Some (rqVersion b)))])"
      using assms(2) by (auto simp: Some postReplicaData_def PutRaw_eq [OF assms(1)])
    have "new_entry (pStore p) (rqKey b) (rqValue b) (Some (rqVersion b)) True \<in> set (history (pStore p') (rqKey b))"
      by (simp add: p' history_written)
    then show ?thesis using e by (cases "dsHook (pStore p)") (auto simp: one_hook_def new_entry_def)
  qed
qed

text \<open>What the client of a handler is left with.\<close>

definition ends_well ::
    "world \<Rightarrow> bool \<Rightarrow> bool \<Rightarrow> 'h Process \<Rightarrow> 'h Process \<Rightarrow> 'r outcome option \<Rightarrow> 'h effect list \<Rightarrow> bool" where
  "ends_well w bad writes p p' out effs \<longleftrightarrow>
     (\<forall>e. out = Some (Panic e) \<longleftrightarrow>
        bad \<and> e = TypeAssertion \<or> (\<exists>h m. HookCall (h, m) \<in> set effs \<and> wHook w m = HookPanics e))
   \<and> (out = None \<longleftrightarrow> (\<exists>h m. HookCall (h, m) \<in> set effs \<and> wHook w m = HookBlocks))
   \<and> (\<forall>h key val n. HookCall (h, key, val, n) \<in> set effs \<longrightarrow>
        writes \<and> dsHook (pStore p) = Some h
        \<and> (\<exists>r. \<lparr>eValue = val, eVersion = n, eIsReplica = r\<rparr> \<in> set (history (pStore p') key))
        \<and> (wHook w (key, val, n) \<noteq> HookReturns \<longrightarrow> effs = [HookCall (h, key, val, n)]))
   \<and> (bad \<longrightarrow> p' = p \<and> effs = [])"

lemma ends_well_after_hook:
  assumes "returns out" "hooks_of effs = [] \<or> one_hook p p' effs" "after_hook (wHook w) out effs = (out', effs')"
  shows "ends_well w False True p p' (map_option (answer_with f) out') effs'"
proof -
  have "returns (answer_with f out)" using assms(1) by simp
  then obtain x where x: "answer_with f out = Ret x" by (cases "answer_with f out") simp_all
  from assms(2) show ?thesis
  proof
    assume "hooks_of effs = []"
    moreover from this have "HookCall c \<notin> set effs" for c using set_hooks_of [of c effs] by simp
    ultimately show ?thesis using assms(3) by (auto simp: ends_well_def after_no_hook x)
  next
    assume "one_hook p p' effs"
    then obtain h key val n rest r where effs: "effs = HookCall (h, key, val, n) # rest" "hooks_of rest = []"
      and st: "dsHook (pStore p) = Some h" "\<lparr>eValue = val, eVersion = n, eIsReplica = r\<rparr> \<in> set (history (pStore p') key)"
      by (auto simp: one_hook_def)
    have no: "HookCall c \<notin> set rest" for c using set_hooks_of [of c rest] effs(2) by simp
    show ?thesis
    proof (cases "wHook w (key, val, n)")
      case HookReturns
      then have "out' = Some out" "effs' = effs" using assms(3) HookReturns by (simp_all add: effs(1) after_no_hook [OF effs(2)])
      then show ?thesis using st HookReturns no by (auto simp: ends_well_def effs(1) x)
    next
      case (HookPanics x)
      then have "out' = Some (Panic x)" "effs' = [HookCall (h, key, val, n)]"
        using assms(3) HookPanics by (simp_all add: effs(1) after_no_hook [OF effs(2)])
      then show ?thesis using st HookPanics by (auto simp: ends_well_def answer_with_def)
    next
      case HookBlocks
      then have "out' = None" "effs' = [HookCall (h, key, val, n)]"
        using assms(3) HookBlocks by (simp_all add: effs(1) after_no_hook [OF effs(2)])
      then show ?thesis using st HookBlocks by (auto simp: ends_well_def)
    qed
  qed
qed

lemma ends_well_returns:
  "returns out \<Longrightarrow> hooks_of effs = [] \<Longrightarrow> ends_well w False writes p p' (Some out) effs"
  using set_hooks_of [of _ effs] by (auto simp: ends_well_def)

lemma getData_hooks: "hooks_of (snd (getData conv ch p include key rq redirect fanout)) = []"
  by (auto simp: getData_def getData_redirect_def getData_replicas_def Let_def
      split: sum.splits outcome.splits list.splits prod.splits)

lemma serve_ends_well:
  assumes "store_wf (pStore p)" "0 \<le> pReplicaCount p" "pReplicaCount p < 2 ^ 63 - 1"
    and "serve ch w p e rq = (p', out, effs, started)"
  shows "ends_well w (e = EpPostData \<and> bad_key (wObject w (hrBody rq))) (e \<in> {EpPostData, EpPostReplicaData}) p p' out effs
    \<and> (e = EpPostData \<and> bad_key (wObject w (hrBody rq)) \<longrightarrow> started = [])"
proof (cases e)
  case EpPostData
  let ?q = "Query (hrUrl rq)"
  obtain p1 out1 effs1 where P: "postData ch p (?q ''include'') (?q ''writequorum'') (wObject w (hrBody rq))
      (wPostRedirect w) (wPostFanout w) = (p1, out1, effs1)"
    by (cases "postData ch p (?q ''include'') (?q ''writequorum'') (wObject w (hrBody rq))
      (wPostRedirect w) (wPostFanout w)")
  obtain out2 effs2 where A: "after_hook (wHook w) out1 effs1 = (out2, effs2)" by force
  have o: "p' = p1" "out = map_option (answer_with Data) out2" "effs = effs2" "started = []"
    using assms(4) by (simp_all add: serve_def EpPostData P A)
  show ?thesis
  proof (cases "bad_key (wObject w (hrBody rq))")
    case True
    then have "(p1, out1, effs1) = (p, Panic TypeAssertion, [])"
      using P by (simp add: postData_def parse_bad_key(1) [OF True])
    then show ?thesis using A o True EpPostData by (auto simp: ends_well_def answer_with_def)
  next
    case False
    have "returns out1" using postData_returns [OF assms(1-3) False] P by (metis fst_conv snd_conv)
    from ends_well_after_hook [OF this postData_hooks [OF assms(1) P] A] show ?thesis
      using False o EpPostData by simp
  qed
next
  case EpPostReplicaData
  obtain p1 out1 effs1 where P: "postReplicaData ch p (wRaw w (hrBody rq)) = (p1, out1, effs1)"
    by (cases "postReplicaData ch p (wRaw w (hrBody rq))")
  obtain out2 effs2 where A: "after_hook (wHook w) out1 effs1 = (out2, effs2)" by force
  have o: "p' = p1" "out = map_option (answer_with Data) out2" "effs = effs2"
    using assms(4) by (simp_all add: serve_def EpPostReplicaData P A)
  from ends_well_after_hook [OF postReplicaData_hooks [OF assms(1) P] A] show ?thesis
    using o EpPostReplicaData by simp
next
  case EpGetData
  let ?q = "Query (hrUrl rq)"
  let ?g = "getData (wConv w) ch p (?q ''include'') (?q ''key'') (?q ''readquorum'') (wGetRedirect w) (wGetFanout w)"
  have o: "p' = p" "out = Some (answer_with Data (fst ?g))" "effs = snd ?g"
    using assms(4) by (auto simp: serve_def EpGetData Let_def case_prod_beta)
  have "returns (answer_with Data (fst ?g))" using getData_returns [OF assms(1-3)] by simp
  from ends_well_returns [OF this getData_hooks] show ?thesis using o EpGetData by simp
next
  case EpMetaDataKey
  have "returns (getMetaDataKey c c1 c2 n k)" for c c1 c2 n k
    by (simp add: getMetaDataKey_def Let_def split: sum.splits)
  then show ?thesis using assms(4) EpMetaDataKey by (auto simp: serve_def Let_def intro!: ends_well_returns)
qed (use assms(4) in \<open>auto simp: serve_def Let_def getMetaDataNode_def getGossip_def
      intro!: ends_well_returns split: prod.splits\<close>)

text \<open>
  C12. When a handler does not answer, for a process whose replica count is not negative (and below
  2^63 - 1). It panics in exactly two cases: for a write, a POST to \<open>/v1/data\<close>, whose body is a JSON object
  without a string under \<open>key\<close>, where the type assertion fails and nothing has changed; or when the
  write hook it calls panics. It never returns exactly when that hook blocks. The hook is called only
  by a write or a replicated write, at a process that has one, after the value has been stored; so the
  client of a write that panics or blocks there gets an empty 500 or no answer at all although its
  value is in the store, and nothing is sent to the replicas. Every other request, to whatever path,
  with whatever body, quorum and state of the cluster, gets the answer its handler wrote, a 404, or
  the 400 of a broken request line. A handler runs as one step here: calls to other nodes are
  taken to come back, with an answer, an error or the timeout of the fan-out (a redirect has no timeout
  and waits as long as the owner does), a snapshot stream counts as answered when it has begun, and
  the store's lock is granted (\<open>GetValAndVersion_can_deadlock\<close> shows when it is not).
\<close>

theorem when_handlers_panic:
  assumes "process_ok p" "0 \<le> pReplicaCount p" "pReplicaCount p < 2 ^ 63 - 1"
    and "handle ch w p rq = (p', out, effs, started)"
    and "ep = dispatch (wAbsolute w) initRouter (hrMethod rq) (hrUrl rq)"
    and "bad \<longleftrightarrow> ep = Handler EpPostData \<and> bad_key (wObject w (hrBody rq))"
  shows "(\<forall>e. out = Some (Panic e) \<longleftrightarrow>
        bad \<and> e = TypeAssertion \<or> (\<exists>h m. HookCall (h, m) \<in> set effs \<and> wHook w m = HookPanics e))
    \<and> (out = None \<longleftrightarrow> (\<exists>h m. HookCall (h, m) \<in> set effs \<and> wHook w m = HookBlocks))
    \<and> (\<forall>h key val n. HookCall (h, key, val, n) \<in> set effs \<longrightarrow>
          ep \<in> {Handler EpPostData, Handler EpPostReplicaData} \<and> dsHook (pStore p) = Some h
          \<and> (\<exists>r. \<lparr>eValue = val, eVersion = n, eIsReplica = r\<rparr> \<in> set (history (pStore p') key))
          \<and> (wHook w (key, val, n) \<noteq> HookReturns \<longrightarrow> effs = [HookCall (h, key, val, n)]))
    \<and> (bad \<longrightarrow> p' = p \<and> effs = [] \<and> started = [])
    \<and> (\<forall>res. out = Some res \<longrightarrow> recovered res = (500, None) \<or> (\<exists>status answer. res = Ret (status, answer)))"
proof -
  have wf: "store_wf (pStore p)" using assms(1) by (simp add: process_ok_def)
  have rec: "recovered res = (500, None) \<or> (\<exists>status answer. res = Ret (status, answer))"
    for res :: "(nat \<times> response) outcome" by (cases res) (auto simp: recovered_def)
  have "ends_well w bad (ep \<in> {Handler EpPostData, Handler EpPostReplicaData}) p p' out effs \<and> (bad \<longrightarrow> started = [])"
  proof (cases ep)
    case (Handler e)
    then show ?thesis using serve_ends_well [OF wf assms(2,3), of ch w e rq p' out effs started] assms(4-6)
      by (simp add: handle_def)
  qed (use assms(4-6) in \<open>auto simp: handle_def intro!: ends_well_returns\<close>)
  then show ?thesis using rec unfolding ends_well_def by blast
qed

definition sample_world :: world where
  "sample_world =
     \<lparr>wAbsolute = (\<lambda>p. if take 1 p = ''/'' then p else CHR ''/'' # p),
      wObject = (\<lambda>b. if b = [] then None else sample_request), wEntries = (\<lambda>b. None), wRaw = (\<lambda>b. None),
      wHook = (\<lambda>m. HookPanics SendOnClosedChannel), wFmt = (\<lambda>t. ''now''), wConv = (\<lambda>x. 0),
      wPostRedirect = DoErr BindError, wGetRedirect = DoErr BindError,
      wPostFanout = (\<lambda>ns n. []), wGetFanout = (\<lambda>ns n. [])\<rparr>"

definition sample_hooked :: "nat Process" where
  "sample_hooked = (sample_process 0)\<lparr>pStore := WithPostWriteHook 7 NewDataStore,
     pNode := (pNode (sample_process 0))\<lparr>nReplicaCount := 0\<rparr>\<rparr>"

definition sample_write :: http_request where
  "sample_write = \<lparr>hrMethod = POST, hrUrl = ''http://h/v1/data?writequorum=0'', hrBody = ''x''\<rparr>"

lemma sample_write_dispatch:
  "dispatch (wAbsolute sample_world) initRouter (hrMethod sample_write) (hrUrl sample_write) = Handler EpPostData"
  "Query (hrUrl sample_write) ''include'' = []" "Query (hrUrl sample_write) ''writequorum'' = ''0''"
proof -
  have "url_path (hrUrl sample_write) = ''/v1/data''" "request_line_ok (hrUrl sample_write)" by code_simp+
  then show "dispatch (wAbsolute sample_world) initRouter (hrMethod sample_write) (hrUrl sample_write) = Handler EpPostData"
    by (simp add: dispatch_def) (simp add: sample_write_def sample_world_def initRouter_def path_defs)
  show "Query (hrUrl sample_write) ''include'' = []" "Query (hrUrl sample_write) ''writequorum'' = ''0''"
    by code_simp+
qed

lemma sample_hooked_ok: "process_ok sample_hooked"
  by (simp add: process_ok_def node_ok_def keyed_def same_place_def own_entry_def sample_hooked_def sample_process_def
      sample_node_def NodeGossip_Clone_def gossip_wf_Upsert WithPostWriteHook_def del: NodeGossip_accessors)

text \<open>A write whose hook sends on a channel that has been closed: an empty 500, and the value is stored.\<close>

lemma when_handlers_panic_witness:
  "\<exists>p' started. handle no_choices sample_world sample_hooked sample_write
      = (p', Some (Panic SendOnClosedChannel), [HookCall (7, ''k'', JStr ''v'', 1)], started)
    \<and> (\<exists>r. \<lparr>eValue = JStr ''v'', eVersion = 1, eIsReplica = r\<rparr> \<in> set (history (pStore p') ''k''))"
proof -
  obtain p' out effs started where h: "handle no_choices sample_world sample_hooked sample_write = (p', out, effs, started)"
    by (cases "handle no_choices sample_world sample_hooked sample_write")
  obtain p1 out1 effs1 where P: "postData no_choices sample_hooked [] ''0'' sample_request (DoErr BindError) (\<lambda>ns n. [])
      = (p1, out1, effs1)"
    by (cases "postData no_choices sample_hooked [] ''0'' sample_request (DoErr BindError) (\<lambda>ns n. [])")
  have wf: "store_wf (pStore sample_hooked)" using sample_hooked_ok by (simp add: process_ok_def)
  have W: "owned_write no_choices sample_hooked (mislaneous_of [] [''trace'']) ''0'' sample_request ''k'' (JStr ''v'') 0 (sample_owner 0)"
    using sample_owned [of 0 no_choices "mislaneous_of [] [''trace'']"]
    by (simp add: owned_write_def sample_hooked_def ring_of_def)
  have d: "dsHook (pStore sample_hooked) = Some 7" "next_version (pStore sample_hooked) ''k'' None = 1"
    by (simp_all add: sample_hooked_def WithPostWriteHook_def next_version_def latest_simps)
  have "HookCall (7, ''k'', JStr ''v'', 1) \<in> set effs1"
    using P unfolding postData_owned [OF wf W] d
    by (auto simp: Let_def split: outcome.splits sum.splits prod.splits)
  then obtain rest where e1: "effs1 = HookCall (7, ''k'', JStr ''v'', 1) # rest" "hooks_of rest = []"
    using postData_hooks [OF wf P] set_hooks_of [of "(7, ''k'', JStr ''v'', 1)" effs1] set_hooks_of [of "(7, ''k'', JStr ''v'', 1)"]
    by (fastforce simp: one_hook_def)
  have "serve no_choices sample_world sample_hooked EpPostData sample_write = (p', out, effs, started)"
    using h by (simp add: handle_def sample_write_dispatch(1))
  then have effs: "effs = [HookCall (7, ''k'', JStr ''v'', 1)]"
    using P by (simp add: serve_def sample_write_dispatch(2,3))
      (simp add: sample_world_def sample_write_def e1 after_one_hook [OF e1(2)])
  have b: "False \<longleftrightarrow> Handler EpPostData = Handler EpPostData \<and> bad_key (wObject sample_world (hrBody sample_write))"
    by (simp add: bad_key_def sample_world_def sample_write_def sample_request_def)
  have "0 \<le> pReplicaCount sample_hooked" "pReplicaCount sample_hooked < 2 ^ 63 - 1" by (simp_all add: sample_hooked_def)
  note C = when_handlers_panic [OF sample_hooked_ok this h sample_write_dispatch(1) [symmetric] b]
  have "out = Some (Panic SendOnClosedChannel)" using C by (simp add: effs sample_world_def)
  moreover have "\<exists>r. \<lparr>eValue = JStr ''v'', eVersion = 1, eIsReplica = r\<rparr> \<in> set (history (pStore p') ''k'')"
    using C by (simp add: effs)
  ultimately show ?thesis using h effs by blast
qed

text \<open>
  When the hook is that of a bootstrap stream: a write that meets the closed live channel ends in an
  empty 500, and one that meets a stream its client has left never ends; either way it is stored.
\<close>

theorem write_meets_stream:
  assumes "stream_inv s" "hooked (ssStore s)" "key_filter (ssLimit s) key"
  shows "ssLiveClosed s \<Longrightarrow> \<not> ssLiveNil s \<Longrightarrow> stream_hook_run s (key, val, n) = HookPanics SendOnClosedChannel"
    "abandoned s \<Longrightarrow> stream_hook_run s (key, val, n) = HookBlocks"
proof -
  have h: "dsHook (ssStore s) = Some (ThisStream (ssLimit s))" using assms(1,2) by (simp add: stream_inv_def)
  show "ssLiveClosed s \<Longrightarrow> \<not> ssLiveNil s \<Longrightarrow> stream_hook_run s (key, val, n) = HookPanics SendOnClosedChannel"
    using h assms(3) by (simp add: stream_hook_run_def call_hook_def)
  show "abandoned s \<Longrightarrow> stream_hook_run s (key, val, n) = HookBlocks"
    using h assms(3) abandonedD(3,5) [of s] by (simp add: stream_hook_run_def call_hook_def)
qed

text \<open>
  A replica count of -1, which the start of a seed node accepts, makes every read for the owner panic:
  no node at all is asked for, and the first of them is taken.
\<close>

theorem negative_replica_count_panics:
  assumes "pReplicaCount p = - 1" "GetNode gEndOfKeyRange gState (ring_of ch p) (token_of key) = Inr owner"
  shows "getData conv ch p include key ''-1'' redirect fanout = (Panic IndexOutOfRange, [])"
proof -
  have "Atoi ''-1'' = Inr (- 1)" "\<not> blank ''-1''" by code_simp+
  then have "getData_parse (- 1) (mislaneous_of include [''trace'']) ''-1'' = Inr (''-1'', - 1)"
    by (simp add: getData_parse_def)
  moreover have "GetNNode gEndOfKeyRange gState (ring_of ch p) (token_of key) (int64 0) = Ret (Inr [])"
    using assms(2) int64_id [of 0] by (simp add: GetNNode_eq Let_def)
  ultimately show ?thesis by (simp add: getData_def assms(1) ring_of_getData [simplified] Let_def)
qed

lemma negative_replica_count_panics_witness:
  "fst (getData (\<lambda>_. 0) no_choices (sample_process (- 1)) [] ''k'' ''-1'' (DoErr BindError) (\<lambda>_ _. [])) = Panic IndexOutOfRange"
  using negative_replica_count_panics [of "sample_process (- 1)" no_choices "''k''" "sample_owner (- 1)"]
  by (simp add: sample_ring_of sample_GetNode [simplified])

subsection \<open>The debugging endpoint\<close>

text \<open>
  A \<open>GET\<close> of \<open>/v1/snapshot\<close> takes away the store's only write hook: while a new node is being
  bootstrapped, no write from then on is sent to it, although each of them is stored.
\<close>

theorem snapshot_request_ends_live_replication:
  assumes "gin_paths (wAbsolute w)" "hrMethod rq = GET" "request_line_ok (hrUrl rq)" "url_path (hrUrl rq) = V1_SNAPSHOT"
    and "store_wf (pStore p)"
    and "handle ch w p rq = (p', out, effs, started)" "Put c (pStore p') key val = Ret (d, n, e, calls)"
  shows "dsHook (pStore p') = None \<and> calls = [] \<and> history d key \<noteq> []"
proof -
  have "route (wAbsolute w) initRouter GET V1_SNAPSHOT = Some EpSnapShot"
    using assms(1) by (simp add: gin_paths_def joins_def initRouter_def path_defs)
  then have "p' = p\<lparr>pStore := resetPostWriteHook (pStore p)\<rparr>"
    using assms(6) by (simp add: handle_def dispatch_def assms(2-4) serve_def getSnapShot_def Snapshot_def Let_def)
  then have h: "dsHook (pStore p') = None" and wf: "store_wf (pStore p')"
    using assms(5) by simp_all
  then show ?thesis using assms(7) by (auto simp: Put_eq [OF wf] history_written)
qed

lemma snapshot_request_ends_live_replication_witness:
  "dsHook (pStore (fst (handle no_choices sample_world
      ((sample_process 2)\<lparr>pStore := WithPostWriteHook 7 NewDataStore\<rparr>)
      \<lparr>hrMethod = GET, hrUrl = ''http://h/v1/snapshot'', hrBody = []\<rparr>))) = None"
proof -
  let ?p = "(sample_process 2)\<lparr>pStore := WithPostWriteHook 7 NewDataStore\<rparr>"
  let ?rq = "\<lparr>hrMethod = GET, hrUrl = ''http://h/v1/snapshot'', hrBody = []\<rparr>"
  obtain p' out effs started where h: "handle no_choices sample_world ?p ?rq = (p', out, effs, started)"
    by (cases "handle no_choices sample_world ?p ?rq") auto
  have path: "url_path (hrUrl ?rq) = V1_SNAPSHOT" unfolding V1_SNAPSHOT_def by code_simp
  have line: "request_line_ok (hrUrl ?rq)" by code_simp
  have gin: "gin_paths (wAbsolute sample_world)"
    by (simp add: gin_paths_def joins_def list_all_iff sample_world_def)
  have wf: "store_wf (pStore ?p)" by (simp add: WithPostWriteHook_def)
  have "p' = ?p\<lparr>pStore := resetPostWriteHook (pStore ?p)\<rparr>"
    using h path line by (simp add: handle_def dispatch_def sample_world_def initRouter_def path_defs serve_def getSnapShot_def Snapshot_def Let_def)
  then have "store_wf (pStore p')" by (simp add: resetPostWriteHook_def WithPostWriteHook_def)
  note P = Put_eq [OF this, of "[]" "''k''" JNull]
  show ?thesis
    using snapshot_request_ends_live_replication [OF gin _ line path wf h P] by (simp add: h)
qed

end
