(* ===== verification/Takeover_Props.thy ===== *)
theory Takeover_Props
  imports Server_Props Sha256_Vector
begin

section \<open>How a bootstrapped node takes over its range\<close>

text \<open>
  The end of a bootstrap across two processes: the end marker of the snapshot makes the new node
  available, its next broadcast tells another node, and from then on that node's lookups send the
  new node's keys to it; until then they do not. And which node is asked for the data: the first one
  in the order of a Go map whose range ends far enough, which need not be the owner of the range.
\<close>

subsection \<open>Merging one node's table\<close>

context membership
begin

lemma merge_other: "k \<notin> gId ` set body \<Longrightarrow> get (merge_loop get upsert s body) k = get s k"
proof (induction body arbitrary: s)
  case (Cons g body)
  have "get (merge_loop get upsert s [g]) k = get s k" using Cons.prems by (subst merge_step_get) auto
  then show ?case using Cons by (subst merge_Cons) simp
qed simp

text \<open>An entry whose id occurs once in the body, newer than what is known of it.\<close>

lemma merge_newer:
  assumes "g \<in> set body" "distinct (map gId body)" "\<forall>val. get s (gId g) = Some val \<longrightarrow> gLastUpdate val < gLastUpdate g"
  shows "get (merge_loop get upsert s body) (gId g) =
    Some (case get s (gId g) of None \<Rightarrow> g
          | Some val \<Rightarrow> val\<lparr>gLastUpdate := gLastUpdate g, gState := gState g\<rparr>)"
proof -
  obtain xs ys where b: "body = xs @ g # ys" using assms(1) by (meson split_list)
  have n: "gId g \<notin> gId ` set xs" "gId g \<notin> gId ` set ys" using assms(2) by (auto simp: b)
  let ?s = "merge_loop get upsert s xs"
  have x: "get ?s (gId g) = get s (gId g)" by (rule merge_other [OF n(1)])
  have "get (merge_loop get upsert s body) (gId g) = get (merge_loop get upsert ?s [g]) (gId g)"
    unfolding b merge_append by (subst merge_Cons) (rule merge_other [OF n(2)])
  then show ?thesis using assms(3) by (simp only: merge_step_get x) (auto split: option.splits)
qed

end

text \<open>What one broadcast carries: the own entry, and at most one entry per id.\<close>

lemma BroadcastGossip_entries:
  assumes "node_ok n" "BroadcastGossip c c1 c2 now n = (n', sends)" "m \<in> set sends"
  shows "own_entry now n \<in> set (snd m) \<and> distinct (map gId (snd m))"
proof -
  let ?t = "Upsert (nGossip n) (nId n) (own_entry now n)"
  have wf: "table_wf ?t" using assms(1) by (simp add: node_ok_def gossip_wf_Upsert del: NodeGossip_accessors)
  have k: "Gossip_Get ?t k = Some a \<Longrightarrow> gId a = k" for k a
    using assms(1) by (auto simp: node_ok_def keyed_def own_entry_def split: if_splits)
  have r: "map_of (Read c ?t) = Gossip_Get ?t" by (rule map_of_Read_table [OF wf])
  have d: "distinct (map fst (Read c ?t))" by (rule distinct_Read)
  have entry: "(k, a) \<in> set (Read c ?t) \<longleftrightarrow> Gossip_Get ?t k = Some a" for k a
    using d r by (metis map_of_eq_Some_iff)
  have m: "snd m = map snd (permute c1 (Read c ?t))"
    using assms(2,3)
    by (auto simp: BroadcastGossip_def Let_def simp del: NodeGossip_accessors NodeGossip_Clone_id split: if_splits)
  have "(nId n, own_entry now n) \<in> set (Read c ?t)" unfolding entry by simp
  from imageI [OF this, of snd] have "own_entry now n \<in> set (snd m)" unfolding m by simp
  moreover have "gId (snd p) = fst p" if "p \<in> set (permute c1 (Read c ?t))" for p
  proof -
    have "(fst p, snd p) \<in> set (Read c ?t)" using that by simp
    then show ?thesis unfolding entry by (rule k)
  qed
  then have "map gId (snd m) = map fst (permute c1 (Read c ?t))" unfolding m by simp
  ultimately show ?thesis using d by simp
qed

subsection \<open>Takeover\<close>

text \<open>Lookups: an id that is not available is never returned, one that is may be.\<close>

lemma getMetaDataKey_owner:
  assumes "table_wf (nGossip n)"
  shows "\<exists>r. getMetaDataKey c c1 c2 n key = Ret (200, r)
    \<and> (\<forall>x. r = KeyNode x \<longrightarrow> gState x = AVAILABLE \<and> (\<exists>k. Gossip_Get (nGossip n) k = Some x) \<and> token_of key < gEndOfKeyRange x
          \<and> (\<forall>k y. Gossip_Get (nGossip n) k = Some y \<and> gState y = AVAILABLE \<and> token_of key < gEndOfKeyRange y
                \<longrightarrow> gEndOfKeyRange x \<le> gEndOfKeyRange y))
    \<and> (\<forall>e. r = KeyError e \<longrightarrow> (\<forall>k y. Gossip_Get (nGossip n) k = Some y \<and> gState y = AVAILABLE
                \<longrightarrow> gEndOfKeyRange y \<le> token_of key))"
proof -
  let ?ar = "sort_slice c2 gEndOfKeyRange (MapToArr c1 (Read c (nGossip n)))"
  have s: "sorted (map gEndOfKeyRange ?ar)" by simp
  have d: "distinct (map fst (gsStore (nGossip n)))" using assms by (simp add: gossip_wf_def)
  have "Read c (nGossip n) = permute c (gsStore (nGossip n))" by (rule Read_id [OF assms]) simp
  then have "set ?ar = snd ` set (gsStore (nGossip n))" by simp
  then have set: "x \<in> set ?ar \<longleftrightarrow> (\<exists>k. Gossip_Get (nGossip n) k = Some x)" for x
    using d by (force simp: Gossip_Get_def)
  show ?thesis
  proof (cases "GetNode gEndOfKeyRange gState ?ar (token_of key)")
    case (Inl e)
    then have "\<forall>x \<in> set ?ar. \<not> is_candidate gEndOfKeyRange gState (token_of key) x"
      using GetNode_sorted(2) [OF s] by blast
    then have "\<forall>k y. Gossip_Get (nGossip n) k = Some y \<and> gState y = AVAILABLE \<longrightarrow> gEndOfKeyRange y \<le> token_of key"
      unfolding is_candidate_def using set by (meson not_less)
    then show ?thesis by (simp add: getMetaDataKey_def Let_def Inl)
  next
    case (Inr x)
    then have "is_owner gEndOfKeyRange gState (set ?ar) (token_of key) x" by (rule GetNode_sorted(1) [OF s])
    then have o: "x \<in> set ?ar" "gState x = AVAILABLE" "token_of key < gEndOfKeyRange x"
      "\<forall>y \<in> set ?ar. gState y = AVAILABLE \<and> token_of key < gEndOfKeyRange y \<longrightarrow> gEndOfKeyRange x \<le> gEndOfKeyRange y"
      unfolding is_owner_def is_candidate_def by blast+
    have "\<forall>k y. Gossip_Get (nGossip n) k = Some y \<and> gState y = AVAILABLE \<and> token_of key < gEndOfKeyRange y
        \<longrightarrow> gEndOfKeyRange x \<le> gEndOfKeyRange y" using o(4) set by blast
    moreover have "\<exists>k. Gossip_Get (nGossip n) k = Some x" using o(1) set by blast
    moreover have "getMetaDataKey c c1 c2 n key = Ret (200, KeyNode x)" by (simp add: getMetaDataKey_def Let_def Inr)
    ultimately show ?thesis using o(2,3) by simp
  qed
qed

text \<open>
  C10. A bootstrapped node takes over its range, and not before: as long as what a node \<open>a\<close> knows of the
  new node \<open>b\<close> is not that it is available, no lookup at \<open>a\<close> returns \<open>b\<close>. When \<open>b\<close> has read the end
  marker of the snapshot, any message of its next broadcast, once \<open>a\<close> has merged it (\<open>a\<close> knew nothing of
  \<open>b\<close>, or something older), makes \<open>a\<close> list \<open>b\<close> as available at its place, and every key below \<open>b\<close>'s
  range end is then looked up at \<open>b\<close>, unless another available node's range ends between them.
\<close>

theorem bootstrapped_node_takes_over:
  assumes "process_ok b" "apply_event cs b complete_event = Ret (b', calls)"
    and "BroadcastGossip c c1 c2 now (pNode b') = (n, sends)" "m \<in> set sends"
    and "node_ok a" "postGossip d a (Some (snd m)) = (a', answer, started)" "token_of key < nEndOfKeyRange (pNode b)"
    and "\<forall>g. Gossip_Get (nGossip a) (nId (pNode b)) = Some g \<longrightarrow>
          gLastUpdate g < now \<and> same_place (own_entry 0 (pNode b)) g"
  shows "((\<forall>g. Gossip_Get (nGossip a) (nId (pNode b)) = Some g \<longrightarrow> gState g \<noteq> AVAILABLE) \<longrightarrow>
        (\<forall>x. getMetaDataKey d1 d2 d3 a key = Ret (200, KeyNode x) \<longrightarrow> gId x \<noteq> nId (pNode b)))
    \<and> Gossip_Get (nGossip a') (nId (pNode b)) = Some (own_entry now (pNode b'))
    \<and> (\<exists>x. getMetaDataKey d1 d2 d3 a' key = Ret (200, KeyNode x) \<and> gEndOfKeyRange x \<le> nEndOfKeyRange (pNode b)
        \<and> ((\<forall>k y. Gossip_Get (nGossip a') k = Some y \<and> k \<noteq> nId (pNode b) \<and> gState y = AVAILABLE
              \<and> token_of key < gEndOfKeyRange y \<longrightarrow> nEndOfKeyRange (pNode b) < gEndOfKeyRange y)
            \<longrightarrow> x = own_entry now (pNode b')))"
proof (intro conjI impI)
  let ?id = "nId (pNode b)" and ?e = "own_entry now (pNode b')"
  have a: "table_wf (nGossip a)" "keyed (nGossip a)" using assms(5) by (simp_all add: node_ok_def)
  have b': "pNode b' = (pNode b)\<lparr>nState := AVAILABLE\<rparr>"
    using assms(2) by (auto simp: apply_event_def complete_event_def)
  have e: "gId ?e = ?id" "gState ?e = AVAILABLE" "gEndOfKeyRange ?e = nEndOfKeyRange (pNode b)" "gLastUpdate ?e = now"
    by (simp_all add: own_entry_def b')
  {
    assume "\<forall>g. Gossip_Get (nGossip a) ?id = Some g \<longrightarrow> gState g \<noteq> AVAILABLE"
    then show "\<forall>x. getMetaDataKey d1 d2 d3 a key = Ret (200, KeyNode x) \<longrightarrow> gId x \<noteq> ?id"
      using getMetaDataKey_owner [OF a(1), of d1 d2 d3 key] a(2) unfolding keyed_def by force
  }
  have "node_ok (pNode b')"
    using apply_event_step [OF assms(1,2)] by (simp add: process_ok_def)
  from BroadcastGossip_entries [OF this assms(3,4)]
  have m: "?e \<in> set (snd m)" "distinct (map gId (snd m))" by blast+
  let ?t = "merge_loop Gossip_Get Upsert (nGossip a) (snd m)"
  have t: "nGossip a' = ?t" using postGossip_table [of d a "snd m"] assms(6) by simp
  have old: "g\<lparr>gLastUpdate := now, gState := AVAILABLE\<rparr> = ?e" if "Gossip_Get (nGossip a) ?id = Some g" for g
  proof -
    have "same_place (own_entry 0 (pNode b)) g" "gId g = ?id" using that assms(8) a(2) by (auto simp: keyed_def)
    then show ?thesis by (simp add: same_place_def own_entry_def b')
  qed
  have "Gossip_Get ?t (gId ?e) = Some (case Gossip_Get (nGossip a) (gId ?e) of None \<Rightarrow> ?e
      | Some val \<Rightarrow> val\<lparr>gLastUpdate := gLastUpdate ?e, gState := gState ?e\<rparr>)"
    by (rule table.merge_newer [OF m]) (use assms(8) e in auto)
  then show get: "Gossip_Get (nGossip a') ?id = Some ?e"
    using old by (cases "Gossip_Get (nGossip a) ?id") (simp_all add: t e)
  have wf: "table_wf (nGossip a')" unfolding t by (rule table.wf_merge [OF a(1)])
  obtain r where r: "getMetaDataKey d1 d2 d3 a' key = Ret (200, r)"
    "\<And>x. r = KeyNode x \<Longrightarrow> gState x = AVAILABLE \<and> (\<exists>k. Gossip_Get (nGossip a') k = Some x) \<and> token_of key < gEndOfKeyRange x
        \<and> (\<forall>k y. Gossip_Get (nGossip a') k = Some y \<and> gState y = AVAILABLE \<and> token_of key < gEndOfKeyRange y
              \<longrightarrow> gEndOfKeyRange x \<le> gEndOfKeyRange y)"
    "\<And>e. r = KeyError e \<Longrightarrow> (\<forall>k y. Gossip_Get (nGossip a') k = Some y \<and> gState y = AVAILABLE
              \<longrightarrow> gEndOfKeyRange y \<le> token_of key)"
    using getMetaDataKey_owner [OF wf, of d1 d2 d3 key] by blast
  have "\<exists>x. r = KeyNode x"
  proof (cases r)
    case (KeyError err)
    then have "gEndOfKeyRange ?e \<le> token_of key" using r(3) get e(2) by blast
    then show ?thesis using assms(7) e(3) by simp
  qed simp
  then obtain x where x: "r = KeyNode x" by blast
  have le: "gEndOfKeyRange x \<le> nEndOfKeyRange (pNode b)" using r(2) [OF x] get e(2,3) assms(7) by metis
  have "x = ?e" if "\<forall>k y. Gossip_Get (nGossip a') k = Some y \<and> k \<noteq> ?id \<and> gState y = AVAILABLE
      \<and> token_of key < gEndOfKeyRange y \<longrightarrow> nEndOfKeyRange (pNode b) < gEndOfKeyRange y"
  proof -
    obtain k where k: "Gossip_Get (nGossip a') k = Some x" using r(2) [OF x] by blast
    have "k = ?id" using that k r(2) [OF x] le by (metis not_less)
    then show ?thesis using k get by simp
  qed
  then show "\<exists>x. getMetaDataKey d1 d2 d3 a' key = Ret (200, KeyNode x) \<and> gEndOfKeyRange x \<le> nEndOfKeyRange (pNode b)
      \<and> ((\<forall>k y. Gossip_Get (nGossip a') k = Some y \<and> k \<noteq> ?id \<and> gState y = AVAILABLE
            \<and> token_of key < gEndOfKeyRange y \<longrightarrow> nEndOfKeyRange (pNode b) < gEndOfKeyRange y)
          \<longrightarrow> x = ?e)"
    using r(1) x le by blast
qed

text \<open>The node ''nb'' bootstraps from ''na''; the token of ''abc'' lies in its range.\<close>

lemma token_of_abc: "token_of ''abc'' = 0xba7816bf8f01cfea"
  unfolding token_of_def Sum256_abc by code_simp

definition sample_old :: NodeGossip where
  "sample_old = \<lparr>gId = ''na'', gHost = ''ha'', gEndOfKeyRange = TOTAL_SLOTS, gLastUpdate = 3, gState = AVAILABLE,
     gReplicaCount = 1\<rparr>"

definition sample_new :: NodeGossip where
  "sample_new = \<lparr>gId = ''nb'', gHost = ''hb'', gEndOfKeyRange = 0xc000000000000000, gLastUpdate = 2,
     gState = BOOTSTRAPPING, gReplicaCount = 1\<rparr>"

definition sample_side :: "NodeGossip \<Rightarrow> Node" where
  "sample_side g = \<lparr>nId = gId g, nHost = gHost g, nEndOfKeyRange = gEndOfKeyRange g,
     nGossip = Upsert (Upsert NewGossip ''na'' sample_old) ''nb'' sample_new, nLastUpdate = 1, nState = gState g,
     nReplicaCount = 1, nGossipMeta = []\<rparr>"

lemma sample_side_ok: "g \<in> {sample_old, sample_new} \<Longrightarrow> node_ok (sample_side g)"
  by (auto simp: node_ok_def sample_side_def keyed_def same_place_def own_entry_def NodeGossip_Clone_def gossip_wf_Upsert
      sample_old_def sample_new_def simp del: NodeGossip_accessors)

lemma bootstrapped_node_takes_over_witness:
  "\<exists>b' calls n sends gs a' answer started x.
      apply_event [] \<lparr>pNode = sample_side sample_new, pStore = NewDataStore :: nat DataStore, pReplicaCount = 1\<rparr>
        complete_event = Ret (b', calls)
    \<and> BroadcastGossip [] [] [] 5 (pNode b') = (n, sends) \<and> (''ha'', gs) \<in> set sends
    \<and> postGossip [] (sample_side sample_old) (Some gs) = (a', answer, started)
    \<and> getMetaDataKey [] [] [] a' ''abc'' = Ret (200, KeyNode x) \<and> gEndOfKeyRange x \<le> 0xc000000000000000"
proof -
  let ?b = "\<lparr>pNode = sample_side sample_new, pStore = NewDataStore :: nat DataStore, pReplicaCount = 1\<rparr>"
  let ?b' = "?b\<lparr>pNode := (sample_side sample_new)\<lparr>nState := AVAILABLE\<rparr>\<rparr>"
  have e: "apply_event [] ?b complete_event = Ret (?b', [])"
    by (simp add: apply_event_def complete_event_def)
  obtain n sends where B: "BroadcastGossip [] [] [] 5 (pNode ?b') = (n, sends)" by force
  have "map fst sends = [''ha'']"
    using B by (auto simp: BroadcastGossip_def sample_side_def Gossip_Upsert_def NewGossip_def Let_def sample_old_def
        sample_new_def Gossip_Read_def)
  then obtain gs where m: "(''ha'', gs) \<in> set sends" by (cases sends) force+
  obtain a' answer started where p: "postGossip [] (sample_side sample_old) (Some gs) = (a', answer, started)"
    by (cases "postGossip [] (sample_side sample_old) (Some gs)") auto
  have k: "Gossip_Get (nGossip (sample_side g)) k =
      (if k = ''nb'' then Some sample_new else if k = ''na'' then Some sample_old else None)" for g k
    by (simp add: sample_side_def NodeGossip_Clone_def)
  have ok: "process_ok ?b" using sample_side_ok by (simp add: process_ok_def) (simp add: sample_side_def)
  have t: "token_of ''abc'' < nEndOfKeyRange (pNode ?b)"
    unfolding token_of_abc by (simp add: sample_side_def sample_new_def)
  have T: "Gossip_Get (nGossip a') (nId (pNode ?b)) = Some (own_entry 5 (pNode ?b'))"
    "\<exists>x. getMetaDataKey [] [] [] a' ''abc'' = Ret (200, KeyNode x) \<and> gEndOfKeyRange x \<le> nEndOfKeyRange (pNode ?b)
      \<and> ((\<forall>k y. Gossip_Get (nGossip a') k = Some y \<and> k \<noteq> nId (pNode ?b) \<and> gState y = AVAILABLE
            \<and> token_of ''abc'' < gEndOfKeyRange y \<longrightarrow> nEndOfKeyRange (pNode ?b) < gEndOfKeyRange y)
          \<longrightarrow> x = own_entry 5 (pNode ?b'))"
    using bootstrapped_node_takes_over [OF ok e B m sample_side_ok _ t, of sample_old "[]" a' answer started "[]" "[]" "[]"] p k
    by (simp_all add: sample_side_def sample_new_def sample_old_def same_place_def own_entry_def)
  have "nEndOfKeyRange (pNode ?b) = 0xc000000000000000" by (simp add: sample_side_def sample_new_def)
  then show ?thesis using e B m p T(2) by metis
qed

subsection \<open>The source of a bootstrap\<close>

definition source_candidate :: "Node \<Rightarrow> NodeGossip \<Rightarrow> bool" where
  "source_candidate n x \<longleftrightarrow>
     (\<exists>k. Gossip_Get (nGossip n) k = Some x) \<and> gState x = AVAILABLE \<and> nEndOfKeyRange n + 1 \<le> gEndOfKeyRange x"

lemma find_Some_in: "find P xs = Some x \<Longrightarrow> P x \<and> x \<in> set xs"
  by (induction xs) (auto split: if_splits)

lemma GetNodeByToken_find:
  "GetNodeByToken eokr st ns token =
     (case find (\<lambda>x. st x = AVAILABLE \<and> token \<le> eokr x) ns of
        None \<Rightarrow> Inl ErrNoNodeWithRequiredEndOfKeyRange | Some x \<Rightarrow> Inr x)"
  by (induction ns) auto

text \<open>
  Which node a bootstrap copies from depends on the order of a Go map: the source is an available node
  whose range ends at or above the token after the new node's own (all available nodes, when that
  token wraps to 0), but any such node can be the one, in particular one that does not own the range
  the new node takes over.
\<close>

theorem bootstrap_source_depends_on_map_order:
  assumes "table_wf (nGossip n)"
  shows "(bootstrap_source ch n = Inr x \<longrightarrow> source_candidate n x)
    \<and> (source_candidate n x \<longrightarrow> (\<exists>ch'. bootstrap_source ch' n = Inr x))
    \<and> (nEndOfKeyRange n = TOTAL_SLOTS \<longrightarrow>
          source_candidate n x = ((\<exists>k. Gossip_Get (nGossip n) k = Some x) \<and> gState x = AVAILABLE))"
proof (intro conjI impI)
  let ?m = "gsStore (nGossip n)" and ?P = "\<lambda>x. gState x = AVAILABLE \<and> nEndOfKeyRange n + 1 \<le> gEndOfKeyRange x"
  have d: "distinct (map fst ?m)" using assms by (simp add: gossip_wf_def)
  have r: "Read c (nGossip n) = permute c ?m" for c by (rule Read_id [OF assms]) simp
  have src: "bootstrap_source ch n = (case find ?P (map snd (permute (chArr ch) (permute (chRead ch) ?m))) of
      None \<Rightarrow> Inl ErrNoNodeWithRequiredEndOfKeyRange | Some x \<Rightarrow> Inr x)" for ch
    by (simp add: bootstrap_source_def Let_def r MapToArr_eq GetNodeByToken_find)
  have get: "(k, y) \<in> set ?m \<longleftrightarrow> Gossip_Get (nGossip n) k = Some y" for k y
    using d by (simp add: Gossip_Get_def)
  show "source_candidate n x" if "bootstrap_source ch n = Inr x"
  proof -
    have "find ?P (map snd (permute (chArr ch) (permute (chRead ch) ?m))) = Some x"
      using that unfolding src by (auto split: option.splits)
    from find_Some_in [OF this] have "?P x" "x \<in> set (map snd (permute (chArr ch) (permute (chRead ch) ?m)))"
      by simp_all
    moreover from this(2) obtain k where "(k, x) \<in> set ?m" by auto
    ultimately show ?thesis using get unfolding source_candidate_def by blast
  qed
  show "\<exists>ch'. bootstrap_source ch' n = Inr x" if sc: "source_candidate n x"
  proof -
    obtain k where g: "Gossip_Get (nGossip n) k = Some x" "?P x" using sc unfolding source_candidate_def by blast
    then have k: "(k, x) \<in> set ?m" "?P x" unfolding get by blast+
    then have "mset ((k, x) # remove1 (k, x) ?m) = mset ?m" by simp
    then obtain c where c: "permute c ?m = (k, x) # remove1 (k, x) ?m"
      using permute_complete by metis
    have "bootstrap_source \<lparr>chRead = [], chArr = c, chSort = [], chStore = [], chQuery = [], chPerm = []\<rparr> n = Inr x"
      unfolding src using k(2) by (simp add: c)
    then show ?thesis by blast
  qed
  show "source_candidate n x = ((\<exists>k. Gossip_Get (nGossip n) k = Some x) \<and> gState x = AVAILABLE)"
    if "nEndOfKeyRange n = TOTAL_SLOTS"
    using that by (simp add: source_candidate_def TOTAL_SLOTS_max)
qed

lemma bootstrap_source_depends_on_map_order_witness:
  "\<exists>ch. bootstrap_source ch (sample_side sample_new) = Inr sample_old"
proof -
  have "source_candidate (sample_side sample_new) sample_old"
    unfolding source_candidate_def
    by (rule conjI, rule exI [of _ "''na''"])
      (simp_all add: sample_side_def sample_old_def sample_new_def TOTAL_SLOTS_def NodeGossip_Clone_def)
  moreover have "table_wf (nGossip (sample_side sample_new))"
    using sample_side_ok [of sample_new] by (simp add: node_ok_def)
  ultimately show ?thesis
    using bootstrap_source_depends_on_map_order [of "sample_side sample_new" _ sample_old] by blast
qed

end
