(* ===== verification/Cluster_Net.thy ===== *)
theory Cluster_Net
  imports Server_Props
begin

section \<open>A cluster of nodes\<close>

text \<open>
  The processes of a cluster and what travels between them. A step is a client's write at any node,
  with the redirect to another node if there is one, the arrival or the loss of one replicated write,
  a tick of one node's broadcast, the arrival of one gossip message; replicated writes and gossip wait
  in a bag, from which any of them may be taken next or never. A redirected request may not arrive, and
  its answer may get lost. Requests are matched to processes by the host in their URL.

  \<open>netLog\<close> is not part of the program: it lists the writes an owner has accepted, each with whether the
  client was told so.
\<close>

subsection \<open>State and steps\<close>

record 'h net =
  netProcs :: "'h Process list"
  netWire :: "(string \<times> HandlePostRawReq) list"
  netGossip :: "(string \<times> NodeGossip list) list"
  netLog :: "(string \<times> any \<times> bool) list"

text \<open>The body of a client's write, and what the effects of a handler send.\<close>

definition client_body :: "string \<Rightarrow> any \<Rightarrow> (string \<times> json) list option" where
  "client_body key val = Some [(''key'', JStr key), (''value'', val)]"

definition replications :: "'h effect list \<Rightarrow> (string \<times> HandlePostRawReq) list" where
  "replications effs = concat (map (\<lambda>e. case e of Replicate reqs q \<Rightarrow> reqs | _ \<Rightarrow> []) effs)"

definition redirects :: "'h effect list \<Rightarrow> post_request list" where
  "redirects effs = concat (map (\<lambda>e. case e of SendPost r \<Rightarrow> [r] | _ \<Rightarrow> []) effs)"

definition accepted :: "(nat \<times> reply) outcome \<Rightarrow> bool" where
  "accepted out \<longleftrightarrow> (case out of Ret (status, r) \<Rightarrow> status = 200 | Panic e \<Rightarrow> False)"

text \<open>A URL addressed to a process: its host, a path and nothing or a query.\<close>

definition addressed :: "string \<Rightarrow> 'h Process \<Rightarrow> string \<Rightarrow> bool" where
  "addressed url p path \<longleftrightarrow>
     take (length (nHost (pNode p) @ path)) url = nHost (pNode p) @ path
     \<and> (let q = drop (length (nHost (pNode p) @ path)) url in q = [] \<or> hd q = CHR ''?'')"

inductive net_step :: "'h net \<Rightarrow> 'h net \<Rightarrow> bool" where
  local_write:
    "a < length (netProcs N) \<Longrightarrow>
     postData ch (netProcs N ! a) include wq (client_body key val) redirect fanout = (p, out, effs) \<Longrightarrow>
     redirects effs = [] \<Longrightarrow>
     net_step N (N\<lparr>netProcs := (netProcs N)[a := p], netWire := netWire N @ replications effs,
       netLog := netLog N @ (if accepted out then [(key, val, True)] else [])\<rparr>)"
| redirected_write:
    "a < length (netProcs N) \<Longrightarrow> b < length (netProcs N) \<Longrightarrow>
     postData cha (netProcs N ! a) include wq (client_body key val) answer fanouta = (pa, outa, effsa) \<Longrightarrow>
     redirects effsa = [req] \<Longrightarrow> addressed (prUrl req) (netProcs N ! b) V1_DATA \<Longrightarrow>
     deliver_post chb ((netProcs N)[a := pa] ! b) req redirectb fanoutb = (pb, outb, effsb) \<Longrightarrow>
     answer = post_exchange outb \<or> answer = DoErr lost \<Longrightarrow>
     net_step N (N\<lparr>netProcs := (netProcs N)[a := pa, b := pb],
       netWire := netWire N @ replications effsa @ replications effsb,
       netLog := netLog N @ (if accepted outb then [(key, val, accepted outa)] else [])\<rparr>)"
| unreachable_write:
    "a < length (netProcs N) \<Longrightarrow>
     postData ch (netProcs N ! a) include wq (client_body key val) (DoErr lost) fanout = (p, out, effs) \<Longrightarrow>
     redirects effs = [req] \<Longrightarrow>
     net_step N (N\<lparr>netProcs := (netProcs N)[a := p], netWire := netWire N @ replications effs\<rparr>)"
| replicated_write:
    "netWire N = xs @ (url, b) # ys \<Longrightarrow> j < length (netProcs N) \<Longrightarrow>
     addressed url (netProcs N ! j) V1_REPLICA_DATA \<Longrightarrow>
     postReplicaData ch (netProcs N ! j) (Some b) = (p, out, effs) \<Longrightarrow>
     net_step N (N\<lparr>netProcs := (netProcs N)[j := p], netWire := xs @ ys\<rparr>)"
| lost_write:
    "netWire N = xs @ m # ys \<Longrightarrow> net_step N (N\<lparr>netWire := xs @ ys\<rparr>)"
| broadcast:
    "i < length (netProcs N) \<Longrightarrow>
     BroadcastGossip c c1 c2 now (pNode (netProcs N ! i)) = (n, sends) \<Longrightarrow>
     net_step N (N\<lparr>netProcs := (netProcs N)[i := (netProcs N ! i)\<lparr>pNode := n\<rparr>],
       netGossip := netGossip N @ sends\<rparr>)"
| gossip:
    "netGossip N = xs @ (host, gs) # ys \<Longrightarrow> j < length (netProcs N) \<Longrightarrow>
     host = nHost (pNode (netProcs N ! j)) \<Longrightarrow>
     postGossip c (pNode (netProcs N ! j)) (Some gs) = (n, answer, started) \<Longrightarrow>
     net_step N (N\<lparr>netProcs := (netProcs N)[j := (netProcs N ! j)\<lparr>pNode := n\<rparr>], netGossip := xs @ ys\<rparr>)"
| lost_gossip:
    "netGossip N = xs @ m # ys \<Longrightarrow> net_step N (N\<lparr>netGossip := xs @ ys\<rparr>)"

inductive net_steps :: "'h net \<Rightarrow> 'h net \<Rightarrow> bool" for N0 where
  net_refl: "net_steps N0 N0"
| net_next: "net_steps N0 N \<Longrightarrow> net_step N N' \<Longrightarrow> net_steps N0 N'"

text \<open>A read at node \<open>a\<close>, redirected to \<open>b\<close> if \<open>a\<close> sends it on: what the client gets.\<close>

definition net_read ::
    "(nat option \<Rightarrow> u64) \<Rightarrow> choices \<Rightarrow> choices \<Rightarrow> 'h Process \<Rightarrow> 'h Process \<Rightarrow> string \<Rightarrow> (nat \<times> reply) outcome" where
  "net_read conv cha chb a b key =
     (let (out, effs) = getData conv cha a [] key ''-1'' (DoErr BindError) (\<lambda>_ _. [])
      in case effs of
           [SendGet url] \<Rightarrow>
             (let (outb, effsb) = deliver_get conv chb b url (DoErr BindError) (\<lambda>_ _. [])
              in fst (getData conv cha a [] key ''-1'' (get_exchange outb) (\<lambda>_ _. [])))
         | _ \<Rightarrow> out)"

text \<open>A write at node \<open>a\<close>, likewise, when nothing gets lost: what the client is told.\<close>

definition net_write ::
    "choices \<Rightarrow> choices \<Rightarrow> 'h Process \<Rightarrow> 'h Process \<Rightarrow> string \<Rightarrow> string \<Rightarrow> string \<Rightarrow> any
      \<Rightarrow> (NodeGossip list \<Rightarrow> int \<Rightarrow> (NodeGossip \<times> error option) list) \<Rightarrow> (nat \<times> reply) outcome" where
  "net_write cha chb a b include wq key val fanout =
     (let (pa, out, effs) = postData cha a include wq (client_body key val) (DoErr BindError) fanout
      in case redirects effs of
           [req] \<Rightarrow>
             (let (pb, outb, effsb) = deliver_post chb b req (DoErr BindError) fanout
              in fst (snd (postData cha a include wq (client_body key val) (post_exchange outb) fanout)))
         | _ \<Rightarrow> out)"

subsection \<open>A stable membership\<close>

text \<open>
  Every node knows the same members, all of them available; what their clocks last said may differ.
  \<open>place\<close> forgets it. \<open>view_ok\<close> is what the members must satisfy: distinct hosts and range ends, one of
  them the greatest token, and more members than the replica count.
\<close>

type_synonym view = "string \<Rightarrow> NodeGossip option"

definition place :: "NodeGossip \<Rightarrow> NodeGossip" where
  "place g = g\<lparr>gLastUpdate := 0\<rparr>"

definition view_ok :: "view \<Rightarrow> int \<Rightarrow> bool" where
  "view_ok view rc \<longleftrightarrow>
     finite (dom view) \<and> 0 \<le> rc \<and> rc < int (card (dom view)) \<and> rc < 2 ^ 63 - 1
   \<and> (\<forall>k g. view k = Some g \<longrightarrow> gId g = k \<and> gState g = AVAILABLE \<and> http_host (gHost g) \<and> k \<noteq> [])
   \<and> inj_on gEndOfKeyRange (ran view) \<and> inj_on gHost (ran view)
   \<and> TOTAL_SLOTS \<in> gEndOfKeyRange ` ran view"

definition sees :: "view \<Rightarrow> table \<Rightarrow> bool" where
  "sees view t \<longleftrightarrow> table_wf t \<and> (\<forall>k. map_option place (Gossip_Get t k) = view k)"

definition member :: "view \<Rightarrow> int \<Rightarrow> 'h Process \<Rightarrow> bool" where
  "member view rc p \<longleftrightarrow>
     store_wf (pStore p) \<and> sees view (nGossip (pNode p)) \<and> pReplicaCount p = rc
   \<and> view (nId (pNode p)) = Some (own_entry 0 (pNode p))"

definition owns :: "view \<Rightarrow> string \<Rightarrow> string \<Rightarrow> bool" where
  "owns view key k \<longleftrightarrow>
     (\<exists>g. view k = Some g \<and> is_owner gEndOfKeyRange gState (ran view) (token_of key) g)"

lemma place_simps [simp]:
  "gId (place g) = gId g" "gHost (place g) = gHost g" "gEndOfKeyRange (place g) = gEndOfKeyRange g"
  "gState (place g) = gState g" "gReplicaCount (place g) = gReplicaCount g" "gLastUpdate (place g) = 0"
  "place (own_entry now n) = own_entry 0 n" "place (place g) = place g"
  by (simp_all add: place_def own_entry_def)

lemma owns_unique: "view_ok view rc \<Longrightarrow> owns view key k \<Longrightarrow> owns view key k' \<Longrightarrow> k = k'"
  unfolding owns_def view_ok_def by (metis is_owner_unique)

end
