(* ===== verification/Register_Props.thy ===== *)
theory Register_Props
  imports Cluster_Net
begin

section \<open>A cluster with a stable membership is a versioned register\<close>

text \<open>
  The steps of \<open>Cluster_Net\<close> against the simplest specification: a list of accepted writes. First what
  one member computes from its table, then what each step does to the invariant, then the theorem.
\<close>

subsection \<open>What a member knows\<close>

lemma view_okD:
  assumes "view_ok view rc" "view k = Some g"
  shows "gId g = k" "gState g = AVAILABLE" "http_host (gHost g)" "k \<noteq> []"
  using assms by (auto simp: view_ok_def)

lemma set_ring_of:
  assumes "table_wf (nGossip (pNode p))"
  shows "x \<in> set (ring_of ch p) \<longleftrightarrow> (\<exists>k. Gossip_Get (nGossip (pNode p)) k = Some x)"
proof -
  have "distinct (map fst (gsStore (nGossip (pNode p))))" using assms by (simp add: gossip_wf_def)
  moreover have "set (ring_of ch p) = snd ` set (gsStore (nGossip (pNode p)))"
    using mset_eq_setD [OF ring_of_members [OF assms, of ch]] by simp
  ultimately show ?thesis by (force simp: Gossip_Get_def)
qed

lemma sees_entry:
  assumes "view_ok view rc" "sees view t" "Gossip_Get t k = Some x"
  shows "view k = Some (place x)" "gId x = k"
proof -
  have "map_option place (Gossip_Get t k) = view k" using assms(2) unfolding sees_def by blast
  then show v: "view k = Some (place x)" using assms(3) by (metis option.simps(9))
  from view_okD(1) [OF assms(1) v] show "gId x = k" by simp
qed

lemma ring_of_view:
  assumes "view_ok view rc" "member view rc p"
  shows "x \<in> set (ring_of ch p) \<Longrightarrow> view (gId x) = Some (place x)" "place ` set (ring_of ch p) = ran view"
proof -
  let ?t = "nGossip (pNode p)"
  have s: "sees view ?t" and wf: "table_wf ?t" using assms(2) by (simp_all add: member_def sees_def)
  have e: "view (gId x) = Some (place x)" if "x \<in> set (ring_of ch p)" for x
  proof -
    have "\<exists>k. Gossip_Get ?t k = Some x" using that by (simp only: set_ring_of [OF wf])
    then obtain k where "Gossip_Get ?t k = Some x" ..
    from sees_entry [OF assms(1) s this] show ?thesis by simp
  qed
  then show "x \<in> set (ring_of ch p) \<Longrightarrow> view (gId x) = Some (place x)" .
  have "g \<in> place ` set (ring_of ch p)" if "view k = Some g" for k g
  proof -
    have "map_option place (Gossip_Get ?t k) = Some g" using s that unfolding sees_def by metis
    then obtain x where "Gossip_Get ?t k = Some x" "place x = g" by auto
    then have "x \<in> set (ring_of ch p)" by (simp only: set_ring_of [OF wf]) blast
    then show ?thesis using \<open>place x = g\<close> by blast
  qed
  with e show "place ` set (ring_of ch p) = ran view" by (auto simp: ran_def)
qed

lemma members_counted:
  assumes "view_ok view rc" "member view rc p"
  shows "length (ring_of ch p) = card (dom view)" "distinct (map gId (ring_of ch p))"
    "NumNodeInState (nGossip (pNode p)) AVAILABLE = int (card (dom view))"
proof -
  let ?t = "nGossip (pNode p)"
  have s: "sees view ?t" and wf: "table_wf ?t" using assms(2) by (simp_all add: member_def sees_def)
  have d: "distinct (map fst (gsStore ?t))" using wf by (simp add: gossip_wf_def)
  have "map_option place (map_of (gsStore ?t) k) = view k" for k
    using s by (simp add: sees_def Gossip_Get_def)
  then have "dom (map_of (gsStore ?t)) = dom view" by (metis (mono_tags) domIff map_option_is_None subsetI subset_antisym)
  then have len: "length (gsStore ?t) = card (dom view)"
    using distinct_card [OF d] by (simp add: dom_map_of_conv_image_fst)
  then show "length (ring_of ch p) = card (dom view)"
    using ring_of_members [OF wf, of ch] by (metis length_map size_mset)
  have entry: "gId x = k \<and> gState x = AVAILABLE" if "(k, x) \<in> set (gsStore ?t)" for k x
  proof -
    have g: "Gossip_Get ?t k = Some x" using that d by (simp add: Gossip_Get_def)
    from sees_entry [OF assms(1) s g] view_okD(2) [OF assms(1)] show ?thesis by (metis place_simps(4))
  qed
  have "map gId (map snd (gsStore ?t)) = map fst (gsStore ?t)"
    using entry by (auto simp: case_prod_beta)
  moreover have "mset (map gId (ring_of ch p)) = mset (map gId (map snd (gsStore ?t)))"
    using ring_of_members [OF wf, of ch] by (metis mset_map)
  ultimately show "distinct (map gId (ring_of ch p))"
    using d by (metis mset_eq_imp_distinct_iff)
  have "NumNodeInState ?t AVAILABLE = in_state gState AVAILABLE (gsStore ?t)"
    using wf by (simp add: gossip_wf_def)
  also have "filter (\<lambda>(k, v). gState v = AVAILABLE) (gsStore ?t) = gsStore ?t"
    using entry by (auto simp: filter_id_conv)
  then have "in_state gState AVAILABLE (gsStore ?t) = int (length (gsStore ?t))" by (simp add: in_state_def)
  finally show "NumNodeInState ?t AVAILABLE = int (card (dom view))" by (simp add: len)
qed

lemma member_owner:
  assumes "view_ok view rc" "member view rc p"
  shows "\<exists>g. GetNode gEndOfKeyRange gState (ring_of ch p) (token_of key) = Inr g
    \<and> view (gId g) = Some (place g) \<and> owns view key (gId g)"
proof (cases "GetNode gEndOfKeyRange gState (ring_of ch p) (token_of key)")
  case (Inl e)
  obtain k g where "view k = Some g" "gEndOfKeyRange g = TOTAL_SLOTS"
    using assms(1) by (force simp: view_ok_def ran_def)
  moreover from this obtain x where x: "x \<in> set (ring_of ch p)" "g = place x"
    using ring_of_view(2) [OF assms, of ch] by (force simp: ran_def)
  ultimately have "is_candidate gEndOfKeyRange gState (token_of key) x"
    using view_okD(2) [OF assms(1), of k "place x"] token_of_less by (simp add: is_candidate_def)
  then have "\<exists>x \<in> set (ring_of ch p). is_candidate gEndOfKeyRange gState (token_of key) x"
    using x(1) by blast
  then show ?thesis using GetNode_sorted(2) [OF ring_of_sorted, of gState ch p] Inl by blast
next
  case (Inr g)
  have o: "is_owner gEndOfKeyRange gState (set (ring_of ch p)) (token_of key) g"
    by (rule GetNode_sorted(1) [OF ring_of_sorted Inr])
  then have g: "view (gId g) = Some (place g)" using ring_of_view(1) [OF assms] by (auto simp: is_owner_def)
  have "is_owner gEndOfKeyRange gState (place ` set (ring_of ch p)) (token_of key) (place g)"
    using o by (auto simp: is_owner_def is_candidate_def)
  then show ?thesis using Inr g ring_of_view(2) [OF assms, of ch] by (auto simp: owns_def)
qed

subsection \<open>A write at a member\<close>

text \<open>A replicated write on its way: to a member that does not own the key.\<close>

definition wire_ok :: "view \<Rightarrow> string \<times> HandlePostRawReq \<Rightarrow> bool" where
  "wire_ok view m \<longleftrightarrow>
     (\<exists>g. view (gId g) = Some (place g) \<and> fst m = gHost g @ V1_REPLICA_DATA \<and> \<not> owns view (rqKey (snd m)) (gId g))"

lemma client_body_parse:
  "(\<exists>r. postData_parse rc mis (client_body key val) wq = Ret (Inl (400, r)))
   \<or> (\<exists>s q. postData_parse rc mis (client_body key val) wq = Ret (Inr (key, val, s, q)))"
  by (auto simp: postData_parse_def client_body_def Let_def split: sum.splits)

lemma effects_simps [simp]:
  "replications [] = []" "redirects [] = []"
  "replications [SendPost r] = []" "redirects [SendPost r] = [r]"
  "replications (xs @ ys) = replications xs @ replications ys" "redirects (xs @ ys) = redirects xs @ redirects ys"
  "replications (map HookCall calls) = []" "redirects (map HookCall calls) = []"
  "replications [Replicate reqs q] = reqs" "redirects [Replicate reqs q] = []"
  "accepted (Ret (st, rep)) = (st = 200)" "accepted (Panic e) = False"
  by (auto simp: replications_def redirects_def accepted_def)

text \<open>The peers \<open>GetNNode\<close> returns after the owner are other members.\<close>

lemma replica_peers:
  assumes "view_ok view rc" "member view rc p"
  shows "\<exists>owner replicas. GetNNode gEndOfKeyRange gState (ring_of ch p) (token_of key) (int64 (pReplicaCount p + 1))
      = Ret (Inr (owner # replicas))
    \<and> GetNode gEndOfKeyRange gState (ring_of ch p) (token_of key) = Inr owner
    \<and> (\<forall>x \<in> set replicas. view (gId x) = Some (place x) \<and> \<not> owns view key (gId x))"
proof -
  let ?ns = "ring_of ch p"
  let ?g = "GetNNode gEndOfKeyRange gState ?ns (token_of key) (int64 (pReplicaCount p + 1))"
  have rc: "pReplicaCount p = rc" "0 \<le> rc" "rc < 2 ^ 63 - 1" "rc < int (card (dom view))"
    using assms by (simp_all add: member_def view_ok_def)
  have i: "int64 (rc + 1) = rc + 1" using rc by (intro int64_id) simp_all
  obtain own where own: "GetNode gEndOfKeyRange gState ?ns (token_of key) = Inr own"
    "view (gId own) = Some (place own)" "owns view key (gId own)" using member_owner [OF assms] by blast
  have "?g = Ret (Inr (map (\<lambda>i. ?ns ! ((nat (start_loop gEndOfKeyRange gState (token_of key) 0 ?ns) + i) mod length ?ns))
      [0..<nat (rc + 1)]))"
    using rc(2,4) members_counted(1) [OF assms, of ch] by (simp add: rc(1) i GetNNode_eq own Let_def)
  then obtain xs where xs: "?g = Ret (Inr xs)" by blast
  have "xs \<noteq> []" "GetNode gEndOfKeyRange gState ?ns (token_of key) = Inr (hd xs)"
    using replicas_Ret(2,3) [OF xs] rc by simp_all
  then have h: "xs = own # tl xs" using own(1) by (cases xs) simp_all
  obtain n s where "xs = take n (rotate s ?ns)" using GetNNode_Inr [OF xs] by blast
  then have "set xs \<subseteq> set ?ns" "distinct (map gId xs)"
    using members_counted(2) [OF assms, of ch]
    by (auto simp: take_map [symmetric] rotate_map [symmetric] dest: in_set_takeD)
  moreover have "distinct (map gId (own # tl xs))" using calculation(2) h by simp
  ultimately have "view (gId x) = Some (place x) \<and> \<not> owns view key (gId x)" if "x \<in> set (tl xs)" for x
  proof -
    have "x \<in> set ?ns" using that \<open>set xs \<subseteq> set ?ns\<close> by (cases xs) auto
    moreover have "gId x \<noteq> gId own" using \<open>distinct (map gId (own # tl xs))\<close> imageI [OF that, of gId] by auto
    ultimately show ?thesis using ring_of_view(1) [OF assms, of x ch] owns_unique [OF assms(1) own(3), of "gId x"]
      by metis
  qed
  then show ?thesis using xs h own(1) by metis
qed

lemma postData_member:
  assumes "view_ok view rc" "member view rc p"
    and "postData ch p include wq (client_body key val) redirect fanout = (p', out, effs)"
  shows "owns view key (nId (pNode p)) \<and> redirects effs = [] \<and> accepted out
      \<and> p' = p\<lparr>pStore := written (chStore ch) (pStore p) key val None False\<rparr>
      \<and> (\<forall>m \<in> set (replications effs). wire_ok view m)
    \<or> p' = p \<and> replications effs = [] \<and> redirects effs = [] \<and> \<not> accepted out
    \<or> p' = p \<and> replications effs = [] \<and> \<not> owns view key (nId (pNode p))
      \<and> (\<exists>g s. redirects effs = [PostKeyValue_request (chQuery ch) g key val [(''writequorum'', s), (''redirected'', ''true'')]]
          \<and> owns view key (gId g) \<and> view (gId g) = Some (place g))"
proof -
  let ?mis = "mislaneous_of include [''trace'']"
  have wf: "store_wf (pStore p)" and rc: "pReplicaCount p = rc" "rc \<le> int (card (dom view))"
    using assms(1,2) by (simp_all add: member_def view_ok_def)
  consider r where "postData_parse (pReplicaCount p) ?mis (client_body key val) wq = Ret (Inl (400, r))"
    | s q where "postData_parse (pReplicaCount p) ?mis (client_body key val) wq = Ret (Inr (key, val, s, q))"
    using client_body_parse by blast
  then show ?thesis
  proof cases
    case (1 r)
    then show ?thesis using assms(3) by (auto simp: postData_def)
  next
    case (2 s q)
    from replica_peers [OF assms(1,2), of ch key] obtain owner replicas where
      g: "GetNNode gEndOfKeyRange gState (ring_of ch p) (token_of key) (int64 (pReplicaCount p + 1)) = Ret (Inr (owner # replicas))"
      "GetNode gEndOfKeyRange gState (ring_of ch p) (token_of key) = Inr owner"
      "\<forall>x \<in> set replicas. view (gId x) = Some (place x) \<and> \<not> owns view key (gId x)" by blast
    have o: "view (gId owner) = Some (place owner)" "owns view key (gId owner)"
      using member_owner [OF assms(1,2), of ch key] g(2) by auto
    show ?thesis
    proof (cases "gId owner = nId (pNode p)")
      case True
      have "owned_write ch p ?mis wq (client_body key val) key val q owner"
        using 2 g(2) True rc members_counted(3) [OF assms(1,2)] by (simp add: owned_write_def)
      note W = postData_owned [OF wf this, of redirect fanout, unfolded g Let_def slice_from_1_def postData_fanout_def]
      have "wire_ok view (PostRawKeyValue_request x key val n)" if "x \<in> set replicas" for x n
        using g(3) that by (auto simp: wire_ok_def PostRawKeyValue_request_def intro!: exI [of _ x])
      then show ?thesis using assms(3) W True o(2) by auto
    next
      case False
      have "\<not> owns view key (nId (pNode p))" using owns_unique [OF assms(1) o(2)] False by blast
      moreover have "postData ch p include wq (client_body key val) redirect fanout
          = postData_redirect (chQuery ch) p ?mis owner key val s redirect"
        using 2 g(2) False by (simp add: postData_def Let_def ring_of_def)
      ultimately show ?thesis using assms(3) o
        by (auto simp: postData_redirect_def Let_def split: option.splits)
    qed
  qed
qed

subsection \<open>Gossip at a member\<close>

definition known_entries :: "view \<Rightarrow> NodeGossip list \<Rightarrow> bool" where
  "known_entries view gs \<longleftrightarrow> (\<forall>g \<in> set gs. view (gId g) = Some (place g))"

lemma sees_merge:
  "sees view t \<Longrightarrow> known_entries view gs \<Longrightarrow> sees view (merge_loop Gossip_Get Upsert t gs)"
proof (induction gs arbitrary: t)
  case (Cons g gs)
  let ?t = "merge_loop Gossip_Get Upsert t [g]"
  have t: "table_wf t" "map_option place (Gossip_Get t k) = view k" for k
    using Cons.prems(1) unfolding sees_def by simp_all
  have g: "view (gId g) = Some (place g)" using Cons.prems(2) by (simp add: known_entries_def)
  then obtain val where val: "Gossip_Get t (gId g) = Some val" "place val = place g"
    using t(2) [of "gId g"] by auto
  have "place (val\<lparr>gLastUpdate := gLastUpdate g, gState := gState g\<rparr>) = place val"
    using arg_cong [OF val(2), of gState] by (cases val) (simp add: place_def)
  then have "map_option place (Gossip_Get ?t k) = view k" for k
    using t(2) [of k] val unfolding table.merge_step_get by auto
  then have "sees view ?t" using table.wf_merge [OF t(1)] unfolding sees_def by blast
  moreover have "known_entries view gs" using Cons.prems(2) by (simp add: known_entries_def)
  ultimately show ?case by (subst table.merge_Cons) (rule Cons.IH)
qed (simp add: sees_def)

lemma member_node:
  assumes "view_ok view rc" "member view rc p"
  shows "nState (pNode p) = AVAILABLE" "nId (pNode p) \<noteq> []" "http_host (nHost (pNode p))"
  using view_okD(2-4) [OF assms(1), of "nId (pNode p)" "own_entry 0 (pNode p)"] assms(2)
  by (simp_all add: member_def own_entry_def)

lemma broadcast_member:
  assumes "view_ok view rc" "member view rc p" "BroadcastGossip c c1 c2 now (pNode p) = (n, sends)"
  shows "member view rc (p\<lparr>pNode := n\<rparr>) \<and> nId n = nId (pNode p) \<and> (\<forall>m \<in> set sends. known_entries view (snd m))"
proof -
  let ?n = "pNode p" and ?e = "own_entry now (pNode p)"
  let ?t = "Upsert (nGossip ?n) (nId ?n) ?e"
  have t: "table_wf (nGossip ?n)" "map_option place (Gossip_Get (nGossip ?n) k) = view k" for k
    using assms(2) unfolding member_def sees_def by simp_all
  have v: "view (nId ?n) = Some (own_entry 0 ?n)" using assms(2) by (simp add: member_def)
  have wf: "table_wf ?t" by (rule gossip_wf_Upsert [OF t(1)])
  have "map_option place (Gossip_Get ?t k) = view k" for k
    using t(2) [of k] v by (cases "k = nId ?n") (simp_all del: NodeGossip_accessors)
  then have s: "sees view ?t" using wf unfolding sees_def by blast
  have e: "known_entries view (map snd (permute c1 (Read c ?t)))"
    unfolding known_entries_def
  proof
    fix x
    assume "x \<in> set (map snd (permute c1 (Read c ?t)))"
    then obtain k where "(k, x) \<in> set (Read c ?t)" by auto
    then have "Gossip_Get ?t k = Some x"
      using map_of_is_SomeI [OF distinct_Read] map_of_Read_table [OF wf, of c] by metis
    from sees_entry [OF assms(1) s this] show "view (gId x) = Some (place x)" by metis
  qed
  have B: "n = ?n\<lparr>nGossip := ?t\<rparr>" "\<forall>m \<in> set sends. snd m = map snd (permute c1 (Read c ?t))"
    using assms(3) member_node(2) [OF assms(1,2)]
    by (auto simp: BroadcastGossip_def Let_def simp del: NodeGossip_accessors NodeGossip_Clone_id)
  have "own_entry 0 (?n\<lparr>nGossip := ?t\<rparr>) = own_entry 0 ?n" by (simp add: own_entry_def)
  then show ?thesis using assms(2) s e B unfolding member_def by simp
qed

lemma gossip_member:
  assumes "view_ok view rc" "member view rc p" "known_entries view gs"
    and "postGossip c (pNode p) (Some gs) = (n, answer, started)"
  shows "member view rc (p\<lparr>pNode := n\<rparr>) \<and> nId n = nId (pNode p)"
proof -
  let ?t = "merge_loop Gossip_Get Upsert (nGossip (pNode p)) gs"
  have "n = fst (changeStateToBootStrappingIfReady ((pNode p)\<lparr>nGossip := ?t\<rparr>))"
    using assms(4) by (simp add: postGossip_Some Let_def del: NodeGossip_accessors)
  also have "\<dots> = (pNode p)\<lparr>nGossip := ?t\<rparr>"
    using member_node(1) [OF assms(1,2)] by (simp add: changeStateToBootStrappingIfReady_def)
  finally have n: "n = (pNode p)\<lparr>nGossip := ?t\<rparr>" .
  have "sees view ?t" using sees_merge [OF _ assms(3)] assms(2) by (simp add: member_def)
  moreover have "own_entry 0 n = own_entry 0 (pNode p)" by (simp add: n own_entry_def)
  ultimately show ?thesis using assms(2) unfolding member_def by (simp add: n)
qed

subsection \<open>Hosts\<close>

lemma host_unique:
  assumes "http_host h1" "http_host h2" "h1 @ CHR ''/'' # r1 = h2 @ CHR ''/'' # r2"
  shows "h1 = h2"
proof -
  have h: "h1 = ''http://'' @ drop 7 h1" "h2 = ''http://'' @ drop 7 h2"
    and s: "CHR ''/'' \<notin> set (drop 7 h1)" "CHR ''/'' \<notin> set (drop 7 h2)"
    using assms(1,2) append_take_drop_id [of 7 h1] append_take_drop_id [of 7 h2] by (simp_all add: http_host_def)
  have t: "takeWhile (\<lambda>c. c \<noteq> CHR ''/'') (d @ CHR ''/'' # r) = d" if "CHR ''/'' \<notin> set d" for d r
    using that by (subst takeWhile_append2) auto
  have "drop 7 h1 @ CHR ''/'' # r1 = drop 7 h2 @ CHR ''/'' # r2"
    using assms(3) by (subst (asm) h(1), subst (asm) h(2)) simp
  then have "drop 7 h1 = drop 7 h2" using t [OF s(1), of r1] t [OF s(2), of r2] by simp
  then show ?thesis using h by metis
qed

lemma addressed_member:
  assumes "view_ok view rc" "member view rc p" "view (gId g) = Some (place g)" "path = CHR ''/'' # r"
    and "addressed (gHost g @ path @ q) p path"
  shows "gId g = nId (pNode p)"
proof -
  let ?h = "nHost (pNode p)"
  have "gHost g @ path @ q = ?h @ path @ drop (length (?h @ path)) (gHost g @ path @ q)"
    using assms(5) append_take_drop_id [of "length (?h @ path)" "gHost g @ path @ q"]
    unfolding addressed_def by (metis append.assoc)
  then have "gHost g @ CHR ''/'' # (r @ q) = ?h @ CHR ''/'' # (r @ drop (length (?h @ path)) (gHost g @ path @ q))"
    by (simp add: assms(4))
  moreover have "http_host (gHost g)" using view_okD(3) [OF assms(1,3)] by simp
  ultimately have "gHost (place g) = gHost (own_entry 0 (pNode p))"
    using host_unique member_node(3) [OF assms(1,2)] by (simp add: own_entry_def)
  moreover have "view (nId (pNode p)) = Some (own_entry 0 (pNode p))" using assms(2) by (simp add: member_def)
  ultimately have "place g = own_entry 0 (pNode p)"
    using assms(1,3) by (metis view_ok_def inj_onD ranI)
  then have "gId (place g) = gId (own_entry 0 (pNode p))" by simp
  then show ?thesis by (simp add: own_entry_def)
qed

subsection \<open>The invariant\<close>

text \<open>The values accepted for a key, in order.\<close>

definition writes_of :: "(string \<times> any \<times> bool) list \<Rightarrow> string \<Rightarrow> any list" where
  "writes_of lg key = map (\<lambda>(k, v, told). v) (filter (\<lambda>(k, v, told). k = key) lg)"

definition procs_ok :: "view \<Rightarrow> int \<Rightarrow> (string \<Rightarrow> any list) \<Rightarrow> 'h Process list \<Rightarrow> bool" where
  "procs_ok view rc f ps \<longleftrightarrow>
     distinct (map (nId \<circ> pNode) ps)
   \<and> (\<forall>p \<in> set ps. member view rc p
        \<and> (\<forall>key. owns view key (nId (pNode p)) \<longrightarrow> history (pStore p) key = owner_history (f key)))"

definition net_ok :: "view \<Rightarrow> int \<Rightarrow> 'h net \<Rightarrow> bool" where
  "net_ok view rc N \<longleftrightarrow>
     procs_ok view rc (writes_of (netLog N)) (netProcs N)
   \<and> (\<forall>m \<in> set (netWire N). wire_ok view m) \<and> (\<forall>m \<in> set (netGossip N). known_entries view (snd m))"

lemma writes_of_simps [simp]:
  "writes_of [] key = []"
  "writes_of (lg @ [(k, v, told)]) key = writes_of lg key @ (if k = key then [v] else [])"
  by (simp_all add: writes_of_def)

lemma length_writes_of: "length (writes_of lg key) \<le> length lg"
  by (simp add: writes_of_def)

text \<open>One process changes; the keys whose writes change are its own.\<close>

lemma procs_ok_update:
  assumes "view_ok view rc" "procs_ok view rc f ps" "a < length ps" "member view rc p"
    and "nId (pNode p) = nId (pNode (ps ! a))"
    and "\<forall>key. owns view key (nId (pNode p)) \<longrightarrow> history (pStore p) key = owner_history (f' key)"
    and "\<forall>key. f' key \<noteq> f key \<longrightarrow> owns view key (nId (pNode p))"
  shows "procs_ok view rc f' (ps[a := p])"
proof -
  let ?ids = "map (nId \<circ> pNode) ps"
  have d: "distinct ?ids" using assms(2) by (simp add: procs_ok_def)
  have "map (nId \<circ> pNode) (ps[a := p]) = ?ids"
    using assms(3,5) by (simp add: map_update list_update_same_conv)
  moreover have "member view rc x \<and> (\<forall>key. owns view key (nId (pNode x)) \<longrightarrow> history (pStore x) key = owner_history (f' key))"
    if x: "x \<in> set (ps[a := p])" for x
  proof -
    obtain i where i: "i < length ps" "x = ps[a := p] ! i" using x by (auto simp: in_set_conv_nth)
    show ?thesis
    proof (cases "i = a")
      case True
      then show ?thesis using i assms(4,6) by simp
    next
      case False
      then have xi: "x = ps ! i" "x \<in> set ps" using i by simp_all
      have "nId (pNode x) \<noteq> nId (pNode p)"
        using d i(1) assms(3,5) False nth_eq_iff_index_eq [OF d, of i a] by (simp add: xi)
      then have "f' key = f key" if "owns view key (nId (pNode x))" for key
        using assms(7) owns_unique [OF assms(1) that] by blast
      then show ?thesis using assms(2) xi(2) by (simp add: procs_ok_def)
    qed
  qed
  ultimately show ?thesis using d by (simp add: procs_ok_def)
qed

lemma procs_okD:
  assumes "procs_ok view rc f ps" "a < length ps"
  shows "member view rc (ps ! a)"
    "owns view key (nId (pNode (ps ! a))) \<Longrightarrow> history (pStore (ps ! a)) key = owner_history (f key)"
  using assms nth_mem [OF assms(2)] by (auto simp: procs_ok_def)

lemma member_store:
  "member view rc p \<Longrightarrow> member view rc (p\<lparr>pStore := written c (pStore p) key val version r\<rparr>)"
  by (simp add: member_def store_wf_written)

text \<open>An accepted write at the owner appends the value.\<close>

lemma owner_history_written:
  assumes "history d key = owner_history vs" "Suc (length vs) < 2 ^ 64"
  shows "history (written c d key val None False) key = owner_history (vs @ [val])"
proof -
  have "next_version d key None = of_nat (Suc (length vs))"
    by (cases "vs = []") (simp_all add: next_version_def latest_simps assms(1) last_version_owner_history add.commute)
  then have "new_entry d key val None False = \<lparr>eValue = val, eVersion = of_nat (Suc (length vs)), eIsReplica = False\<rparr>"
    by (simp add: new_entry_def)
  moreover have "sort_slice c eVersion (owner_history (vs @ [val])) = owner_history (vs @ [val])"
    by (rule owner_history_sort) (use assms(2) in simp)
  ultimately show ?thesis by (simp add: history_written assms(1))
qed

lemma procs_ok_write:
  assumes "view_ok view rc" "procs_ok view rc (writes_of lg) ps" "a < length ps"
    and "owns view key (nId (pNode (ps ! a)))" "Suc (length lg) < 2 ^ 64"
  shows "procs_ok view rc (writes_of (lg @ [(key, val, told)]))
    (ps[a := (ps ! a)\<lparr>pStore := written c (pStore (ps ! a)) key val None False\<rparr>])"
proof (rule procs_ok_update [OF assms(1-3) member_store [OF procs_okD(1) [OF assms(2,3)]]])
  let ?p = "(ps ! a)\<lparr>pStore := written c (pStore (ps ! a)) key val None False\<rparr>"
  have "Suc (length (writes_of lg key)) < 2 ^ 64" using assms(5) length_writes_of [of lg key] by simp
  note W = owner_history_written [OF procs_okD(2) [OF assms(2-4)] this, of c val]
  have "history (pStore ?p) k = owner_history (writes_of (lg @ [(key, val, told)]) k)"
    if "owns view k (nId (pNode (ps ! a)))" for k
  proof (cases "k = key")
    case True
    then show ?thesis using W by (simp del: owner_history_snoc)
  next
    case False
    then show ?thesis using procs_okD(2) [OF assms(2,3) that] by (simp add: history_written)
  qed
  then show "\<forall>k. owns view k (nId (pNode ?p)) \<longrightarrow>
      history (pStore ?p) k = owner_history (writes_of (lg @ [(key, val, told)]) k)" by simp
  show "\<forall>k. writes_of (lg @ [(key, val, told)]) k \<noteq> writes_of lg k \<longrightarrow> owns view k (nId (pNode ?p))"
    using assms(4) by simp
qed simp

subsection \<open>Steps keep the invariant\<close>

lemma net_okD:
  assumes "net_ok view rc N"
  shows "procs_ok view rc (writes_of (netLog N)) (netProcs N)" "\<forall>m \<in> set (netWire N). wire_ok view m"
    "\<forall>m \<in> set (netGossip N). known_entries view (snd m)"
  using assms by (simp_all add: net_ok_def)

lemma net_step_log: "net_step N N' \<Longrightarrow> length (netLog N) \<le> length (netLog N')"
  by (cases rule: net_step.cases) auto

text \<open>What any member does with a write: the effect on the processes, the wire and the log.\<close>

lemma write_keeps:
  assumes "view_ok view rc" "procs_ok view rc (writes_of lg) ps" "b < length ps" "Suc (length lg) < 2 ^ 64"
    and "postData ch (ps ! b) include wq (client_body key val) redirect fanout = (p, out, effs)"
    and "redirects effs = [] \<or> owns view key (nId (pNode (ps ! b)))"
  shows "procs_ok view rc (writes_of (lg @ (if accepted out then [(key, val, told)] else []))) (ps[b := p])
    \<and> (\<forall>m \<in> set (replications effs). wire_ok view m)"
  using postData_member [OF assms(1) procs_okD(1) [OF assms(2,3)] assms(5)]
proof (elim disjE conjE exE)
  assume "owns view key (nId (pNode (ps ! b)))" "accepted out" "\<forall>m \<in> set (replications effs). wire_ok view m"
    "p = (ps ! b)\<lparr>pStore := written (chStore ch) (pStore (ps ! b)) key val None False\<rparr>"
  then show ?thesis using procs_ok_write [OF assms(1-3) _ assms(4)] by simp
qed (use assms(2,3,6) in \<open>simp_all add: list_update_id\<close>)

lemma redirect_facts:
  assumes "view_ok view rc" "member view rc p"
    and "postData ch p include wq (client_body key val) redirect fanout = (p', out, effs)" "redirects effs = [req]"
  shows "p' = p" "replications effs = []" "prKey req = key" "prValue req = val"
    "member view rc p2 \<Longrightarrow> addressed (prUrl req) p2 V1_DATA \<Longrightarrow> owns view key (nId (pNode p2))"
proof -
  obtain g s where r: "p' = p" "replications effs = []"
      "req = PostKeyValue_request (chQuery ch) g key val [(''writequorum'', s), (''redirected'', ''true'')]"
      "owns view key (gId g)" "view (gId g) = Some (place g)"
    using postData_member [OF assms(1-3)] assms(4) by auto
  then show "p' = p" "replications effs = []" "prKey req = key" "prValue req = val"
    by (simp_all add: PostKeyValue_request_def)
  have path: "V1_DATA = CHR ''/'' # ''v1/data''" by (simp add: V1_DATA_def)
  show "owns view key (nId (pNode p2))" if "member view rc p2" "addressed (prUrl req) p2 V1_DATA"
    using addressed_member [OF assms(1) that(1) r(5) path] that(2) r(3,4) by (simp add: PostKeyValue_request_def)
qed

lemma replica_keeps:
  assumes "view_ok view rc" "procs_ok view rc f ps" "j < length ps" "wire_ok view (url, b)"
    and "addressed url (ps ! j) V1_REPLICA_DATA" "postReplicaData ch (ps ! j) (Some b) = (p, out, effs)"
  shows "procs_ok view rc f (ps[j := p])"
proof -
  have m: "member view rc (ps ! j)" by (rule procs_okD(1) [OF assms(2,3)])
  then have wf: "store_wf (pStore (ps ! j))" by (simp add: member_def)
  have p: "p = (ps ! j)\<lparr>pStore := written (chStore ch) (pStore (ps ! j)) (rqKey b) (rqValue b) (Some (rqVersion b)) True\<rparr>"
    using assms(6) by (auto simp: postReplicaData_def PutRaw_eq [OF wf])
  obtain g where g: "view (gId g) = Some (place g)" "url = gHost g @ V1_REPLICA_DATA" "\<not> owns view (rqKey b) (gId g)"
    using assms(4) by (auto simp: wire_ok_def)
  have path: "V1_REPLICA_DATA = CHR ''/'' # ''v1/replica/data''" by (simp add: V1_REPLICA_DATA_def)
  have "gId g = nId (pNode (ps ! j))"
    using addressed_member [OF assms(1) m g(1) path, of "[]"] assms(5) g(2) by simp
  then have no: "\<not> owns view (rqKey b) (nId (pNode (ps ! j)))" using g(3) by simp
  have "history (pStore p) key = owner_history (f key)" if "owns view key (nId (pNode (ps ! j)))" for key
    using procs_okD(2) [OF assms(2,3) that] no that by (auto simp: p history_written)
  then show ?thesis
    by (intro procs_ok_update [OF assms(1-3)]) (simp_all add: p member_store m)
qed

lemma net_ok_step:
  assumes "view_ok view rc" "net_ok view rc N" "net_step N N'" "length (netLog N') < 2 ^ 64 - 1"
  shows "net_ok view rc N'"
proof -
  note ok = net_okD [OF assms(2)]
  have len: "Suc (length (netLog N)) < 2 ^ 64" using net_step_log [OF assms(3)] assms(4) by simp
  from assms(3) show ?thesis
  proof (cases rule: net_step.cases)
    case (local_write a ch incl wq key val redirect fanout p out effs)
    from write_keeps [OF assms(1) ok(1) local_write(2) len local_write(3), of True] local_write(4) ok(2,3)
    show ?thesis by (auto simp: local_write(1) net_ok_def)
  next
    case (redirected_write a b cha incl wq key val answer fanouta pa outa effsa req chb redirectb fanoutb pb outb effsb lost)
    note R = redirect_facts [OF assms(1) procs_okD(1) [OF ok(1) redirected_write(2)] redirected_write(4,5)]
    have same: "(netProcs N)[a := pa] = netProcs N" by (simp add: R(1))
    have d: "postData chb (netProcs N ! b) (Query (prUrl req) ''include'') (Query (prUrl req) ''writequorum'')
        (client_body key val) redirectb fanoutb = (pb, outb, effsb)"
      using redirected_write(7) by (simp add: same deliver_post_def R(3,4) client_body_def)
    have "owns view key (nId (pNode (netProcs N ! b)))"
      by (rule R(5) [OF procs_okD(1) [OF ok(1) redirected_write(3)] redirected_write(6)])
    with write_keeps [OF assms(1) ok(1) redirected_write(3) len d, of "accepted outa"] ok(2,3)
    show ?thesis by (auto simp: redirected_write(1) net_ok_def same R(2))
  next
    case (unreachable_write a ch incl wq key val lost fanout p out effs req)
    note R = redirect_facts [OF assms(1) procs_okD(1) [OF ok(1) unreachable_write(2)] unreachable_write(3,4)]
    show ?thesis using ok by (simp add: unreachable_write(1) net_ok_def R(1,2))
  next
    case (replicated_write xs url b ys j ch p out effs)
    then have "wire_ok view (url, b)" using ok(2) by simp
    from replica_keeps [OF assms(1) ok(1) replicated_write(3) this replicated_write(4,5)] ok(2,3) replicated_write(2)
    show ?thesis by (simp add: replicated_write(1) net_ok_def)
  next
    case (lost_write xs m ys)
    then show ?thesis using ok by (simp add: net_ok_def)
  next
    case (broadcast i c c1 c2 now n sends)
    let ?p = "netProcs N ! i"
    note m = procs_okD(1) [OF ok(1) broadcast(2)]
    note B = broadcast_member [OF assms(1) m broadcast(3)]
    have "procs_ok view rc (writes_of (netLog N)) ((netProcs N)[i := ?p\<lparr>pNode := n\<rparr>])"
      by (rule procs_ok_update [OF assms(1) ok(1) broadcast(2)]) (use B procs_okD(2) [OF ok(1) broadcast(2)] in simp_all)
    then show ?thesis using ok(2,3) B by (auto simp: broadcast(1) net_ok_def)
  next
    case (gossip xs host gs ys j c n answer started)
    let ?p = "netProcs N ! j"
    note m = procs_okD(1) [OF ok(1) gossip(3)]
    have "known_entries view gs" using ok(3) gossip(2) by auto
    note G = gossip_member [OF assms(1) m this gossip(5)]
    have "procs_ok view rc (writes_of (netLog N)) ((netProcs N)[j := ?p\<lparr>pNode := n\<rparr>])"
      by (rule procs_ok_update [OF assms(1) ok(1) gossip(3)]) (use G procs_okD(2) [OF ok(1) gossip(3)] in simp_all)
    then show ?thesis using ok(2,3) gossip(2) by (simp add: gossip(1) net_ok_def)
  next
    case (lost_gossip xs m ys)
    then show ?thesis using ok by (simp add: net_ok_def)
  qed
qed

lemma net_ok_steps:
  assumes "view_ok view rc" "net_ok view rc N0" "net_steps N0 N" "length (netLog N) < 2 ^ 64 - 1"
  shows "net_ok view rc N"
  using assms(3,4)
proof (induction rule: net_steps.induct)
  case net_refl
  show ?case by (rule assms(2))
next
  case (net_next N1 N2)
  have "length (netLog N1) < 2 ^ 64 - 1" using net_step_log [OF net_next.hyps(2)] net_next.prems by simp
  from net_ok_step [OF assms(1) net_next.IH [OF this] net_next.hyps(2) net_next.prems] show ?case .
qed

subsection \<open>Reads\<close>

text \<open>The specification: a register per key that keeps the written values.\<close>

definition register_read :: "any list \<Rightarrow> any \<times> u64" where
  "register_read vs = (if vs = [] then (JNull, 0) else (last vs, of_nat (length vs)))"

lemma latest_owner:
  assumes "history d key = owner_history vs"
  shows "(case latest d key of None \<Rightarrow> (JNull, 0, None) | Some (v, n) \<Rightarrow> (v, n, None))
    = (fst (register_read vs), snd (register_read vs), None)"
  by (cases vs rule: rev_cases)
    (simp_all add: latest_simps assms register_read_def)

lemma read_all_parse: "0 \<le> rc \<Longrightarrow> getData_parse rc mis ''-1'' = Inr (''-1'', - 1)"
proof -
  have "Atoi ''-1'' = Inr (- 1)" "\<not> blank ''-1''" by code_simp+
  then show "0 \<le> rc \<Longrightarrow> getData_parse rc mis ''-1'' = Inr (''-1'', - 1)" by (simp add: getData_parse_def)
qed

text \<open>A read for the owner at a member: answered there, or sent on.\<close>

lemma getData_member:
  assumes "view_ok view rc" "member view rc p"
  shows "owns view key (nId (pNode p)) \<Longrightarrow> history (pStore p) key = owner_history vs \<Longrightarrow>
      \<exists>md. getData conv ch p [] key ''-1'' redirect fanout
        = (Ret (200, get_ok (fst (register_read vs)) (snd (register_read vs)) md), [])"
    "\<not> owns view key (nId (pNode p)) \<Longrightarrow>
      \<exists>g. owns view key (gId g) \<and> view (gId g) = Some (place g)
        \<and> getData conv ch p [] key ''-1'' redirect fanout
          = getData_redirect (chQuery ch) p (mislaneous_of [] [''trace'']) g key ''-1'' redirect"
proof -
  have wf: "store_wf (pStore p)" and rc: "pReplicaCount p = rc" "0 \<le> rc"
    using assms by (simp_all add: member_def view_ok_def)
  from replica_peers [OF assms, of ch key] obtain owner replicas where
    g: "GetNNode gEndOfKeyRange gState (ring_of ch p) (token_of key) (int64 (pReplicaCount p + 1)) = Ret (Inr (owner # replicas))"
    "GetNode gEndOfKeyRange gState (ring_of ch p) (token_of key) = Inr owner" by blast
  have o: "view (gId owner) = Some (place owner)" "owns view key (gId owner)"
    using member_owner [OF assms, of ch key] g(2) by auto
  have G: "getData conv ch p [] key ''-1'' redirect fanout =
      (if nId (pNode p) = gId owner then (getData_local p (mislaneous_of [] [''trace'']) owner key, [])
       else getData_redirect (chQuery ch) p (mislaneous_of [] [''trace'']) owner key ''-1'' redirect)"
    using g(1) by (simp add: getData_def read_all_parse rc ring_of_getData [simplified] Let_def)
  show "\<exists>md. getData conv ch p [] key ''-1'' redirect fanout
      = (Ret (200, get_ok (fst (register_read vs)) (snd (register_read vs)) md), [])"
    if "owns view key (nId (pNode p))" "history (pStore p) key = owner_history vs"
  proof -
    have "nId (pNode p) = gId owner" using owns_unique [OF assms(1) that(1) o(2)] .
    then show ?thesis
      by (auto simp: G getData_local_def GetValAndVersion_eq [OF wf] latest_owner [OF that(2)])
  qed
  show "\<exists>g. owns view key (gId g) \<and> view (gId g) = Some (place g)
      \<and> getData conv ch p [] key ''-1'' redirect fanout
        = getData_redirect (chQuery ch) p (mislaneous_of [] [''trace'']) g key ''-1'' redirect"
    if "\<not> owns view key (nId (pNode p))"
    using that o by (intro exI [of _ owner]) (auto simp: G)
qed

definition net_start :: "'h Process list \<Rightarrow> 'h net" where
  "net_start ps = \<lparr>netProcs = ps, netWire = [], netGossip = [], netLog = []\<rparr>"

lemma net_start_ok:
  "distinct (map (nId \<circ> pNode) ps) \<Longrightarrow> \<forall>p \<in> set ps. member view rc p \<and> (\<forall>key. history (pStore p) key = []) \<Longrightarrow>
   net_ok view rc (net_start ps)"
  by (simp add: net_ok_def net_start_def procs_ok_def)

text \<open>
  C2. The cluster is a versioned register for every key. Its members know each other and nobody else,
  are all available, have different hosts, each \<open>http://\<close> and an authority of plain characters, and
  different range ends, one of which is the greatest token, and are more than the replica count (\<open>view_ok\<close>). Start them with
  nothing in their stores; run any writes at any nodes, redirected to the owner or lost on the way
  there or back, with their replicated writes and the nodes' gossip arriving in any order, late or
  never. Then a read for the owner (\<open>readquorum=-1\<close>), at any node, is redirected to the owner if it has
  to be, and returns the value the owner accepted last for the key, with the number of values it
  accepted as the version; a key never written is \<open>null\<close> with version 0. Keys are made of
  characters the query string preserves.
\<close>

theorem cluster_is_a_register:
  assumes "view_ok view rc" "distinct (map (nId \<circ> pNode) ps)"
    and "\<forall>p \<in> set ps. member view rc p \<and> (\<forall>key. history (pStore p) key = [])"
    and "net_steps (net_start ps) N" "length (netLog N) < 2 ^ 64 - 1"
    and "a < length (netProcs N)" "b < length (netProcs N)" "owns view key (nId (pNode (netProcs N ! b)))"
    and "url_safe key"
  shows "(\<exists>md. net_read conv cha chb (netProcs N ! a) (netProcs N ! b) key
        = Ret (200, get_ok (fst (register_read (writes_of (netLog N) key)))
                      (snd (register_read (writes_of (netLog N) key))) md))
    \<and> (\<forall>url. SendGet url \<in> set (snd (getData conv cha (netProcs N ! a) [] key ''-1'' (DoErr BindError) (\<lambda>_ _. [])))
          \<longrightarrow> addressed url (netProcs N ! b) V1_DATA)"
proof -
  let ?a = "netProcs N ! a" and ?b = "netProcs N ! b" and ?vs = "writes_of (netLog N) key"
  have "net_ok view rc N"
    by (rule net_ok_steps [OF assms(1) net_start_ok [OF assms(2,3)] assms(4,5)])
  note ok = net_okD(1) [OF this]
  note ma = procs_okD(1) [OF ok assms(6)] and mb = procs_okD(1) [OF ok assms(7)]
  note hb = procs_okD(2) [OF ok assms(7,8)]
  show ?thesis
  proof (cases "owns view key (nId (pNode ?a))")
    case True
    from getData_member(1) [OF assms(1) ma True procs_okD(2) [OF ok assms(6) True], where redirect = "DoErr BindError" and fanout = "\<lambda>_ _. []" and ch = cha and conv = conv]
    show ?thesis by (auto simp: net_read_def)
  next
    case False
    note R = getData_member(2) [OF assms(1) ma False, where fanout = "\<lambda>_ _. []" and ch = cha and conv = conv]
    obtain g where g: "owns view key (gId g)" "view (gId g) = Some (place g)"
      "getData conv cha ?a [] key ''-1'' (DoErr BindError) (\<lambda>_ _. [])
        = getData_redirect (chQuery cha) ?a (mislaneous_of [] [''trace'']) g key ''-1'' (DoErr BindError)"
      using R by blast
    let ?url = "GetKeyValue_request (chQuery cha) g [(''key'', key), (''readquorum'', ''-1'')]"
    have "gId g = nId (pNode ?b)" using owns_unique [OF assms(1) g(1) assms(8)] .
    then have "place g = own_entry 0 (pNode ?b)" using g(2) mb by (simp add: member_def)
    then have "gHost (place g) = gHost (own_entry 0 (pNode ?b))" by simp
    then have host: "gHost g = nHost (pNode ?b)" by (simp add: own_entry_def)
    have hh: "http_host (gHost g)" using member_node(3) [OF assms(1) mb] host by simp
    have safe: "\<forall>(k, v) \<in> set [(''key'', key), (''readquorum'', ''-1'')]. url_safe k \<and> url_safe v"
      using assms(9) by (simp add: url_safe_def)
    have "distinct (map fst [(''key'', key), (''readquorum'', ''-1'')])" by simp
    note Q = Query_request [OF this safe, of g "chQuery cha", THEN conjunct2]
    have q: "Query ?url ''include'' = []" "Query ?url ''key'' = key" "Query ?url ''readquorum'' = ''-1''"
      using Q hh by (simp_all add: http_host_def)
    obtain md where "getData conv chb ?b [] key ''-1'' (DoErr BindError) (\<lambda>_ _. [])
        = (Ret (200, get_ok (fst (register_read ?vs)) (snd (register_read ?vs)) md), [])"
      using getData_member(1) [OF assms(1) mb assms(8) hb] by blast
    then have db: "deliver_get conv chb ?b ?url (DoErr BindError) (\<lambda>_ _. [])
        = (Ret (200, get_ok (fst (register_read ?vs)) (snd (register_read ?vs)) md), [])"
      by (simp add: deliver_get_def q)
    let ?ans = "get_exchange (Ret (200, get_ok (fst (register_read ?vs)) (snd (register_read ?vs)) md))"
    obtain g' where g': "owns view key (gId g')" "view (gId g') = Some (place g')"
      "getData conv cha ?a [] key ''-1'' ?ans (\<lambda>_ _. [])
        = getData_redirect (chQuery cha) ?a (mislaneous_of [] [''trace'']) g' key ''-1'' ?ans"
      using R by blast
    have effs: "getData conv cha ?a [] key ''-1'' (DoErr BindError) (\<lambda>_ _. [])
        = (Ret (500, get_error (Some (mislaneous_of [] [''trace''])) ''error getting value owner node''
             (Joined ErrRedirectGetKeyValue BindError)), [SendGet ?url])"
      by (simp add: g(3) getData_redirect_def GetKeyValue_def)
    have "net_read conv cha chb ?a ?b key = fst (getData_redirect (chQuery cha) ?a (mislaneous_of [] [''trace'']) g' key ''-1'' ?ans)"
      by (simp add: net_read_def effs db g'(3))
    moreover have "\<exists>md'. fst (getData_redirect (chQuery cha) ?a (mislaneous_of [] [''trace'']) g' key ''-1'' ?ans)
        = Ret (200, get_ok (fst (register_read ?vs)) (snd (register_read ?vs)) md')"
      by (simp add: getData_redirect_def get_exchange_def GetKeyValue_def get_ok_def)
    moreover have "addressed ?url ?b V1_DATA"
      using MapToQueryParamStr_start by (simp add: addressed_def GetKeyValue_request_def host Let_def)
    ultimately show ?thesis by (simp add: effs)
  qed
qed

subsection \<open>Writes are accepted\<close>

text \<open>A well-formed write at the owner, and at another member.\<close>

lemma owner_accepts:
  assumes "view_ok view rc" "member view rc p" "owns view key (nId (pNode p))"
    and "postData_parse rc (mislaneous_of include [''trace'']) (client_body key val) wq = Ret (Inr (key, val, s, q))"
    and "postData ch p include wq (client_body key val) redirect fanout = (p', out, effs)"
  shows "(\<exists>md. out = Ret (200, post_ok md)) \<and> redirects effs = []"
proof -
  from replica_peers [OF assms(1,2), of ch key] obtain owner replicas where
    g: "GetNNode gEndOfKeyRange gState (ring_of ch p) (token_of key) (int64 (pReplicaCount p + 1)) = Ret (Inr (owner # replicas))"
    "GetNode gEndOfKeyRange gState (ring_of ch p) (token_of key) = Inr owner" by blast
  have wf: "store_wf (pStore p)" and rc: "pReplicaCount p = rc" "rc \<le> int (card (dom view))"
    using assms(1,2) by (simp_all add: member_def view_ok_def)
  have "owns view key (gId owner)" using member_owner [OF assms(1,2), of ch key] g(2) by auto
  then have "gId owner = nId (pNode p)" using owns_unique [OF assms(1)] assms(3) by blast
  then have "owned_write ch p (mislaneous_of include [''trace'']) wq (client_body key val) key val q owner"
    using assms(4) g(2) rc members_counted(3) [OF assms(1,2)] by (simp add: owned_write_def)
  from postData_owned [OF wf this, of redirect fanout] assms(5) g(1) show ?thesis
    by (auto simp: Let_def slice_from_1_def postData_fanout_def)
qed

lemma other_redirects:
  assumes "view_ok view rc" "member view rc p" "\<not> owns view key (nId (pNode p))"
    and "postData_parse rc (mislaneous_of include [''trace'']) (client_body key val) wq = Ret (Inr (key, val, s, q))"
  shows "\<exists>g. owns view key (gId g) \<and> view (gId g) = Some (place g)
    \<and> (\<forall>redirect. postData ch p include wq (client_body key val) redirect fanout
          = postData_redirect (chQuery ch) p (mislaneous_of include [''trace'']) g key val s redirect)"
proof -
  obtain g where g: "GetNode gEndOfKeyRange gState (ring_of ch p) (token_of key) = Inr g"
    "view (gId g) = Some (place g)" "owns view key (gId g)" using member_owner [OF assms(1,2)] by blast
  have "pReplicaCount p = rc" using assms(2) by (simp add: member_def)
  moreover have "gId g \<noteq> nId (pNode p)" using g(3) assms(3) by metis
  ultimately show ?thesis using g assms(4)
    by (intro exI [of _ g]) (simp add: postData_def Let_def ring_of_def)
qed

text \<open>What the owner holds after it has accepted a write.\<close>

lemma owner_stores:
  assumes "view_ok view rc" "procs_ok view rc (writes_of lg) ps" "b < length ps" "Suc (length lg) < 2 ^ 64"
    and "owns view key (nId (pNode (ps ! b)))"
    and "postData ch (ps ! b) include wq (client_body key val) redirect fanout = (p, out, effs)" "accepted out"
  shows "GetValAndVersion (pStore p) key = Ret (val, of_nat (Suc (length (writes_of lg key))), None)"
proof -
  note m = procs_okD(1) [OF assms(2,3)]
  have ok: "procs_ok view rc (writes_of (lg @ [(key, val, True)])) (ps[b := p])"
    using write_keeps [OF assms(1-4,6), of True] assms(5,7) by simp
  moreover have "nId (pNode p) = nId (pNode (ps ! b))"
    using postData_member [OF assms(1) m assms(6)] by auto
  ultimately have "member view rc p" "history (pStore p) key = owner_history (writes_of lg key @ [val])"
    using procs_okD(1) [OF ok, of b] procs_okD(2) [OF ok, of b key] assms(3,5) by simp_all
  then show ?thesis
    using latest_owner [of "pStore p" key "writes_of lg key @ [val]"]
    by (simp add: member_def GetValAndVersion_eq register_read_def del: owner_history_snoc)
qed

text \<open>
  C11. The cluster of C2 accepts writes: after any run of it, for a write of any value at any node, with
  a write quorum that is a number in range and does not start with a plus sign, there is a step in
  which the owner accepts it, stores it and returns it to later reads under the next version, and the
  node the client asked answers 200, redirected or not. This takes that the redirect and its answer
  arrive, but no answer of a replica. As in C2 the members are all available and more than the replica
  count, their hosts and range ends are different, and one range ends at the greatest token; without
  one or the other a write is refused or finds no owner.
\<close>

theorem cluster_accepts_writes:
  assumes "view_ok view rc" "distinct (map (nId \<circ> pNode) ps)"
    and "\<forall>p \<in> set ps. member view rc p \<and> (\<forall>key. history (pStore p) key = [])"
    and "net_steps (net_start ps) N" "length (netLog N) < 2 ^ 64 - 1"
    and "a < length (netProcs N)" "b < length (netProcs N)" "owns view key (nId (pNode (netProcs N ! b)))"
    and "postData_parse rc (mislaneous_of include [''trace'']) (client_body key val) wq = Ret (Inr (key, val, s, q))"
    and "hd s \<noteq> CHR ''+''"
  shows "accepted (net_write cha chb (netProcs N ! a) (netProcs N ! b) include wq key val fanout)
    \<and> (\<exists>N'. net_step N N' \<and> netLog N' = netLog N @ [(key, val, True)]
        \<and> GetValAndVersion (pStore (netProcs N' ! b)) key
            = Ret (val, of_nat (Suc (length (writes_of (netLog N) key))), None))"
proof -
  let ?a = "netProcs N ! a" and ?b = "netProcs N ! b" and ?mis = "mislaneous_of include [''trace'']"
  let ?post = "\<lambda>redirect. postData cha ?a include wq (client_body key val) redirect fanout"
  have "net_ok view rc N"
    by (rule net_ok_steps [OF assms(1) net_start_ok [OF assms(2,3)] assms(4,5)])
  note ok = net_okD(1) [OF this]
  note ma = procs_okD(1) [OF ok assms(6)] and mb = procs_okD(1) [OF ok assms(7)]
  have len: "Suc (length (netLog N)) < 2 ^ 64" using assms(5) by simp
  show ?thesis
  proof (cases "owns view key (nId (pNode ?a))")
    case True
    obtain pa out effs where p: "?post (DoErr BindError) = (pa, out, effs)" by (cases "?post (DoErr BindError)")
    have A: "accepted out" "redirects effs = []" using owner_accepts [OF assms(1) ma True assms(9) p] by auto
    have d: "distinct (map (nId \<circ> pNode) (netProcs N))" using ok by (simp add: procs_ok_def)
    have "nId (pNode ?a) = nId (pNode ?b)" using owns_unique [OF assms(1) True assms(8)] .
    then have "a = b" using nth_eq_iff_index_eq [OF d, of a b] assms(6,7) by simp
    moreover have "net_step N (N\<lparr>netProcs := (netProcs N)[a := pa], netWire := netWire N @ replications effs,
        netLog := netLog N @ (if accepted out then [(key, val, True)] else [])\<rparr>)"
      by (rule local_write [OF assms(6) p A(2)])
    moreover have "accepted (net_write cha chb ?a ?b include wq key val fanout)"
      using A by (simp add: net_write_def p)
    ultimately show ?thesis using A(1) assms(7) owner_stores [OF assms(1) ok assms(6) len True p A(1)]
      by (intro conjI exI) (assumption | simp)+
  next
    case False
    obtain g where g: "owns view key (gId g)" "view (gId g) = Some (place g)"
      and R: "\<And>redirect. ?post redirect = postData_redirect (chQuery cha) ?a ?mis g key val s redirect"
      using other_redirects [OF assms(1) ma False assms(9)] by blast
    let ?m = "[(''writequorum'', s), (''redirected'', ''true'')]"
    let ?req = "PostKeyValue_request (chQuery cha) g key val ?m"
    have hh: "http_host (gHost g)" using view_okD(3) [OF assms(1) g(2)] by simp
    obtain i where i: "Atoi s = Inr i" using postData_parse_InrD(2) [OF assms(9)] by blast
    have safe: "\<forall>(k, v) \<in> set ?m. url_safe k \<and> url_safe v"
      using Atoi_chars(2) [OF i assms(10)] by (simp add: url_safe_def)
    have "distinct (map fst ?m)" by simp
    note Q = Query_request [OF this safe, of g "chQuery cha" key val, THEN conjunct1]
    have q: "Query (prUrl ?req) ''include'' = []" "Query (prUrl ?req) ''writequorum'' = s"
      using Q hh by (simp_all add: http_host_def)
    obtain pb outb effsb where
      p: "postData chb ?b [] s (client_body key val) (DoErr BindError) fanout = (pb, outb, effsb)"
      by (cases "postData chb ?b [] s (client_body key val) (DoErr BindError) fanout")
    then have d: "deliver_post chb ?b ?req (DoErr BindError) fanout = (pb, outb, effsb)"
      by (simp add: deliver_post_def q) (simp add: PostKeyValue_request_def client_body_def)
    have "postData_parse rc (mislaneous_of [] [''trace'']) (client_body key val) s = Ret (Inr (key, val, s, q))"
      using postData_parse_InrD(1) [OF assms(9)] by (simp add: client_body_def)
    from owner_accepts [OF assms(1) mb assms(8) this p] obtain md where outb: "outb = Ret (200, post_ok md)" by blast
    then have ok200: "PostKeyValue (post_exchange outb) = None"
      by (simp add: post_exchange_def PostKeyValue_def post_ok_def)
    let ?outa = "fst (snd (?post (post_exchange outb)))"
    have pa: "?post (post_exchange outb) = (?a, ?outa, [SendPost ?req])" "accepted ?outa"
      by (simp_all add: R postData_redirect_def Let_def ok200)
    have "gId g = nId (pNode ?b)" using owns_unique [OF assms(1) g(1) assms(8)] .
    then have "place g = own_entry 0 (pNode ?b)" using g(2) mb by (simp add: member_def)
    then have "gHost (place g) = gHost (own_entry 0 (pNode ?b))" by simp
    then have "gHost g = nHost (pNode ?b)" by (simp add: own_entry_def)
    then have adr: "addressed (prUrl ?req) ?b V1_DATA"
      using MapToQueryParamStr_start by (simp add: addressed_def PostKeyValue_request_def Let_def)
    have "deliver_post chb ((netProcs N)[a := ?a] ! b) ?req (DoErr BindError) fanout = (pb, outb, effsb)"
      by (simp add: d)
    from redirected_write [OF assms(6,7) pa(1) _ adr this, of BindError]
    have "net_step N (N\<lparr>netProcs := (netProcs N)[a := ?a, b := pb],
        netWire := netWire N @ replications [SendPost ?req :: 'a effect] @ replications effsb,
        netLog := netLog N @ (if accepted outb then [(key, val, accepted ?outa)] else [])\<rparr>)" by simp
    moreover have "accepted outb" by (simp add: outb)
    moreover have "accepted (net_write cha chb ?a ?b include wq key val fanout)"
      using pa(2) by (simp add: net_write_def R postData_redirect_def Let_def PostKeyValue_def d split: option.splits)
    ultimately show ?thesis
      using owner_stores [OF assms(1) ok assms(7) len assms(8) p] pa(2) assms(7)
      by (intro conjI exI) (assumption | simp)+
  qed
qed

definition sample_place :: "string \<Rightarrow> u64 \<Rightarrow> NodeGossip" where
  "sample_place i e =
     \<lparr>gId = i, gHost = ''http://'' @ i, gEndOfKeyRange = e, gLastUpdate = 0, gState = AVAILABLE, gReplicaCount = 1\<rparr>"

definition sample_view :: view where
  "sample_view = [''n1'' \<mapsto> sample_place ''n1'' 0, ''n2'' \<mapsto> sample_place ''n2'' TOTAL_SLOTS]"

definition sample_member :: "string \<Rightarrow> u64 \<Rightarrow> nat Process" where
  "sample_member i e =
     \<lparr>pNode = \<lparr>nId = i, nHost = ''http://'' @ i, nEndOfKeyRange = e,
        nGossip = Upsert (Upsert NewGossip ''n1'' ((sample_place ''n1'' 0)\<lparr>gLastUpdate := 3\<rparr>))
                    ''n2'' ((sample_place ''n2'' TOTAL_SLOTS)\<lparr>gLastUpdate := 4\<rparr>),
        nLastUpdate = 1, nState = AVAILABLE, nReplicaCount = 1, nGossipMeta = []\<rparr>,
      pStore = NewDataStore, pReplicaCount = 1\<rparr>"

definition sample_members :: "nat Process list" where
  "sample_members = [sample_member ''n1'' 0, sample_member ''n2'' TOTAL_SLOTS]"

lemma sample_view_facts:
  "view_ok sample_view 1" "member sample_view 1 (sample_member ''n1'' 0)"
  "member sample_view 1 (sample_member ''n2'' TOTAL_SLOTS)" "owns sample_view key ''n2''"
proof -
  have r: "ran sample_view = {sample_place ''n1'' 0, sample_place ''n2'' TOTAL_SLOTS}"
    by (simp add: sample_view_def insert_commute)
  have d: "dom sample_view = {''n1'', ''n2''}" by (simp add: sample_view_def insert_commute)
  have t: "0 \<noteq> TOTAL_SLOTS" by (simp add: TOTAL_SLOTS_def)
  show "view_ok sample_view 1"
    unfolding view_ok_def d r
    by (auto simp: sample_view_def sample_place_def t http_host_def control_char_def split: if_splits)
  show "owns sample_view key ''n2''"
    unfolding owns_def r
    using token_of_less [of key]
    by (auto simp: sample_view_def is_owner_def is_candidate_def sample_place_def)
  have s: "sees sample_view (nGossip (pNode (sample_member i e)))" for i e
    by (auto simp: sees_def sample_member_def gossip_wf_Upsert sample_view_def NodeGossip_Clone_def place_def
        sample_place_def simp del: NodeGossip_accessors)
  show "member sample_view 1 (sample_member ''n1'' 0)" "member sample_view 1 (sample_member ''n2'' TOTAL_SLOTS)"
    using s by (simp_all add: member_def) (simp_all add: sample_member_def own_entry_def sample_view_def sample_place_def)
qed

lemma sample_run:
  "\<exists>N. net_steps (net_start sample_members) N \<and> netLog N = [(''k'', JStr ''v'', True)]
    \<and> length (netProcs N) = 2 \<and> nId (pNode (netProcs N ! 1)) = ''n2''"
proof -
  let ?p = "sample_member ''n2'' TOTAL_SLOTS"
  have i: "nId (pNode ?p) = ''n2''" by (simp add: sample_member_def)
  have "Atoi ''0'' = Inr 0" "\<not> blank ''0''" by code_simp+
  then have parse: "postData_parse 1 (mislaneous_of [] [''trace'']) (client_body ''k'' (JStr ''v'')) ''0''
      = Ret (Inr (''k'', JStr ''v'', ''0'', 0))"
    by (simp add: postData_parse_def client_body_def Let_def)
  obtain p out effs where
    d: "postData no_choices ?p [] ''0'' (client_body ''k'' (JStr ''v'')) (DoErr BindError) (\<lambda>_ _. []) = (p, out, effs)"
    by (cases "postData no_choices ?p [] ''0'' (client_body ''k'' (JStr ''v'')) (DoErr BindError) (\<lambda>_ _. [])") auto
  have own: "owns sample_view ''k'' (nId (pNode ?p))" using sample_view_facts(4) i by simp
  have A: "accepted out \<and> redirects effs = []"
    using owner_accepts [OF sample_view_facts(1,3) own parse d] by auto
  have "p = ?p\<lparr>pStore := written (chStore no_choices) (pStore ?p) ''k'' (JStr ''v'') None False\<rparr>"
    using postData_member [OF sample_view_facts(1,3) d] A by auto
  then have "nId (pNode p) = ''n2''" by (simp add: i)
  moreover have d': "postData no_choices (netProcs (net_start sample_members) ! 1) [] ''0''
      (client_body ''k'' (JStr ''v'')) (DoErr BindError) (\<lambda>_ _. []) = (p, out, effs)"
    using d by (simp add: net_start_def sample_members_def)
  moreover have "net_step (net_start sample_members) ((net_start sample_members)\<lparr>
      netProcs := (netProcs (net_start sample_members))[1 := p],
      netWire := netWire (net_start sample_members) @ replications effs,
      netLog := netLog (net_start sample_members) @ (if accepted out then [(''k'', JStr ''v'', True)] else [])\<rparr>)"
    by (rule local_write [OF _ d' conjunct2 [OF A]]) (simp add: net_start_def sample_members_def)
  ultimately have
    "net_step (net_start sample_members) \<lparr>netProcs = [sample_member ''n1'' 0, p], netWire = replications effs,
       netGossip = [], netLog = [(''k'', JStr ''v'', True)]\<rparr>" (is "net_step _ ?N")
    and p2: "nId (pNode p) = ''n2''"
    using A by (simp_all add: net_start_def sample_members_def)
  then have "net_steps (net_start sample_members) ?N" by (intro net_next [OF net_refl])
  then show ?thesis by (rule exI [of _ ?N, OF conjI]) (simp add: p2)
qed

lemma cluster_is_a_register_witness:
  "\<exists>N md. net_steps (net_start sample_members) N
    \<and> net_read (\<lambda>_. 0) no_choices no_choices (netProcs N ! 0) (netProcs N ! 1) ''k''
      = Ret (200, get_ok (JStr ''v'') 1 md)"
proof -
  obtain N where N: "net_steps (net_start sample_members) N" "netLog N = [(''k'', JStr ''v'', True)]"
    "length (netProcs N) = 2" "nId (pNode (netProcs N ! 1)) = ''n2''" using sample_run by blast
  have "distinct (map (nId \<circ> pNode) sample_members)" by (simp add: sample_members_def sample_member_def)
  moreover have "\<forall>p \<in> set sample_members. member sample_view 1 p \<and> (\<forall>key. history (pStore p) key = [])"
    using sample_view_facts(2,3) by (simp add: sample_members_def) (simp add: sample_member_def)
  moreover have "owns sample_view ''k'' (nId (pNode (netProcs N ! 1)))" using sample_view_facts(4) N(4) by simp
  moreover have "url_safe ''k''" by code_simp
  ultimately have "\<exists>md. net_read (\<lambda>_. 0) no_choices no_choices (netProcs N ! 0) (netProcs N ! 1) ''k''
      = Ret (200, get_ok (fst (register_read (writes_of (netLog N) ''k'')))
                    (snd (register_read (writes_of (netLog N) ''k''))) md)"
    using cluster_is_a_register [OF sample_view_facts(1) _ _ N(1), of 0 1] N(2,3) by simp
  moreover have "register_read (writes_of (netLog N) ''k'') = (JStr ''v'', 1)"
    by (simp add: N(2) register_read_def writes_of_def)
  ultimately show ?thesis using N(1) by auto
qed

lemma cluster_accepts_writes_witness:
  "accepted (net_write no_choices no_choices (sample_member ''n1'' 0) (sample_member ''n2'' TOTAL_SLOTS) []
     [] ''k'' (JStr ''w'') (\<lambda>_ _. []))
   \<and> (\<exists>N'. net_step (net_start sample_members) N' \<and> netLog N' = [(''k'', JStr ''w'', True)]
        \<and> GetValAndVersion (pStore (netProcs N' ! 1)) ''k'' = Ret (JStr ''w'', 1, None))"
proof -
  let ?N = "net_start sample_members"
  have "postData_parse 1 (mislaneous_of [] [''trace'']) (client_body ''k'' (JStr ''w'')) []
      = Ret (Inr (''k'', JStr ''w'', ''0'', 0))" by code_simp
  moreover have "hd ''0'' \<noteq> CHR ''+''" by simp
  moreover have "distinct (map (nId \<circ> pNode) sample_members)" by (simp add: sample_members_def sample_member_def)
  moreover have "\<forall>p \<in> set sample_members. member sample_view 1 p \<and> (\<forall>key. history (pStore p) key = [])"
    using sample_view_facts(2,3) by (simp add: sample_members_def) (simp add: sample_member_def)
  moreover have "owns sample_view ''k'' (nId (pNode (netProcs ?N ! 1)))"
    using sample_view_facts(4) by (simp add: net_start_def sample_members_def) (simp add: sample_member_def)
  ultimately have "accepted (net_write no_choices no_choices (netProcs ?N ! 0) (netProcs ?N ! 1) [] [] ''k'' (JStr ''w'') (\<lambda>_ _. []))
      \<and> (\<exists>N'. net_step ?N N' \<and> netLog N' = netLog ?N @ [(''k'', JStr ''w'', True)]
          \<and> GetValAndVersion (pStore (netProcs N' ! 1)) ''k''
              = Ret (JStr ''w'', of_nat (Suc (length (writes_of (netLog ?N) ''k''))), None))"
    by (intro cluster_accepts_writes [where s = "''0''" and q = 0, OF sample_view_facts(1) _ _ net_refl])
      (simp_all add: net_start_def sample_members_def)
  moreover have "netLog ?N = []" "netProcs ?N = sample_members" by (simp_all add: net_start_def)
  ultimately show ?thesis by (simp add: sample_members_def)
qed

end
