(* ===== verification/Copies_Props.thy ===== *)
theory Copies_Props
  imports Register_Props
begin

section \<open>What the copies hold\<close>

text \<open>
  The same cluster, seen from the replicas. Their copies may be late, incomplete and out of order, but
  nothing in them is made up: a copy with version \<open>n\<close> is the \<open>n\<close>-th value the owner accepted for
  the key, except that the first copy to arrive is kept as version 1, whatever it was. So every read
  of every kind, at any node, returns a value that was accepted.
\<close>

subsection \<open>Copies\<close>

definition nth_write :: "any list \<Rightarrow> u64 \<Rightarrow> any \<Rightarrow> bool" where
  "nth_write ws n v \<longleftrightarrow> 1 \<le> unat n \<and> unat n \<le> length ws \<and> ws ! (unat n - 1) = v"

definition copy_of :: "any list \<Rightarrow> u64 \<Rightarrow> any \<Rightarrow> bool" where
  "copy_of ws n v \<longleftrightarrow> nth_write ws n v \<or> n = 1 \<and> v \<in> set ws"

definition copies_ok :: "(string \<times> any \<times> bool) list \<Rightarrow> 'h Process \<Rightarrow> bool" where
  "copies_ok lg p \<longleftrightarrow>
     (\<forall>key. \<forall>e \<in> set (history (pStore p) key). copy_of (writes_of lg key) (eVersion e) (eValue e))"

definition message_ok :: "(string \<times> any \<times> bool) list \<Rightarrow> HandlePostRawReq \<Rightarrow> bool" where
  "message_ok lg b \<longleftrightarrow> nth_write (writes_of lg (rqKey b)) (rqVersion b) (rqValue b)"

lemma nth_write_append: "nth_write ws n v \<Longrightarrow> nth_write (ws @ xs) n v"
  by (auto simp: nth_write_def nth_append)

lemma nth_write_in: "nth_write ws n v \<Longrightarrow> v \<in> set ws"
  by (auto simp: nth_write_def)

lemma copy_of_append: "copy_of ws n v \<Longrightarrow> copy_of (ws @ xs) n v"
  by (auto simp: copy_of_def nth_write_append)

lemma copy_of_bounds: "copy_of ws n v \<Longrightarrow> v \<in> set ws \<and> 1 \<le> unat n \<and> unat n \<le> length ws"
  by (auto simp: copy_of_def nth_write_def Suc_le_eq)

lemma writes_of_append: "\<exists>xs. writes_of (lg @ lg') key = writes_of lg key @ xs"
  by (simp add: writes_of_def)

lemma copies_ok_append: "copies_ok lg p \<Longrightarrow> copies_ok (lg @ lg') p"
  unfolding copies_ok_def using writes_of_append copy_of_append by metis

lemma message_ok_append: "message_ok lg b \<Longrightarrow> message_ok (lg @ lg') b"
  unfolding message_ok_def using writes_of_append nth_write_append by metis

lemma copies_ok_store: "pStore p' = pStore p \<Longrightarrow> copies_ok lg p \<Longrightarrow> copies_ok lg p'"
  by (simp add: copies_ok_def)

lemma copies_ok_written:
  assumes "copies_ok lg p" "copy_of (writes_of lg key) (next_version (pStore p) key version) val"
  shows "copies_ok lg (p\<lparr>pStore := written c (pStore p) key val version r\<rparr>)"
  using assms by (auto simp: copies_ok_def history_written new_entry_def)

subsection \<open>Steps\<close>

text \<open>The message an owner sends to its replicas carries the value with its number.\<close>

lemma owner_messages:
  assumes "view_ok view rc" "member view rc p"
    and "postData ch p include wq (client_body key val) redirect fanout = (p', out, effs)" "m \<in> set (replications effs)"
  shows "snd m = \<lparr>rqKey = key, rqValue = val, rqVersion = next_version (pStore p) key None\<rparr>"
proof -
  let ?mis = "mislaneous_of include [''trace'']"
  have wf: "store_wf (pStore p)" using assms(2) by (simp add: member_def)
  show ?thesis
  proof (cases "\<exists>k v q owner. owned_write ch p ?mis wq (client_body key val) k v q owner")
    case True
    then obtain k v q owner where o: "owned_write ch p ?mis wq (client_body key val) k v q owner" by blast
    then have kv: "k = key" "v = val"
      using client_body_parse [of "pReplicaCount p" ?mis key val wq] by (auto simp: owned_write_def)
    from replica_peers [OF assms(1,2), of ch key] obtain own replicas where
      "GetNNode gEndOfKeyRange gState (ring_of ch p) (token_of key) (int64 (pReplicaCount p + 1)) = Ret (Inr (own # replicas))"
      by blast
    with postData_owned [OF wf o, of redirect fanout] assms(3,4) show ?thesis
      by (auto simp: kv Let_def slice_from_1_def postData_fanout_def PostRawKeyValue_request_def)
  next
    case False
    then have no: "\<nexists>k v q owner. owned_write ch p ?mis wq (client_body key val) k v q owner" by blast
    from postData_not_owned [OF this, of redirect fanout] have p': "p' = p" by (simp add: assms(3))
    have "history (written (chStore ch) (pStore p) key val None False) key \<noteq> history (pStore p) key"
      by (metis history_written length_append_singleton length_sort_slice n_not_Suc_n)
    then have "p \<noteq> p\<lparr>pStore := written (chStore ch) (pStore p) key val None False\<rparr>"
      by (metis Process.select_convs(2) Process.surjective Process.update_convs(2))
    then show ?thesis using postData_member [OF assms(1-3)] p' assms(4) by auto
  qed
qed

definition copies_net :: "'h net \<Rightarrow> bool" where
  "copies_net N \<longleftrightarrow>
     (\<forall>p \<in> set (netProcs N). copies_ok (netLog N) p) \<and> (\<forall>m \<in> set (netWire N). message_ok (netLog N) (snd m))"

lemma owner_next_version:
  assumes "history d key = owner_history vs"
  shows "next_version d key None = of_nat (Suc (length vs))"
  by (cases "vs = []") (simp_all add: next_version_def latest_simps assms last_version_owner_history add.commute)

lemma nth_write_last:
  assumes "Suc (length ws) < 2 ^ 64"
  shows "nth_write (ws @ [v]) (of_nat (Suc (length ws))) v"
proof -
  have "unat (of_nat (Suc (length ws)) :: u64) = Suc (length ws)"
    by (rule unat_of_nat_u64 [OF assms])
  then show ?thesis by (simp add: nth_write_def del: of_nat_Suc)
qed

lemma update_all: "\<forall>x \<in> set xs. P x \<Longrightarrow> P y \<Longrightarrow> \<forall>x \<in> set (xs[i := y]). P x"
  using set_update_subset_insert [of xs i y] by blast

text \<open>What any member does with a write: the effect on the copies and the messages.\<close>

lemma write_copies:
  assumes "view_ok view rc" "procs_ok view rc (writes_of lg) ps" "b < length ps" "Suc (length lg) < 2 ^ 64"
    and "postData ch (ps ! b) include wq (client_body key val) redirect fanout = (p, out, effs)"
    and "redirects effs = [] \<or> owns view key (nId (pNode (ps ! b)))"
    and "\<forall>x \<in> set ps. copies_ok lg x"
  shows "(\<forall>x \<in> set (ps[b := p]). copies_ok (lg @ (if accepted out then [(key, val, told)] else [])) x)
    \<and> (\<forall>m \<in> set (replications effs). message_ok (lg @ (if accepted out then [(key, val, told)] else [])) (snd m))"
proof -
  let ?b = "ps ! b" and ?l = "if accepted out then [(key, val, told)] else []"
  note mb = procs_okD(1) [OF assms(2,3)]
  have old: "\<forall>x \<in> set ps. copies_ok (lg @ ?l) x" using assms(7) copies_ok_append by blast
  from postData_member [OF assms(1) mb assms(5)]
  show ?thesis
  proof (elim disjE conjE exE)
    assume a: "owns view key (nId (pNode ?b))" "accepted out"
      "p = ?b\<lparr>pStore := written (chStore ch) (pStore ?b) key val None False\<rparr>"
    have l: "length (writes_of lg key) \<le> length lg" by (rule length_writes_of)
    have n: "next_version (pStore ?b) key None = of_nat (Suc (length (writes_of lg key)))"
      by (rule owner_next_version [OF procs_okD(2) [OF assms(2,3) a(1)]])
    have w: "nth_write (writes_of (lg @ ?l) key) (next_version (pStore ?b) key None) val"
      unfolding n using a(2) nth_write_last [of "writes_of lg key" val] l assms(4) by (simp del: of_nat_Suc)
    have "copies_ok (lg @ ?l) p"
      unfolding a(3) by (rule copies_ok_written) (use old assms(3) w in \<open>auto simp: copy_of_def\<close>)
    moreover have "message_ok (lg @ ?l) (snd m)" if "m \<in> set (replications effs)" for m
      using owner_messages [OF assms(1) mb assms(5) that] w by (simp add: message_ok_def)
    ultimately show ?thesis using update_all [OF old] by blast
  next
    assume "p = ?b" "replications effs = []"
    then show ?thesis using old by (simp add: list_update_id)
  next
    fix g s
    assume "p = ?b" "replications effs = []"
    then show ?thesis using old by (simp add: list_update_id)
  qed
qed

lemma copies_net_step:
  assumes "view_ok view rc" "net_ok view rc N" "copies_net N" "net_step N N'" "length (netLog N') < 2 ^ 64 - 1"
  shows "copies_net N'"
proof -
  note ok = net_okD [OF assms(2)]
  have len: "Suc (length (netLog N)) < 2 ^ 64" using net_step_log [OF assms(4)] assms(5) by simp
  have old: "\<forall>p \<in> set (netProcs N). copies_ok (netLog N) p" "\<forall>m \<in> set (netWire N). message_ok (netLog N) (snd m)"
    using assms(3) by (simp_all add: copies_net_def)
  from assms(4) show ?thesis
  proof (cases rule: net_step.cases)
    case (local_write a ch incl wq key val redirect fanout p out effs)
    from write_copies [OF assms(1) ok(1) local_write(2) len local_write(3) _ old(1), of True] local_write(4) old(2)
    show ?thesis by (auto simp: local_write(1) copies_net_def intro: message_ok_append)
  next
    case (redirected_write a b cha incl wq key val answer fanouta pa outa effsa req chb redirectb fanoutb pb outb effsb lost)
    note R = redirect_facts [OF assms(1) procs_okD(1) [OF ok(1) redirected_write(2)] redirected_write(4,5)]
    have same: "(netProcs N)[a := pa] = netProcs N" by (simp add: R(1))
    have d: "postData chb (netProcs N ! b) (Query (prUrl req) ''include'') (Query (prUrl req) ''writequorum'')
        (client_body key val) redirectb fanoutb = (pb, outb, effsb)"
      using redirected_write(7) by (simp add: same deliver_post_def R(3,4) client_body_def)
    have "owns view key (nId (pNode (netProcs N ! b)))"
      by (rule R(5) [OF procs_okD(1) [OF ok(1) redirected_write(3)] redirected_write(6)])
    with write_copies [OF assms(1) ok(1) redirected_write(3) len d _ old(1), of "accepted outa"] old(2)
    show ?thesis by (auto simp: redirected_write(1) copies_net_def same R(2) intro: message_ok_append)
  next
    case (unreachable_write a ch incl wq key val lost fanout p out effs req)
    note R = redirect_facts [OF assms(1) procs_okD(1) [OF ok(1) unreachable_write(2)] unreachable_write(3,4)]
    show ?thesis using old by (simp add: unreachable_write(1) copies_net_def R(1,2))
  next
    case (replicated_write xs url b ys j ch p out effs)
    let ?p = "netProcs N ! j"
    have wf: "store_wf (pStore ?p)" using procs_okD(1) [OF ok(1) replicated_write(3)] by (simp add: member_def)
    have p: "p = ?p\<lparr>pStore := written (chStore ch) (pStore ?p) (rqKey b) (rqValue b) (Some (rqVersion b)) True\<rparr>"
      using replicated_write(5) by (auto simp: postReplicaData_def PutRaw_eq [OF wf])
    have m: "nth_write (writes_of (netLog N) (rqKey b)) (rqVersion b) (rqValue b)"
      using old(2) replicated_write(2) by (simp add: message_ok_def)
    have "copies_ok (netLog N) p"
      unfolding p
      by (rule copies_ok_written)
        (use old(1) replicated_write(3) m nth_write_in [OF m] in
          \<open>auto simp: copy_of_def next_version_def split: option.splits\<close>)
    then show ?thesis using update_all [OF old(1)] old(2) replicated_write(2)
      by (simp add: replicated_write(1) copies_net_def)
  next
    case (lost_write xs m ys)
    then show ?thesis using old by (simp add: copies_net_def)
  next
    case (broadcast i c c1 c2 now n sends)
    have "copies_ok (netLog N) ((netProcs N ! i)\<lparr>pNode := n\<rparr>)"
      by (rule copies_ok_store [of _ "netProcs N ! i"]) (use old(1) broadcast(2) in simp_all)
    then show ?thesis using update_all [OF old(1)] old(2) by (simp add: broadcast(1) copies_net_def)
  next
    case (gossip xs host gs ys j c n answer started)
    have "copies_ok (netLog N) ((netProcs N ! j)\<lparr>pNode := n\<rparr>)"
      by (rule copies_ok_store [of _ "netProcs N ! j"]) (use old(1) gossip(3) in simp_all)
    then show ?thesis using update_all [OF old(1)] old(2) by (simp add: gossip(1) copies_net_def)
  next
    case (lost_gossip xs m ys)
    then show ?thesis using old by (simp add: copies_net_def)
  qed
qed

lemma copies_net_steps:
  assumes "view_ok view rc" "net_ok view rc N0" "copies_net N0" "net_steps N0 N" "length (netLog N) < 2 ^ 64 - 1"
  shows "copies_net N"
  using assms(4,5)
proof (induction rule: net_steps.induct)
  case net_refl
  show ?case by (rule assms(3))
next
  case (net_next N1 N2)
  have l: "length (netLog N1) < 2 ^ 64 - 1" using net_step_log [OF net_next.hyps(2)] net_next.prems by simp
  from copies_net_step [OF assms(1) net_ok_steps [OF assms(1,2) net_next.hyps(1) l] net_next.IH [OF l]
      net_next.hyps(2) net_next.prems] show ?case .
qed

subsection \<open>Reads\<close>

lemma net_steps_log: "net_steps N0 N \<Longrightarrow> \<exists>lg. netLog N = netLog N0 @ lg"
proof (induction rule: net_steps.induct)
  case (net_next N1 N2)
  have "\<exists>lg. netLog N2 = netLog N1 @ lg" using net_next.hyps(2) by (cases rule: net_step.cases) auto
  then show ?case using net_next.IH by auto
qed simp

lemma latest_copy: "copies_ok lg p \<Longrightarrow> latest (pStore p) key = Some (v, n) \<Longrightarrow> copy_of (writes_of lg key) n v"
  by (auto simp: copies_ok_def latest_eq_Some)

lemma member_serves:
  assumes "view_ok view rc" "member view rc p" "copies_ok lg p" "length lg < 2 ^ 53"
  shows "small_versions p key" "serves ch p key"
proof -
  have m: "store_wf (pStore p)" "pReplicaCount p = rc" "0 \<le> rc" "rc < 2 ^ 63 - 1"
    using assms(1,2) by (simp_all add: member_def view_ok_def)
  have i: "int64 (rc + 1) = rc + 1" using m(3,4) by (intro int64_id) simp_all
  have "unat n < 2 ^ 53" if "latest (pStore p) key = Some (v, n)" for v n
    using copy_of_bounds [OF latest_copy [OF assms(3) that]] length_writes_of [of lg key] assms(4) by simp
  then show "small_versions p key" using m by (simp add: small_versions_def)
  show "serves ch p key"
    using m(2) i replica_peers [OF assms(1,2), of ch key] unfolding serves_def by metis
qed

text \<open>The answer of any process of the run, at any moment of it.\<close>

definition answer_in_run ::
    "(nat option \<Rightarrow> u64) \<Rightarrow> 'h net \<Rightarrow> 'h net \<Rightarrow> string \<Rightarrow> GetDataResponse \<Rightarrow> bool" where
  "answer_in_run conv N0 N key g \<longleftrightarrow>
     (\<exists>N1 p ch c x. net_steps N0 N1 \<and> net_steps N1 N \<and> p \<in> set (netProcs N1) \<and> http_host (gHost x)
        \<and> replica_answer conv ch p (read_request c x key) = Inr g)"

lemma answer_in_run_copy:
  assumes "view_ok view rc" "net_ok view rc N0" "copies_net N0" "answer_in_run conv N0 N key g"
    and "length (netLog N) < 2 ^ 53" "url_safe key"
  shows "gdValue g = JNull \<and> gdVersion g = 0 \<or> copy_of (writes_of (netLog N) key) (gdVersion g) (gdValue g)"
proof -
  obtain N1 p ch c x where r: "net_steps N0 N1" "net_steps N1 N" "p \<in> set (netProcs N1)" "http_host (gHost x)"
    "replica_answer conv ch p (read_request c x key) = Inr g" using assms(4) unfolding answer_in_run_def by blast
  obtain lg where lg: "netLog N = netLog N1 @ lg" using net_steps_log [OF r(2)] by blast
  have l: "length (netLog N1) < 2 ^ 53" using assms(5) by (simp add: lg)
  then have l64: "length (netLog N1) < 2 ^ 64 - 1" by simp
  have ok: "procs_ok view rc (writes_of (netLog N1)) (netProcs N1)"
    by (rule net_okD(1) [OF net_ok_steps [OF assms(1,2) r(1) l64]])
  have m: "member view rc p" using ok r(3) by (simp add: procs_ok_def)
  have k: "copies_ok (netLog N1) p"
    using copies_net_steps [OF assms(1,2,3) r(1) l64] r(3) by (simp add: copies_net_def)
  have h: "CHR ''?'' \<notin> set (gHost x)" "CHR ''#'' \<notin> set (gHost x)" using r(4) by (simp_all add: http_host_def)
  note sv = member_serves [OF assms(1) m k l]
  from replica_answer_cases [OF sv(1) assms(6) h, of conv ch c] sv(2) [of ch key] r(5)
  have g: "(gdValue g, gdVersion g) = (case latest (pStore p) key of None \<Rightarrow> (JNull, 0) | Some (v, n) \<Rightarrow> (v, n))" by auto
  show ?thesis
  proof (cases "latest (pStore p) key")
    case None
    then show ?thesis using g by simp
  next
    case (Some vn)
    then have "latest (pStore p) key = Some (gdValue g, gdVersion g)" using g by (cases vn) simp
    from latest_copy [OF k this] have "copy_of (writes_of (netLog N) key) (gdVersion g) (gdValue g)"
      using writes_of_append [of "netLog N1" lg key] copy_of_append lg by metis
    then show ?thesis ..
  qed
qed

text \<open>
  C3. Reads return accepted values: in the cluster of C2 (its members know each other and nobody else, are
  all available, have different hosts, each \<open>http://\<close> and an authority of plain characters, and different
  range ends, one of them the greatest token, are more than the replica count, and start with nothing in
  their stores), after fewer than 2^53 accepted writes, a read with any read quorum of 0 or more, at any
  node, of a key the query string preserves, is answered 200. What it returns is a value that the owner
  accepted for the key, as number \<open>n\<close> if \<open>n\<close> is the version and more than 1; or it is \<open>null\<close>, with
  version 0 or, when no replica answered, the platform's conversion of minus infinity. The replicas that
  are asked may answer at any moment of the run, or not at all.
\<close>

theorem reads_return_accepted_values:
  assumes "view_ok view rc" "distinct (map (nId \<circ> pNode) ps)"
    and "\<forall>p \<in> set ps. member view rc p \<and> (\<forall>key. history (pStore p) key = [])"
    and "net_steps (net_start ps) N" "length (netLog N) < 2 ^ 53" "a < length (netProcs N)" "url_safe key"
    and "getData_parse rc (mislaneous_of include [''trace'']) rq = Inr (rqs, q)" "0 \<le> q"
    and "\<forall>picked. \<forall>g \<in> set (answers (fanout picked q)). answer_in_run conv (net_start ps) N key g"
  shows "\<exists>v n md effs. getData conv ch (netProcs N ! a) include key rq redirect fanout = (Ret (200, get_ok v n md), effs)
    \<and> (v = JNull \<and> n \<in> {0, conv None} \<or> copy_of (writes_of (netLog N) key) n v)"
proof -
  let ?a = "netProcs N ! a" and ?mis = "mislaneous_of include [''trace'']"
  have l64: "length (netLog N) < 2 ^ 64 - 1" using assms(5) by simp
  have c0: "copies_net (net_start ps)" using assms(3) by (simp add: copies_net_def net_start_def copies_ok_def)
  note n0 = net_start_ok [OF assms(2,3)]
  have ok: "procs_ok view rc (writes_of (netLog N)) (netProcs N)"
    by (rule net_okD(1) [OF net_ok_steps [OF assms(1) n0 assms(4) l64]])
  note m = procs_okD(1) [OF ok assms(6)]
  have k: "copies_ok (netLog N) ?a"
    using copies_net_steps [OF assms(1) n0 c0 assms(4) l64] assms(6) by (simp add: copies_net_def)
  have wf: "store_wf (pStore ?a)" and rc: "pReplicaCount ?a = rc" "0 \<le> rc" "rc < 2 ^ 63 - 1"
    using assms(1) m by (simp_all add: member_def view_ok_def)
  have i: "int64 (rc + 1) = rc + 1" using rc by (intro int64_id) simp_all
  from replica_peers [OF assms(1) m, of ch key] obtain owner replicas where
    g: "GetNNode gEndOfKeyRange gState (ring_of ch ?a) (token_of key) (int64 (pReplicaCount ?a + 1)) = Ret (Inr (owner # replicas))"
    by blast
  show ?thesis
  proof (cases "nId (pNode ?a) = gId owner \<or> q = 0")
    case True
    have "getData conv ch ?a include key rq redirect fanout = (getData_local ?a ?mis owner key, [])"
      using g True assms(8) by (simp add: getData_def rc ring_of_getData [simplified] Let_def)
    moreover obtain v n where
      "GetValAndVersion (pStore ?a) key = Ret (v, n, None)" "v = JNull \<and> n = 0 \<or> copy_of (writes_of (netLog N) key) n v"
      using latest_copy [OF k, of key] by (cases "latest (pStore ?a) key") (auto simp: GetValAndVersion_eq [OF wf])
    ultimately show ?thesis by (auto simp: getData_local_def intro!: exI [of _ v] exI [of _ n])
  next
    case False
    have small: "\<forall>picked. set picked \<subseteq> set replicas \<longrightarrow> (\<forall>x \<in> set (answers (fanout picked q)). unat (gdVersion x) < 2 ^ 53)"
    proof (intro allI impI ballI)
      fix picked x
      assume "x \<in> set (answers (fanout picked q))"
      then have "answer_in_run conv (net_start ps) N key x" using assms(10) by blast
      from answer_in_run_copy [OF assms(1) n0 c0 this assms(5,7)]
      show "unat (gdVersion x) < 2 ^ 53"
        using copy_of_bounds [of "writes_of (netLog N) key" "gdVersion x" "gdValue x"] length_writes_of [of "netLog N" key] assms(5)
        by auto
    qed
    have p: "getData_parse (pReplicaCount ?a) ?mis rq = Inr (rqs, q)" "0 < q" "pReplicaCount ?a < 2 ^ 63 - 1"
      "GetNNode gEndOfKeyRange gState (ring_of ch ?a) (token_of key) (pReplicaCount ?a + 1) = Ret (Inr (owner # replicas))"
      "nId (pNode ?a) \<noteq> gId owner"
      using assms(8,9) False g rc i by simp_all
    from read_from_replicas_facts [where fanout = fanout and conv = conv and redirect = redirect, OF p small]
    obtain picked v n md where
      R: "getData conv ch ?a include key rq redirect fanout = (Ret (200, get_ok v n md),
          [ReadReplicas (map (\<lambda>x. read_request (chQuery ch) x key) picked) q])"
        "if answers (fanout picked q) = [] then v = JNull \<and> n = conv None
         else \<exists>x \<in> set (answers (fanout picked q)). v = gdValue x \<and> n = gdVersion x
            \<and> (\<forall>g' \<in> set (answers (fanout picked q)). gdVersion g' \<le> gdVersion x)" by blast
    have "v = JNull \<and> n \<in> {0, conv None} \<or> copy_of (writes_of (netLog N) key) n v"
    proof (cases "answers (fanout picked q) = []")
      case True
      then show ?thesis using R(2) by simp
    next
      case False
      then obtain x where x: "x \<in> set (answers (fanout picked q))" "v = gdValue x" "n = gdVersion x" using R(2) by auto
      from answer_in_run_copy [OF assms(1) n0 c0 _ assms(5,7)] assms(10) x(1)
      show ?thesis unfolding x(2,3) by blast
    qed
    then show ?thesis using R(1) by blast
  qed
qed

lemma reads_return_accepted_values_witness:
  "\<exists>N v n md effs. net_steps (net_start sample_members) N
    \<and> getData (\<lambda>_. 0) no_choices (netProcs N ! 1) [] ''k'' ''1'' (DoErr BindError) (\<lambda>_ _. []) = (Ret (200, get_ok v n md), effs)
    \<and> (v = JNull \<and> n = 0 \<or> copy_of [JStr ''v''] n v)"
proof -
  obtain N where N: "net_steps (net_start sample_members) N" "netLog N = [(''k'', JStr ''v'', True)]"
    "length (netProcs N) = 2" using sample_run by blast
  have "distinct (map (nId \<circ> pNode) sample_members)" by (simp add: sample_members_def sample_member_def)
  moreover have "\<forall>p \<in> set sample_members. member sample_view 1 p \<and> (\<forall>key. history (pStore p) key = [])"
    using sample_view_facts(2,3) by (simp add: sample_members_def) (simp add: sample_member_def)
  moreover have "url_safe ''k''" "getData_parse 1 (mislaneous_of [] [''trace'']) ''1'' = Inr (''1'', 1)" by code_simp+
  moreover have "writes_of (netLog N) ''k'' = [JStr ''v'']" by (simp add: N(2) writes_of_def)
  ultimately have "\<exists>v n md effs. getData (\<lambda>_. 0) no_choices (netProcs N ! 1) [] ''k'' ''1'' (DoErr BindError) (\<lambda>_ _. [])
        = (Ret (200, get_ok v n md), effs)
      \<and> (v = JNull \<and> n = 0 \<or> copy_of [JStr ''v''] n v)"
    using reads_return_accepted_values [OF sample_view_facts(1) _ _ N(1), of 1 "''k''" "[]" "''1''" "''1''" 1 "\<lambda>_ _. []"
        "\<lambda>_. 0" no_choices "DoErr BindError"] N(2,3)
    by (simp add: answers_def)
  then show ?thesis using N(1) by blast
qed

end
