(* ===== verification/Cluster_Server.thy ===== *)
theory Cluster_Server
  imports Server_Props Cluster_Props
begin

section \<open>The server of the deprecated coordinator: main of cluster/main.go\<close>

text \<open>
  The routes of \<open>cluster/main.go\<close>, two of them plain and three in the group \<open>v1\<close>, and a request from
  its arrival to the answer. What the coordinator sends to the nodes is checked against the routes of
  the nodes in \<open>Node_Server\<close>: its gossip arrives, its initialisation of a new node does not.
\<close>

subsection \<open>Routes and requests\<close>

datatype cluster_endpoint = CePing | CeInfo | CeAddnode | CeRemovenode | CeNodedetail

definition group_path :: "string \<Rightarrow> string \<Rightarrow> string" where
  "group_path g p = g @ ''/'' @ p"

definition cluster_routes :: "(http_method \<times> string \<times> cluster_endpoint) list" where
  "cluster_routes =
     [(GET, ''/ping'', CePing),
      (GET, ''/info'', CeInfo),
      (POST, group_path ''v1'' ''node'', CeAddnode),
      (DELETE, group_path ''v1'' ''node'', CeRemovenode),
      (GET, group_path ''v1'' ''nodedetail'', CeNodedetail)]"

datatype cluster_response =
    ClPong
  | ClNodes "StorageNode list"
  | ClError "error option"
  | ClNode "error + StorageNode"
  | ClNotFound
  | ClBadRequest

type_synonym cluster_messages = "(string \<times> StorageNode) list \<times> (string \<times> NodeGossip list) list"

text \<open>
  \<open>idStr\<close> is the id drawn for a new node, \<open>now\<close> the time of its gossip, \<open>decode\<close> the JSON decoder. A
  handler that panics after a body that did not bind has already written its 400.
\<close>

definition cluster_serve ::
    "(rat \<Rightarrow> u64) \<Rightarrow> (string \<Rightarrow> (string \<times> json) list option) \<Rightarrow> string \<Rightarrow> time \<Rightarrow> Cluster
      \<Rightarrow> cluster_endpoint \<Rightarrow> http_request \<Rightarrow> Cluster \<times> (nat \<times> cluster_response) outcome \<times> cluster_messages" where
  "cluster_serve conv decode idStr now c e rq =
     (case e of
        CePing \<Rightarrow> (c, Ret (200, ClPong), [], [])
      | CeInfo \<Rightarrow> (c, Ret (200, ClNodes (Info c)), [], [])
      | CeAddnode \<Rightarrow>
          (case addnode conv idStr now c (decode (hrBody rq)) of
             Panic p \<Rightarrow> (c, Panic p, [], [])
           | Ret (c', status, err, inits, gossips) \<Rightarrow> (c', Ret (status, ClError err), inits, gossips))
      | CeRemovenode \<Rightarrow>
          (case removenode conv c (decode (hrBody rq)) of
             (c', r) \<Rightarrow> (c', bind_outcome r (\<lambda>(status, err). Ret (status, ClError err)), [], []))
      | CeNodedetail \<Rightarrow>
          (c, bind_outcome (nodedetail c (Query (hrUrl rq) ''key'')) (\<lambda>(status, r). Ret (status, ClNode r)), [], []))"

definition cluster_handle ::
    "(string \<Rightarrow> string) \<Rightarrow> (rat \<Rightarrow> u64) \<Rightarrow> (string \<Rightarrow> (string \<times> json) list option) \<Rightarrow> string \<Rightarrow> time
      \<Rightarrow> Cluster \<Rightarrow> http_request \<Rightarrow> Cluster \<times> (nat \<times> cluster_response) outcome \<times> cluster_messages" where
  "cluster_handle absolute conv decode idStr now c rq =
     (case dispatch absolute cluster_routes (hrMethod rq) (hrUrl rq) of
        Malformed \<Rightarrow> (c, Ret (400, ClBadRequest), [], [])
      | Unrouted \<Rightarrow> (c, Ret (404, ClNotFound), [], [])
      | Handler e \<Rightarrow> cluster_serve conv decode idStr now c e rq)"

text \<open>The requests served one after the other, from the start of \<open>main\<close>.\<close>

definition cluster_main ::
    "(string \<Rightarrow> string) \<Rightarrow> (rat \<Rightarrow> u64) \<Rightarrow> (string \<Rightarrow> (string \<times> json) list option) \<Rightarrow> string
      \<Rightarrow> (string \<times> time \<times> http_request) list \<Rightarrow> Cluster" where
  "cluster_main absolute conv decode initialHost rqs =
     fold (\<lambda>(idStr, now, rq) c. fst (cluster_handle absolute conv decode idStr now c rq)) rqs (NewCluster initialHost)"

text \<open>\<open>handleGet\<close> reads the global map \<open>storage\<close>; no route leads to it and nothing fills the map.\<close>

definition handleGet :: "(string \<times> json) list \<Rightarrow> string \<Rightarrow> nat \<times> (string \<times> json) list" where
  "handleGet storage url =
     (let key = Query url ''key''
      in (200, [(''message'', JStr ''ok''), (''value'', body_field (Some storage) key)]))"

subsection \<open>What it serves\<close>

lemma cluster_handle_step:
  "fst (cluster_handle absolute conv decode idStr now c rq) = c
   \<or> cluster_step conv c (fst (cluster_handle absolute conv decode idStr now c rq))"
proof (cases "dispatch absolute cluster_routes (hrMethod rq) (hrUrl rq)")
  case (Handler e)
  then have h: "cluster_handle absolute conv decode idStr now c rq = cluster_serve conv decode idStr now c e rq"
    by (simp add: cluster_handle_def)
  show ?thesis
  proof (cases e)
    case CeAddnode
    show ?thesis
    proof (cases "addnode conv idStr now c (decode (hrBody rq))")
      case (Ret x)
      obtain c' st err i g where x: "x = (c', st, err, i, g)" by (cases x)
      show ?thesis using step_addnode [OF Ret [unfolded x]] Ret
        by (simp add: h CeAddnode cluster_serve_def x)
    qed (simp add: h CeAddnode cluster_serve_def)
  next
    case CeRemovenode
    obtain c' r where "removenode conv c (decode (hrBody rq)) = (c', r)" by force
    then show ?thesis using step_removenode [of conv c] by (simp add: h CeRemovenode cluster_serve_def)
  qed (simp_all add: h cluster_serve_def)
qed (simp_all add: cluster_handle_def)

lemma cluster_fold_reachable:
  "cluster_reachable conv c \<Longrightarrow> cluster_reachable conv
     (fold (\<lambda>(idStr, now, rq) c. fst (cluster_handle absolute conv decode idStr now c rq)) rqs c)"
proof (induction rqs arbitrary: c)
  case (Cons x rqs)
  obtain i t rq where x: "x = (i, t, rq)" by (cases x)
  have "cluster_reachable conv (fst (cluster_handle absolute conv decode i t c rq))"
    using cluster_handle_step [of absolute conv decode i t c rq] Cons.prems reach_step by metis
  then show ?case using Cons.IH by (simp add: x)
qed simp

text \<open>
  Whatever requests the coordinator has served, its nodes are in order and the last range ends at the
  greatest token, the owner of no key is ever found, and \<open>info\<close> lists exactly the nodes it keeps.
\<close>

theorem cluster_main_serves:
  "cluster_wf (cluster_main absolute conv decode initialHost rqs)
   \<and> fst (snd (cluster_serve conv decode idStr now (cluster_main absolute conv decode initialHost rqs) CeNodedetail rq))
       = Ret (200, ClNode (Inl ErrNoNodeWithRequiredEndOfKeyRange))
   \<and> cluster_serve conv decode idStr now (cluster_main absolute conv decode initialHost rqs) CeInfo rq
       = (cluster_main absolute conv decode initialHost rqs,
          Ret (200, ClNodes (cNodes (cluster_main absolute conv decode initialHost rqs))), [], [])"
proof -
  have r: "cluster_reachable conv (cluster_main absolute conv decode initialHost rqs)"
    unfolding cluster_main_def by (rule cluster_fold_reachable [OF reach_init])
  then show ?thesis using cluster_reachable_invariant [OF r] nodedetail_finds_no_node [OF r]
    by (simp add: cluster_serve_def Info_def)
qed

text \<open>
  What the coordinator sends to nodes: its gossip reaches their handler, but no node has a route for
  the initialisation of a new node, which is answered 404.
\<close>

theorem InitNode_reaches_no_handler:
  assumes "gin_paths absolute" "http_host (sHost node)"
  shows "dispatch absolute initRouter m (fst (InitNode node)) = Unrouted
    \<and> dispatch absolute initRouter POST (sendGossip_url (sHost node)) = Handler EpPostGossip"
proof -
  have "plain (sHost node)" using assms(2) by (simp add: http_host_def)
  then have "request_line_ok (sHost node @ ''/v1/node/init'')" "request_line_ok (sHost node @ updateGossipEndpoint)"
    by (auto intro!: request_line_plain simp: path_defs control_char_def)
  moreover
  have "url_path (sHost node @ ''/v1/node/init'' @ []) = ''/v1/node/init''"
    by (rule url_path_host [OF assms(2)]) simp_all
  moreover have "route absolute initRouter m ''/v1/node/init'' = None"
    using assms(1) by (simp add: gin_paths_def joins_def initRouter_def path_defs)
  ultimately show ?thesis
    using url_path_endpoint(5) [OF assms(2), of "[]"] routes(4) [OF assms(1)] by (simp add: dispatch_def InitNode_def sendGossip_url_def)
qed

lemma InitNode_reaches_no_handler_witness:
  "dispatch (\<lambda>p. if take 1 p = ''/'' then p else CHR ''/'' # p) initRouter POST
     (fst (InitNode \<lparr>sId = ''c'', sEndOfKeyRange = 50, sHost = ''http://h3'', sState = []\<rparr>)) = Unrouted"
  using InitNode_reaches_no_handler
    [where node = "\<lparr>sId = ''c'', sEndOfKeyRange = 50, sHost = ''http://h3'', sState = []\<rparr>"
      and absolute = "\<lambda>p. if take 1 p = ''/'' then p else CHR ''/'' # p"]
  by (simp add: gin_paths_def joins_def list_all_iff http_host_def control_char_def)

end
