(* ===== verification/Spec2Isabelle.thy ===== *)
theory Spec2Isabelle
  imports Store_Props Store_Concurrency Sha256_Vector Ring_Props Gossip_Props Gossip_Concurrency
    Fanout_Props Api_Client_Props Data_Props Peer_Props Bootstrap_Props Start_Props Cluster_Props
    Server_Props Takeover_Props Register_Props Copies_Props Cluster_Server
begin

text \<open>
  A model of \<open>distributed_storage_nodes\<close>, a distributed key-value store in Go, with the theorems that
  say what it guarantees and where it does not.

  \<^bold>\<open>The program.\<close> Every process is a node with a range end on a ring of 64-bit tokens and a store of
  versions per key. Nodes learn of each other by gossip. A client may write to and read from any
  node: a request for a key of another owner is redirected; the owner stores a write and sends it to
  the next nodes of the ring, its replicas. A node that joins waits until its view of the cluster is
  stable, then bootstraps: it copies the part of its right neighbour's store that it takes over,
  while that neighbour streams the writes that come in meanwhile. A deprecated coordinator
  (\<open>cluster/\<close>) keeps a list of nodes and tells them of each other.

  \<^bold>\<open>Conventions\<close> (theory \<open>Go_Runtime\<close>). A function that may panic returns an \<open>outcome\<close>. A Go error
  is a value of \<open>error\<close>, in a sum or an option. Integers keep their width: \<open>uint64\<close> is \<open>u64\<close>, an
  \<open>int\<close> is an integer with \<open>int64\<close> or \<open>int32\<close> written out where the source can overflow. Each
  iteration over a map and each unstable sort takes a \<open>choice\<close>, and every order of the map, every
  sorted permutation is reached by some choice, so theorems hold for every behaviour of the runtime.
  A mutable object is a record that is passed and returned. What is not in the repository is an
  argument: the peers (\<open>redirect\<close>, \<open>fanout\<close>, \<open>resp\<close>, \<open>ask\<close>), the JSON text (\<open>decoder\<close>), the clock,
  the printing and parsing of times, the platform's conversions of numbers out of range.

  \<^bold>\<open>Theories.\<close>

  \<^item> \<open>Go_Runtime\<close>, \<open>Strconv\<close>, \<open>Sha256\<close>: panics, map order, \<open>sort.Slice\<close>; \<open>ParseUint\<close>, \<open>Atoi\<close>,
    \<open>Split\<close>, \<open>Trim\<close>; SHA-256, with its constants and a test vector in \<open>Sha256_Vector\<close>.
  \<^item> \<open>DSN_Types\<close>: \<open>types/types.go\<close> and \<open>err/err.go\<close>.
  \<^item> \<open>Data_Store\<close>: \<open>store/data_store.go\<close>, each method as a function on the store. The locale
    \<open>versioned_register\<close> says what a client may expect of a versioned store and is interpreted on
    \<open>Put\<close> and \<open>GetValAndVersion\<close>. \<open>Store_Props\<close>: the contract of each method, and that the store refines a
    register per key. \<open>Store_Concurrency\<close>: the same methods as sequences of lock operations under
    Go's writer-preferring read-write lock.
  \<^item> \<open>Ring\<close>, \<open>Ring_Props\<close>: \<open>helper/helper.go\<close>, from the hash of a key to its owner and replicas.
  \<^item> \<open>Fanout\<close>, \<open>Fanout_Props\<close>: \<open>RunUntilMinSuccessOrTimeout\<close>, whose goroutines are a transition
    function on events; a run is a list of events, so every schedule is covered.
  \<^item> \<open>Gossip_Table\<close>: \<open>gossip/gossip.go\<close>. \<open>Node_Gossip\<close>: the \<open>Node\<close> of \<open>nodes/main.go\<close> and its
    gossip handlers; the locale \<open>membership\<close> states what the merge needs of the table.
    \<open>Gossip_Props\<close>: merging moves forward, and nodes that have seen the same entries agree.
    \<open>Gossip_Concurrency\<close>: sequences of requests, broadcasts, interleaved merges, and overlapping calls
    of \<open>changeStateToBootStrappingIfReady\<close> by their unprotected accesses (\<open>ready_next\<close>).
  \<^item> \<open>Api_Client\<close>, \<open>Api_Client_Props\<close>: \<open>nodes/api_client/api_client.go\<close>, the requests a node sends
    and the reading of the answers.
  \<^item> \<open>Node_Data\<close>, \<open>Data_Props\<close>: the handlers \<open>postData\<close>, \<open>postReplicaData\<close>, \<open>getData\<close>. Each returns
    the new process, the status with the reply (or a panic), and the messages it sent.
    \<open>Peer_Props\<close>: the handlers of several nodes put together, each request delivered to the handler
    of its receiver.
  \<^item> \<open>Node_Bootstrap\<close>, \<open>Snapshot_Stream\<close>, \<open>Bootstrap_Props\<close>: \<open>handleBootstrapping\<close> with the reading
    of the stream; \<open>getSnapshotStream\<close> as a step relation over the handler, its two goroutines, the
    writers of the store, the gossip table, and the other requests that replace or reset the single
    hook of the store; and what the two guarantee.
  \<^item> \<open>Node_Start\<close>, \<open>Start_Props\<close>: flags, \<open>NewNode\<close>, the metadata of a node.
  \<^item> \<open>Http\<close>, \<open>Node_Server\<close>, \<open>Server_Props\<close>: \<open>initRouter\<close> and \<open>main\<close> of \<open>nodes/main.go\<close>. \<open>handle\<close> takes a
    request from its URL and body to the handler and the answer: a URL that breaks the request line
    gets a 400 before any handler (\<open>dispatch\<close>), and the write hook, which is another goroutine's closure,
    runs inside the handler of a write, where it may return, panic or block (\<open>after_hook\<close>); a handler
    that never returns has no outcome. \<open>node_step\<close> is everything that changes a running process, and
    \<open>process_ok\<close> its invariant.
  \<^item> \<open>Takeover_Props\<close>: the end of a bootstrap across processes, and the choice of its source.
  \<^item> \<open>Cluster_Net\<close>, \<open>Register_Props\<close>, \<open>Copies_Props\<close>: any number of processes with what travels between
    them, the refinement of a register per key as long as the membership is stable, and what the
    replicas' copies may hold.
  \<^item> \<open>Coordinator\<close>, \<open>Cluster_Props\<close>, \<open>Cluster_Server\<close>: \<open>cluster/\<close>, as operations, as the states requests
    can reach, and behind its router.

  \<^bold>\<open>What the theorems show.\<close> A store behaves as one register per key, whatever ties the sort
  leaves. The ring gives every token below the greatest one exactly one owner, a new node takes over
  one range, and replica sets have no repetitions. A write changes only the owner's store; a 200
  means that a read at the owner returns it. A redirected write arrives at the owner with its quorum,
  and a read from replicas meets every write confirmed by enough of them. Gossip converges. During a bootstrap no write is lost
  on the sending side as long as no other request takes the hook away, the end marker comes after the whole snapshot, and a replayed snapshot reproduces the owner's histories;
  once the new node's gossip has arrived, lookups in its range return it, and not before. A process keeps its
  invariant and loses nothing whatever reaches it. With a replica count of 0 or more a handler panics
  only for a write without a string key or where the write hook panics, and fails to return only where
  the hook blocks. A whole cluster with a stable membership is a versioned register for every key: whatever is redirected,
  delayed or lost, a read for the owner returns the last accepted write, a read from replicas some accepted write, and writes are
  accepted and stored. Other theorems show
  that a design does not keep its promise: the write quorum is not compared with anything, a failed
  write may persist, a live write can be lost at the new node, a disconnected client blocks the
  owner's writers, \<open>GetValAndVersion\<close> can deadlock, a bootstrap may copy from a node that does not own
  the range, two gossip requests that overlap can start the bootstrap twice, a key with a space cannot
  be read through another node, and a replica count of -1, which the start accepts, makes reads panic.

  \<^bold>\<open>Bounds.\<close> Versions are 64-bit words; theorems on sequences of writes assume fewer than 2^64 of
  them, and those on reads from replicas fewer than 2^53, where a float64 is exact. Replica counts are assumed below 2^63 - 1 (2^31 where the source converts to \<open>int32\<close>). No
  definition uses fuel: loops recurse on the data they visit, and the runs of the concurrent parts
  are lists of events or reachability, with a proved bound for the fan-out.

  \<^bold>\<open>Not modelled.\<close> Logging, tracing (\<open>nodetracer\<close>: it sets up an exporter and has no effect on the data), the
  unused \<open>wal\<close>, how much time passes between the ticks of a timer; the HTTP transport, gin's matching of
  paths beyond equality, and the JSON codec, apart from what they make of numbers where the code
  depends on it. In \<open>Node_Server\<close> and \<open>Cluster_Net\<close> a handler runs as one step; the interleavings inside
  one are those of \<open>Gossip_Concurrency\<close>, \<open>Store_Concurrency\<close> and \<open>Snapshot_Stream\<close>. Data races on plain variables are given one interleaving semantics.
\<close>

end
